(* ===== verification/Prelude.thy ===== *)
theory Prelude
  imports Main "HOL-Library.Word" "HOL-Library.Monad_Syntax" "HOL-Library.Multiset"
begin

text \<open>
  Shared vocabulary of the development: how the Rust language's own constructs are
  written in HOL, and the generic facts the component theories rest on.

  The kernel is built with \<open>overflow-checks = true\<close> in every profile
  (\<open>Cargo.toml\<close>), so an arithmetic overflow, an index out of range and a failed
  \<open>assert!\<close> all panic. A computation that can panic has type \<open>'a option\<close>,
  with \<open>None\<close> for the panic, and is written with the \<open>do\<close> notation of
  \<open>Monad_Syntax\<close>; a Rust \<open>Option\<close> inside it is a second \<open>option\<close>.
  A \<open>u64\<close> or \<open>usize\<close> is either a \<open>64 word\<close>, or a natural number
  below \<open>2 ^ 64\<close> whose sums and differences go through \<open>add64\<close> and \<open>sub64\<close>.
\<close>

unbundle bit_operations_syntax

named_theorems rust_defs \<open>definitions of the Rust primitives, for unfolding\<close>

type_synonym u8 = "8 word"
type_synonym u16 = "16 word"
type_synonym u32 = "32 word"
type_synonym u64 = "64 word"

section \<open>Panicking primitives\<close>

text \<open>\<open>assert!(b)\<close>.\<close>

definition rassert :: "bool \<Rightarrow> unit option" where
  [rust_defs]: "rassert b = (if b then Some () else None)"

text \<open>\<open>xs[i]\<close> read and written: a panic out of range.\<close>

definition idx :: "'a list \<Rightarrow> nat \<Rightarrow> 'a option" where
  [rust_defs]: "idx xs i = (if i < length xs then Some (xs ! i) else None)"

definition upd :: "'a list \<Rightarrow> nat \<Rightarrow> 'a \<Rightarrow> 'a list option" where
  [rust_defs]: "upd xs i v = (if i < length xs then Some (xs[i := v]) else None)"

text \<open>\<open>xs.get(i)\<close>, which is \<open>None\<close> out of range.\<close>

definition get_opt :: "'a list \<Rightarrow> nat \<Rightarrow> 'a option" where
  [rust_defs]: "get_opt xs i = (if i < length xs then Some (xs ! i) else None)"

text \<open>Checked \<open>u64\<close> arithmetic on natural numbers: a panic on overflow.\<close>

definition add64 :: "nat \<Rightarrow> nat \<Rightarrow> nat option" where
  [rust_defs]: "add64 a b = (if a + b < 2 ^ 64 then Some (a + b) else None)"

definition sub64 :: "nat \<Rightarrow> nat \<Rightarrow> nat option" where
  [rust_defs]: "sub64 a b = (if b \<le> a then Some (a - b) else None)"

text \<open>\<open>wrapping_sub\<close>.\<close>

definition wrapping_sub64 :: "nat \<Rightarrow> nat \<Rightarrow> nat" where
  "wrapping_sub64 a b = (a + 2 ^ 64 - b) mod 2 ^ 64"

text \<open>\<open>iter().position(p)\<close>: the first index whose entry satisfies \<open>p\<close>.\<close>

fun position :: "('a \<Rightarrow> bool) \<Rightarrow> 'a list \<Rightarrow> nat option" where
  "position p [] = None"
| "position p (x # xs) = (if p x then Some 0 else map_option Suc (position p xs))"

section \<open>Simplification of panicking code\<close>

lemma rassert_simps [simp]:
  "rassert True = Some ()" "rassert False = None"
  by (simp_all add: rassert_def)

lemma rassert_bind [simp]: "rassert b \<bind> f = (if b then f () else None)"
  by (simp add: rassert_def)

lemma rassert_eq_Some [simp]: "rassert b = Some u \<longleftrightarrow> b"
  by (simp add: rassert_def)

lemma idx_Some [simp]: "i < length xs \<Longrightarrow> idx xs i = Some (xs ! i)"
  by (simp add: idx_def)

lemma idx_eq_Some: "idx xs i = Some x \<longleftrightarrow> i < length xs \<and> x = xs ! i"
  by (auto simp: idx_def)

lemma upd_Some [simp]: "i < length xs \<Longrightarrow> upd xs i v = Some (xs[i := v])"
  by (simp add: upd_def)

lemma upd_eq_Some: "upd xs i v = Some ys \<longleftrightarrow> i < length xs \<and> ys = xs[i := v]"
  by (auto simp: upd_def)

lemma add64_Some [simp]: "a + b < 2 ^ 64 \<Longrightarrow> add64 a b = Some (a + b)"
  by (simp add: add64_def)

lemma add64_eq_Some: "add64 a b = Some c \<longleftrightarrow> a + b < 2 ^ 64 \<and> c = a + b"
  by (auto simp: add64_def)

lemma sub64_Some [simp]: "b \<le> a \<Longrightarrow> sub64 a b = Some (a - b)"
  by (simp add: sub64_def)

lemma sub64_eq_Some: "sub64 a b = Some c \<longleftrightarrow> b \<le> a \<and> c = a - b"
  by (auto simp: sub64_def)

lemmas rust_Some = idx_eq_Some upd_eq_Some add64_eq_Some sub64_eq_Some

section \<open>Lists\<close>

lemma those_map_Some [simp]: "those (map (\<lambda>x. Some (f x)) xs) = Some (map f xs)"
  by (induction xs) simp_all

lemma those_map_Some':
  "(\<And>x. x \<in> set xs \<Longrightarrow> g x = Some (f x)) \<Longrightarrow> those (map g xs) = Some (map f xs)"
  by (induction xs) simp_all

lemma take_Suc_list_update [simp]:
  "n < length xs \<Longrightarrow> take (Suc n) (xs[n := v]) = take n xs @ [v]"
  by (simp add: take_Suc_conv_app_nth)

lemma position_None: "position p xs = None \<longleftrightarrow> (\<forall>x\<in>set xs. \<not> p x)"
  by (induction xs) auto

lemma position_Some:
  "position p xs = Some i \<longleftrightarrow> i < length xs \<and> p (xs ! i) \<and> (\<forall>j<i. \<not> p (xs ! j))"
proof (induction xs arbitrary: i)
  case Nil
  then show ?case by simp
next
  case (Cons x xs)
  show ?case
  proof (cases i)
    case 0
    then show ?thesis by simp
  next
    case (Suc k)
    have "(\<forall>j<Suc k. \<not> p ((x # xs) ! j)) \<longleftrightarrow> \<not> p x \<and> (\<forall>j<k. \<not> p (xs ! j))"
      by (simp add: less_Suc_eq_0_disj) (metis nth_Cons_0 nth_Cons_Suc)
    with Suc Cons show ?thesis by auto
  qed
qed

lemma remove1_nth:
  "distinct xs \<Longrightarrow> i < length xs \<Longrightarrow> remove1 (xs ! i) xs = take i xs @ drop (Suc i) xs"
proof (induction xs arbitrary: i)
  case Nil
  then show ?case by simp
next
  case (Cons x xs)
  then show ?case by (cases i) auto
qed

lemma filter_neq_nth:
  assumes "distinct (map f xs)" "i < length xs"
  shows "filter (\<lambda>x. f x \<noteq> f (xs ! i)) xs = take i xs @ drop (Suc i) xs"
proof -
  define ys zs where "ys = take i xs" and "zs = drop (Suc i) xs"
  have split: "xs = ys @ xs ! i # zs"
    using assms(2) by (simp add: ys_def zs_def id_take_nth_drop)
  then have "distinct (map f (ys @ xs ! i # zs))" using assms(1) by simp
  then have "filter (\<lambda>x. f x \<noteq> f (xs ! i)) ys = ys" "filter (\<lambda>x. f x \<noteq> f (xs ! i)) zs = zs"
    by (auto simp: filter_id_conv) (metis imageI)+
  then have "filter (\<lambda>x. f x \<noteq> f (xs ! i)) (ys @ xs ! i # zs) = ys @ zs" by simp
  with split show ?thesis by (simp add: ys_def zs_def)
qed

lemma position_takeWhile:
  "(case position p xs of None \<Rightarrow> length xs | Some i \<Rightarrow> i) = length (takeWhile (\<lambda>x. \<not> p x) xs)"
  by (induction xs) (auto split: option.splits)

lemma takeWhile_shorter: "x \<in> set xs \<Longrightarrow> \<not> P x \<Longrightarrow> length (takeWhile P xs) < length xs"
  by (induction xs) auto

lemma insort_takeWhile:
  "sorted ys \<Longrightarrow> insort x ys = takeWhile (\<lambda>y. y \<le> x) ys @ x # dropWhile (\<lambda>y. y \<le> x) ys"
proof (induction ys)
  case Nil
  then show ?case by simp
next
  case (Cons y ys)
  show ?case
  proof (cases "y = x")
    case True
    then have "insort x ys = x # ys" using Cons.prems by (simp add: insort_is_Cons)
    then have "takeWhile (\<lambda>y. y \<le> x) ys @ x # dropWhile (\<lambda>y. y \<le> x) ys = x # ys"
      using Cons by simp
    with True show ?thesis by simp
  next
    case False
    with Cons show ?thesis by auto
  qed
qed

lemma take_insort:
  "sorted ys \<Longrightarrow> take n (insort x (take n ys)) = take n (insort x ys)"
proof (induction ys arbitrary: n)
  case Nil
  then show ?case by simp
next
  case (Cons y ys)
  show ?case
  proof (cases n)
    case (Suc m)
    with Cons show ?thesis by (cases m) auto
  qed simp
qed

section \<open>Array loops\<close>

text \<open>
  Three loops the kernel writes over a fixed array \<open>xs\<close> of which the first \<open>n\<close>
  entries are live: the scan \<open>while i < n { if p(xs[i]) { break } i += 1 }\<close>, which
  leaves the index it stopped at; the closing of a gap
  \<open>while i + 1 < n { xs[i] = xs[i + 1]; i += 1 }\<close>; and the opening of one
  \<open>while j > i { xs[j] = xs[j - 1]; j -= 1 }\<close>.
\<close>

function scan :: "('a \<Rightarrow> bool) \<Rightarrow> 'a list \<Rightarrow> nat \<Rightarrow> nat \<Rightarrow> nat option" where
  "scan p xs n i = (if i < n
     then do { x \<leftarrow> idx xs i; if p x then Some i else scan p xs n (i + 1) }
     else Some i)"
  by pat_completeness auto
termination
  by (relation "measure (\<lambda>(p, xs, n, i). n - i)") auto

function shift_down :: "'a list \<Rightarrow> nat \<Rightarrow> nat \<Rightarrow> 'a list option" where
  "shift_down xs n i = (if i + 1 < n
     then do { x \<leftarrow> idx xs (i + 1); xs' \<leftarrow> upd xs i x; shift_down xs' n (i + 1) }
     else Some xs)"
  by pat_completeness auto
termination
  by (relation "measure (\<lambda>(xs, n, i). n - i)") auto

fun shift_up :: "'a list \<Rightarrow> nat \<Rightarrow> nat \<Rightarrow> 'a list option" where
  "shift_up xs i j = (if i < j
     then do { x \<leftarrow> idx xs (j - 1); xs' \<leftarrow> upd xs j x; shift_up xs' i (j - 1) }
     else Some xs)"

declare scan.simps [simp del] shift_down.simps [simp del] shift_up.simps [simp del]

lemma scan_position:
  assumes "i \<le> n" "n \<le> length xs"
  shows "scan p xs n i =
    Some (case position p (drop i (take n xs)) of None \<Rightarrow> n | Some j \<Rightarrow> i + j)"
  using assms
proof (induction p xs n i rule: scan.induct)
  case (1 p xs n i)
  show ?case
  proof (cases "i < n")
    case False
    with 1 show ?thesis by (subst scan.simps) simp
  next
    case True
    then have d: "drop i (take n xs) = xs ! i # drop (Suc i) (take n xs)"
      using 1 Cons_nth_drop_Suc [of i "take n xs"] by simp
    show ?thesis
      using True 1 by (subst scan.simps) (auto simp: d split: option.split)
  qed
qed

lemma scan_0:
  "n \<le> length xs \<Longrightarrow>
   scan p xs n 0 = Some (case position p (take n xs) of None \<Rightarrow> n | Some j \<Rightarrow> j)"
  by (simp add: scan_position split: option.split)

lemma shift_down_list:
  assumes "i < n" "n \<le> length xs"
  shows "shift_down xs n i =
    Some (take i xs @ drop (Suc i) (take n xs) @ xs ! (n - 1) # drop n xs)"
  using assms
proof (induction xs n i rule: shift_down.induct)
  case (1 xs n i)
  show ?case
  proof (cases "i + 1 < n")
    case False
    with 1 have i: "i = n - 1" "Suc i = n" by simp_all
    have "xs = take i xs @ xs ! i # drop n xs"
      using 1 i id_take_nth_drop [of i xs] by simp
    with False i show ?thesis by (subst shift_down.simps) simp
  next
    case True
    let ?ys = "xs[i := xs ! (i + 1)]"
    have "shift_down xs n i = shift_down ?ys n (i + 1)"
      using True 1 by (subst shift_down.simps) simp
    also have "\<dots> = Some (take (i + 1) ?ys @ drop (Suc (i + 1)) (take n ?ys) @ ?ys ! (n - 1) # drop n ?ys)"
      using 1(1) [of "xs ! (i + 1)" ?ys] True 1(3) by simp
    also have "drop (Suc (i + 1)) (take n ?ys) = drop (Suc (Suc i)) (take n xs)"
      by (simp add: take_update_swap)
    also have "Some (take (i + 1) ?ys @ drop (Suc (Suc i)) (take n xs) @ ?ys ! (n - 1) # drop n ?ys)
        = Some (take i xs @ drop (Suc i) (take n xs) @ xs ! (n - 1) # drop n xs)"
      using True 1(3) Cons_nth_drop_Suc [of "Suc i" "take n xs"] by simp
    finally show ?thesis .
  qed
qed

lemma shift_up_list:
  assumes "i \<le> j" "j < length xs"
  shows "shift_up xs i j = Some (take i xs @ xs ! i # drop i (take j xs) @ drop (Suc j) xs)"
  using assms
proof (induction xs i j rule: shift_up.induct)
  case (1 xs i j)
  show ?case
  proof (cases "i < j")
    case False
    with 1 show ?thesis
      using id_take_nth_drop [of i xs] by (subst shift_up.simps) simp
  next
    case True
    let ?ys = "xs[j := xs ! (j - 1)]"
    have "shift_up xs i j = shift_up ?ys i (j - 1)"
      using True 1 by (subst shift_up.simps) simp
    also have "\<dots> = Some (take i ?ys @ ?ys ! i # drop i (take (j - 1) ?ys) @ drop (Suc (j - 1)) ?ys)"
      using 1(1) [of "xs ! (j - 1)" ?ys] True 1(3) by simp
    also have "drop (Suc (j - 1)) ?ys = xs ! (j - 1) # drop (Suc j) xs"
      using True 1(3) Cons_nth_drop_Suc [of j ?ys] by simp
    also have "drop i (take (j - 1) ?ys) @ xs ! (j - 1) # drop (Suc j) xs
        = drop i (take j xs) @ drop (Suc j) xs"
      using True 1(3) take_Suc_conv_app_nth [of "j - 1" xs] by simp
    finally show ?thesis using True by simp
  qed
qed

end
