(* ===== verification/Queues.thy ===== *)
theory Queues
  imports Prelude
begin

text \<open>
  Queues as the kernel uses them. The first part is the arithmetic of a ring buffer:
  the \<open>n\<close> entries from index \<open>h\<close> of an array, wrapping at its end, which the
  ready queue (\<open>sched::ReadyQueue\<close>) and the bounded channel
  (\<open>sched::wait::ChannelModel\<close>) both are. The second part is the interface of a
  first-in first-out queue, which those two and the intrusive wait queue
  (\<open>sched::wait::WaitQueue\<close>) provide, and the ordering guarantee its clients rely on.
\<close>

section \<open>Ring buffers\<close>

definition ring_list :: "nat \<Rightarrow> nat \<Rightarrow> 'a list \<Rightarrow> 'a list" where
  "ring_list h n buf = map (\<lambda>i. buf ! ((h + i) mod length buf)) [0..<n]"

lemma ring_index_inj:
  assumes "(h + i) mod L = (h + j) mod L" "i < L" "j < L"
  shows "i = (j :: nat)"
proof -
  have "a = b" if "(h + a) mod L = (h + b) mod L" "a < L" "b < L" "a \<le> b" for a b :: nat
  proof -
    have "L dvd b - a"
      using that mod_eq_dvd_iff_nat [of "h + a" "h + b" L] by simp
    then show ?thesis using that by (auto dest: dvd_imp_le)
  qed
  from this [of i j] this [of j i] assms show ?thesis by linarith
qed

lemma length_ring_list [simp]: "length (ring_list h n buf) = n"
  by (simp add: ring_list_def)

lemma ring_list_0 [simp]: "ring_list h 0 buf = []"
  by (simp add: ring_list_def)

lemma ring_list_nth [simp]: "i < n \<Longrightarrow> ring_list h n buf ! i = buf ! ((h + i) mod length buf)"
  by (simp add: ring_list_def)

lemma ring_list_Suc:
  "ring_list h (Suc n) buf = ring_list h n buf @ [buf ! ((h + n) mod length buf)]"
  by (simp add: ring_list_def)

text \<open>An entry past the live ones can be overwritten.\<close>

lemma ring_list_update_past:
  assumes "n \<le> m" "m < length buf"
  shows "ring_list h n (buf[(h + m) mod length buf := x]) = ring_list h n buf"
proof (rule nth_equalityI)
  fix i assume "i < length (ring_list h n (buf[(h + m) mod length buf := x]))"
  then have i: "i < n" by simp
  have "(h + i) mod length buf \<noteq> (h + m) mod length buf"
    using ring_index_inj [of h i "length buf" m] i assms by auto
  with i show "ring_list h n (buf[(h + m) mod length buf := x]) ! i = ring_list h n buf ! i"
    by simp
qed simp

lemma ring_list_push:
  assumes "n < length buf"
  shows "ring_list h (Suc n) (buf[(h + n) mod length buf := x]) = ring_list h n buf @ [x]"
proof -
  have "(h + n) mod length buf < length buf"
    using assms by (intro mod_less_divisor) linarith
  then show ?thesis using assms by (simp add: ring_list_Suc ring_list_update_past)
qed

lemma ring_list_Cons:
  assumes "h < length buf" "0 < n"
  shows "ring_list h n buf = buf ! h # ring_list (Suc h mod length buf) (n - 1) buf"
proof (rule nth_equalityI)
  show "length (ring_list h n buf) = length (buf ! h # ring_list (Suc h mod length buf) (n - 1) buf)"
    using assms by simp
  fix i assume "i < length (ring_list h n buf)"
  then have i: "i < n" by simp
  show "ring_list h n buf ! i = (buf ! h # ring_list (Suc h mod length buf) (n - 1) buf) ! i"
  proof (cases i)
    case 0
    with i assms show ?thesis by simp
  next
    case (Suc j)
    have "(Suc h mod length buf + j) mod length buf = (h + i) mod length buf"
      using Suc by (simp add: mod_add_left_eq)
    with i Suc show ?thesis by simp
  qed
qed

lemma ring_list_pop:
  assumes "h < length buf" "0 < n" "n \<le> length buf"
  shows "ring_list (Suc h mod length buf) (n - 1) (buf[h := x]) = tl (ring_list h n buf)"
proof (cases "n = 1")
  case True
  then show ?thesis using assms by (simp add: ring_list_Cons)
next
  case False
  let ?L = "length buf"
  have "ring_list (Suc h mod ?L) (n - 1) (buf[(Suc h mod ?L + (?L - 1)) mod ?L := x])
        = ring_list (Suc h mod ?L) (n - 1) buf"
    using assms False by (intro ring_list_update_past) linarith+
  moreover have "(Suc h mod ?L + (?L - 1)) mod ?L = h"
  proof -
    have "(Suc h mod ?L + (?L - 1)) mod ?L = (Suc h + (?L - 1)) mod ?L"
      by (rule mod_add_left_eq)
    also have "Suc h + (?L - 1) = h + ?L"
      using assms(1) by linarith
    finally show ?thesis using assms(1) by simp
  qed
  ultimately show ?thesis using assms by (simp add: ring_list_Cons)
qed

lemma ring_list_update_at:
  assumes "i < n" "n \<le> length buf"
  shows "ring_list h n (buf[(h + i) mod length buf := x]) = (ring_list h n buf)[i := x]"
proof (rule nth_equalityI)
  have L: "(h + i) mod length buf < length buf"
    using assms by (intro mod_less_divisor) linarith
  fix j assume "j < length (ring_list h n (buf[(h + i) mod length buf := x]))"
  then have j: "j < n" by simp
  show "ring_list h n (buf[(h + i) mod length buf := x]) ! j = (ring_list h n buf)[i := x] ! j"
  proof (cases "i = j")
    case True
    with j L show ?thesis by simp
  next
    case False
    then have "(h + j) mod length buf \<noteq> (h + i) mod length buf"
      using ring_index_inj [of h j "length buf" i] j assms by auto
    with False j L show ?thesis by simp
  qed
qed simp

section \<open>The interface of a first-in first-out queue\<close>

text \<open>Pushing a list of items, and popping until \<open>n\<close> items have been asked for.\<close>

fun push_all :: "('q \<Rightarrow> 'a \<Rightarrow> 'q option) \<Rightarrow> 'q \<Rightarrow> 'a list \<Rightarrow> 'q option" where
  "push_all push q [] = Some q"
| "push_all push q (x # xs) = do { q' \<leftarrow> push q x; push_all push q' xs }"

fun pop_n :: "('q \<Rightarrow> ('a option \<times> 'q) option) \<Rightarrow> nat \<Rightarrow> 'q \<Rightarrow> ('a list \<times> 'q) option" where
  "pop_n pop 0 q = Some ([], q)"
| "pop_n pop (Suc n) q = do {
     (r, q') \<leftarrow> pop q;
     (case r of
        None \<Rightarrow> Some ([], q')
      | Some x \<Rightarrow> do { (xs, q'') \<leftarrow> pop_n pop n q'; Some (x # xs, q'') }) }"

locale fifo_queue =
  fixes inv :: "'q \<Rightarrow> bool"
    and items :: "'q \<Rightarrow> 'a list"
    and room :: "'q \<Rightarrow> 'a \<Rightarrow> bool"
    and push :: "'q \<Rightarrow> 'a \<Rightarrow> 'q option"
    and pop :: "'q \<Rightarrow> ('a option \<times> 'q) option"
  assumes push_room: "inv q \<Longrightarrow> room q x \<Longrightarrow>
      \<exists>q'. push q x = Some q' \<and> inv q' \<and> items q' = items q @ [x]"
    and pop_empty: "inv q \<Longrightarrow> items q = [] \<Longrightarrow> pop q = Some (None, q)"
    and pop_cons: "inv q \<Longrightarrow> items q = x # xs \<Longrightarrow>
      \<exists>q'. pop q = Some (Some x, q') \<and> inv q' \<and> items q' = xs"
begin

lemma pop_never_panics: "inv q \<Longrightarrow> pop q \<noteq> None"
  by (cases "items q") (use pop_empty pop_cons in fastforce)+

lemma pop_n_prefix:
  "inv q \<Longrightarrow> \<exists>q'. pop_n pop n q = Some (take n (items q), q') \<and> inv q' \<and> items q' = drop n (items q)"
proof (induction n arbitrary: q)
  case 0
  then show ?case by simp
next
  case (Suc n)
  show ?case
  proof (cases "items q")
    case Nil
    with Suc.prems show ?thesis by (simp add: pop_empty)
  next
    case (Cons x xs)
    then obtain q' where "pop q = Some (Some x, q')" "inv q'" "items q' = xs"
      using pop_cons Suc.prems by blast
    with Suc.IH [of q'] Cons show ?thesis by auto
  qed
qed

text \<open>
  What a client sees: when each push had room, the pops return what was already queued
  and then the pushed items, in the order they were pushed.
\<close>

lemma push_all_then_pop:
  assumes "inv q" "push_all push q xs = Some q'"
    and "\<And>p y ys zs. xs = ys @ y # zs \<Longrightarrow> push_all push q ys = Some p \<Longrightarrow> room p y"
  shows "inv q' \<and> items q' = items q @ xs \<and>
    (\<exists>q''. pop_n pop (length (items q) + length xs) q' = Some (items q @ xs, q'') \<and> items q'' = [])"
proof -
  have "inv q' \<and> items q' = items q @ xs"
    using assms
  proof (induction xs arbitrary: q)
    case Nil
    then show ?case by simp
  next
    case (Cons x xs)
    from Cons.prems(3) [of "[]" x xs q] have "room q x" by simp
    then obtain p where p: "push q x = Some p" "inv p" "items p = items q @ [x]"
      using push_room Cons.prems(1) by blast
    have "inv q' \<and> items q' = items p @ xs"
    proof (rule Cons.IH)
      show "inv p" by (rule p)
      show "push_all push p xs = Some q'" using Cons.prems(2) p by simp
      fix r y ys zs assume "xs = ys @ y # zs" "push_all push p ys = Some r"
      then show "room r y" using Cons.prems(3) [of "x # ys" y zs r] p by simp
    qed
    with p show ?case by simp
  qed
  moreover from this obtain q'' where
    "pop_n pop (length (items q) + length xs) q' =
       Some (take (length (items q) + length xs) (items q'), q'')"
    "items q'' = drop (length (items q) + length xs) (items q')"
    using pop_n_prefix by blast
  ultimately show ?thesis by simp
qed

end

end
