(* ===== verification/Sched_Queues.thy ===== *)
theory Sched_Queues
  imports Queues
begin

text \<open>
  The run queue and the timeout list of \<open>crates/core/src/sched/mod.rs\<close>.

  \<open>ready_queue\<close> is \<open>ReadyQueue\<close>, a FIFO of thread ids in a ring of fixed
  capacity; \<open>timeout_queue\<close> is \<open>TimeoutQueue\<close>, a table kept sorted by deadline
  and then id. Their operations are translated one by one, with every assertion and
  index check as a panic. The invariants are \<open>rq_inv\<close> and \<open>tq_inv\<close>; the
  abstractions are the list of queued ids (\<open>rq_list\<close>) and the map from a thread to its
  deadline (\<open>tq_map\<close>).
\<close>

section \<open>Thread ids and states\<close>

type_synonym thread_id = u32
type_synonym instant = u64

definition thread_none :: thread_id where
  "thread_none = - 1"

definition FAR_DEADLINE :: instant where
  "FAR_DEADLINE = - 1"

definition OVERDUE_NS :: u64 where
  "OVERDUE_NS = 5000000000"

datatype thread_state =
    Ready
  | Running
  | Sleeping (deadline: instant)
  | Blocked (wq: nat) (deadline: instant)
  | Dead

definition effective_deadline :: "instant option \<Rightarrow> instant" where
  "effective_deadline d = (case d of None \<Rightarrow> FAR_DEADLINE | Some t \<Rightarrow> t)"

section \<open>The ready queue\<close>

text \<open>
  \<open>rq_ids\<close> and \<open>rq_cap\<close> are the address and the capacity the core tool reads; the
  operations use \<open>rq_buf\<close> alone. The address comes from the heap, so \<open>rq_try_new\<close>
  takes it as an argument, \<open>None\<close> for an allocation failure.
\<close>

record ready_queue =
  rq_ids :: nat
  rq_cap :: nat
  rq_head :: nat
  rq_len :: nat
  rq_buf :: "thread_id list"

definition rq_empty :: ready_queue where
  "rq_empty = \<lparr>rq_ids = 0, rq_cap = 0, rq_head = 0, rq_len = 0, rq_buf = []\<rparr>"

definition rq_try_new :: "nat option \<Rightarrow> nat \<Rightarrow> ready_queue option" where
  "rq_try_new addr cap = (case addr of
      None \<Rightarrow> None
    | Some p \<Rightarrow> (let buf = replicate cap thread_none in
        Some \<lparr>rq_ids = p, rq_cap = length buf, rq_head = 0, rq_len = 0, rq_buf = buf\<rparr>))"

definition rq_capacity :: "ready_queue \<Rightarrow> nat" where
  "rq_capacity q = length (rq_buf q)"

definition rq_is_empty :: "ready_queue \<Rightarrow> bool" where
  "rq_is_empty q \<longleftrightarrow> rq_len q = 0"

definition rq_index :: "ready_queue \<Rightarrow> nat \<Rightarrow> nat option" where
  "rq_index q i = do {
     rassert (length (rq_buf q) \<noteq> 0);
     Some ((rq_head q + i) mod length (rq_buf q)) }"

definition rq_at :: "ready_queue \<Rightarrow> nat \<Rightarrow> thread_id option" where
  "rq_at q i = do {
     rassert (i < rq_len q);
     j \<leftarrow> rq_index q i;
     idx (rq_buf q) j }"

definition rq_iter :: "ready_queue \<Rightarrow> thread_id list option" where
  "rq_iter q = those (map (rq_at q) [0..<rq_len q])"

definition rq_front :: "ready_queue \<Rightarrow> thread_id option option" where
  "rq_front q = (if rq_len q = 0 then Some None
     else do { x \<leftarrow> idx (rq_buf q) (rq_head q); Some (Some x) })"

definition rq_contains :: "ready_queue \<Rightarrow> thread_id \<Rightarrow> bool option" where
  "rq_contains q tid = do { xs \<leftarrow> rq_iter q; Some (list_ex (\<lambda>x. x = tid) xs) }"

definition rq_push_back :: "ready_queue \<Rightarrow> thread_id \<Rightarrow> ready_queue option" where
  "rq_push_back q tid = do {
     rassert (tid \<noteq> thread_none);
     c \<leftarrow> rq_contains q tid;
     if c then Some q
     else do {
       rassert (rq_len q < length (rq_buf q));
       i \<leftarrow> rq_index q (rq_len q);
       buf \<leftarrow> upd (rq_buf q) i tid;
       Some (q\<lparr>rq_buf := buf, rq_len := rq_len q + 1\<rparr>) } }"

definition rq_pop_front :: "ready_queue \<Rightarrow> (thread_id option \<times> ready_queue) option" where
  "rq_pop_front q = (if rq_len q = 0 then Some (None, q)
     else do {
       tid \<leftarrow> idx (rq_buf q) (rq_head q);
       buf \<leftarrow> upd (rq_buf q) (rq_head q) thread_none;
       h \<leftarrow> rq_index (q\<lparr>rq_buf := buf\<rparr>) 1;
       Some (Some tid, q\<lparr>rq_buf := buf, rq_head := h, rq_len := rq_len q - 1\<rparr>) })"

text \<open>The loop of \<open>remove\<close>: pull each later tid one place forward.\<close>

function rq_shift :: "ready_queue \<Rightarrow> nat \<Rightarrow> ready_queue option" where
  "rq_shift q i = (if i + 1 < rq_len q
     then do {
       nxt \<leftarrow> rq_at q (i + 1);
       slot \<leftarrow> rq_index q i;
       buf \<leftarrow> upd (rq_buf q) slot nxt;
       rq_shift (q\<lparr>rq_buf := buf\<rparr>) (i + 1) }
     else Some q)"
  by pat_completeness auto
termination
  by (relation "measure (\<lambda>(q, i). rq_len q - i)") auto

definition rq_remove :: "ready_queue \<Rightarrow> thread_id \<Rightarrow> (bool \<times> ready_queue) option" where
  "rq_remove q tid = do {
     xs \<leftarrow> rq_iter q;
     (case position (\<lambda>x. x = tid) xs of
        None \<Rightarrow> Some (False, q)
      | Some i \<Rightarrow> do {
          q' \<leftarrow> rq_shift q i;
          lst \<leftarrow> rq_index q' (rq_len q' - 1);
          buf \<leftarrow> upd (rq_buf q') lst thread_none;
          Some (True, q'\<lparr>rq_buf := buf, rq_len := rq_len q' - 1\<rparr>) }) }"

section \<open>The timeout list\<close>

record timeout =
  to_id :: thread_id
  to_deadline :: instant

definition NO_TIMEOUT :: timeout where
  "NO_TIMEOUT = \<lparr>to_id = thread_none, to_deadline = FAR_DEADLINE\<rparr>"

record timeout_queue =
  tq_items :: "timeout list"
  tq_len :: nat

definition tq_empty :: timeout_queue where
  "tq_empty = \<lparr>tq_items = [], tq_len = 0\<rparr>"

definition tq_new :: "nat \<Rightarrow> timeout_queue" where
  "tq_new cap = \<lparr>tq_items = replicate cap NO_TIMEOUT, tq_len = 0\<rparr>"

definition tq_next_deadline :: "timeout_queue \<Rightarrow> instant option option" where
  "tq_next_deadline t = (if tq_len t = 0 then Some None
     else do { x \<leftarrow> idx (tq_items t) 0; Some (Some (to_deadline x)) })"

definition tq_get :: "timeout_queue \<Rightarrow> nat \<Rightarrow> timeout option" where
  "tq_get t i = do { rassert (i < tq_len t); idx (tq_items t) i }"

definition tq_remove :: "timeout_queue \<Rightarrow> thread_id \<Rightarrow> (bool \<times> timeout_queue) option" where
  "tq_remove t tid = do {
     i \<leftarrow> scan (\<lambda>x. to_id x = tid) (tq_items t) (tq_len t) 0;
     if i = tq_len t then Some (False, t)
     else do {
       items \<leftarrow> shift_down (tq_items t) (tq_len t) i;
       items' \<leftarrow> upd items (tq_len t - 1) NO_TIMEOUT;
       Some (True, t\<lparr>tq_items := items', tq_len := tq_len t - 1\<rparr>) } }"

text \<open>The order of the list: the test of the search in \<open>insert\<close>.\<close>

definition to_before :: "timeout \<Rightarrow> timeout \<Rightarrow> bool" where
  "to_before a b \<longleftrightarrow> to_deadline a < to_deadline b \<or>
     (to_deadline a = to_deadline b \<and> to_id a < to_id b)"

definition tq_insert :: "timeout_queue \<Rightarrow> thread_id \<Rightarrow> instant \<Rightarrow> timeout_queue option" where
  "tq_insert t tid dl = do {
     rassert (tid \<noteq> thread_none);
     (_, t) \<leftarrow> tq_remove t tid;
     rassert (tq_len t < length (tq_items t));
     let new = \<lparr>to_id = tid, to_deadline = dl\<rparr>;
     i \<leftarrow> scan (to_before new) (tq_items t) (tq_len t) 0;
     items \<leftarrow> shift_up (tq_items t) i (tq_len t);
     items' \<leftarrow> upd items i new;
     Some (t\<lparr>tq_items := items', tq_len := tq_len t + 1\<rparr>) }"

definition tq_pop_expired ::
  "timeout_queue \<Rightarrow> instant \<Rightarrow> (thread_id option \<times> timeout_queue) option" where
  "tq_pop_expired t now = (if tq_len t = 0 then Some (None, t)
     else do {
       x \<leftarrow> idx (tq_items t) 0;
       if to_deadline x > now then Some (None, t)
       else do {
         (_, t') \<leftarrow> tq_remove t (to_id x);
         Some (Some (to_id x), t') } })"

text \<open>\<open>pop_expired_into\<close> fills \<open>out\<close> from index \<open>n\<close>.\<close>

function tq_pop_expired_into ::
  "timeout_queue \<Rightarrow> instant \<Rightarrow> thread_id list \<Rightarrow> nat \<Rightarrow> (nat \<times> thread_id list \<times> timeout_queue) option"
where
  "tq_pop_expired_into t now out n = (if n < length out
     then do {
       (r, t') \<leftarrow> tq_pop_expired t now;
       (case r of
          None \<Rightarrow> Some (n, out, t')
        | Some tid \<Rightarrow> tq_pop_expired_into t' now (out[n := tid]) (n + 1)) }
     else Some (n, out, t))"
  by pat_completeness auto
termination
  by (relation "measure (\<lambda>(t, now, out, n). length out - n)") auto

section \<open>Overdue threads\<close>

definition saturating_sub64 :: "u64 \<Rightarrow> u64 \<Rightarrow> u64" where
  "saturating_sub64 a b = (if a < b then 0 else a - b)"

definition is_overdue :: "thread_state \<Rightarrow> instant \<Rightarrow> bool" where
  "is_overdue st now = (case st of
      Sleeping dl \<Rightarrow> dl \<noteq> FAR_DEADLINE \<and> saturating_sub64 now dl \<ge> OVERDUE_NS
    | Blocked _ dl \<Rightarrow> dl \<noteq> FAR_DEADLINE \<and> saturating_sub64 now dl \<ge> OVERDUE_NS
    | Ready \<Rightarrow> False | Running \<Rightarrow> False | Dead \<Rightarrow> False)"

text \<open>
  One turn of the loop of \<open>smallest_overdue\<close>: the place of \<open>tid\<close> among the \<open>n\<close>
  ids kept so far, the new count, and \<open>continue\<close> when the table is full of smaller ids.
\<close>

definition so_step ::
  "(thread_id \<Rightarrow> bool) \<Rightarrow> instant \<Rightarrow> thread_id \<times> thread_state \<Rightarrow> nat \<times> thread_id list
   \<Rightarrow> (nat \<times> thread_id list) option" where
  "so_step keep now = (\<lambda>(tid, st) (n, out).
     if \<not> keep tid \<or> \<not> is_overdue st now then Some (n, out)
     else (let pos = (case position (\<lambda>o'. o' > tid) (take n out) of None \<Rightarrow> n | Some p \<Rightarrow> p) in
       if n \<ge> length out \<and> pos = n then Some (n, out)
       else (let n' = (if n < length out then n + 1 else n) in
         do {
           i \<leftarrow> sub64 n' 1;
           out' \<leftarrow> shift_up out pos i;
           out'' \<leftarrow> upd out' pos tid;
           Some (n', out'') })))"

fun smallest_overdue ::
  "(thread_id \<times> thread_state) list \<Rightarrow> instant \<Rightarrow> (thread_id \<Rightarrow> bool) \<Rightarrow> nat \<times> thread_id list
   \<Rightarrow> (nat \<times> thread_id list) option" where
  "smallest_overdue [] now keep r = Some r"
| "smallest_overdue (t # ts) now keep r = do {
     r' \<leftarrow> so_step keep now t r;
     smallest_overdue ts now keep r' }"

definition find_overdue ::
  "(thread_id \<times> thread_state) list \<Rightarrow> instant \<Rightarrow> thread_id \<Rightarrow> thread_id list
   \<Rightarrow> (nat \<times> thread_id \<times> thread_id list) option" where
  "find_overdue threads now from out = do {
     (n1, out1) \<leftarrow> smallest_overdue threads now (\<lambda>i. i \<ge> from) (0, out);
     (n, out2) \<leftarrow> (if n1 < length out1
        then do {
          (m, rest) \<leftarrow> smallest_overdue threads now (\<lambda>i. i < from) (0, drop n1 out1);
          Some (n1 + m, take n1 out1 @ rest) }
        else Some (n1, out1));
     let nxt = (if 1 \<le> n \<and> n - 1 < length out2 then out2 ! (n - 1) + 1 else from);
     Some (n, nxt, out2) }"

section \<open>Placement and wake-up\<close>

definition enqueue_runnable ::
  "ready_queue \<Rightarrow> thread_id \<Rightarrow> thread_id \<Rightarrow> thread_state \<Rightarrow> ready_queue option" where
  "enqueue_runnable q tid idle st =
     (if tid = idle \<or> tid = thread_none then Some q
      else (case st of
          Running \<Rightarrow> rq_push_back q tid
        | Ready \<Rightarrow> rq_push_back q tid
        | Sleeping _ \<Rightarrow> Some q
        | Blocked _ _ \<Rightarrow> Some q
        | Dead \<Rightarrow> Some q))"

definition take_next :: "ready_queue \<Rightarrow> thread_id \<Rightarrow> (thread_id \<times> ready_queue) option" where
  "take_next q idle = do {
     (r, q') \<leftarrow> rq_pop_front q;
     Some (case r of None \<Rightarrow> idle | Some tid \<Rightarrow> tid, q') }"

definition should_preempt :: "u64 \<Rightarrow> u64 \<Rightarrow> bool \<Rightarrow> bool" where
  "should_preempt elapsed quantum current_is_idle \<longleftrightarrow> current_is_idle \<or> elapsed \<ge> quantum"

declare rq_shift.simps [simp del] tq_pop_expired_into.simps [simp del]

text \<open>An expired pop shortens the list, so the wake-up loop ends.\<close>

lemma tq_remove_len:
  assumes "tq_remove t tid = Some (b, t')"
  shows "tq_len t' = (if b then tq_len t - 1 else tq_len t)"
  using assms by (auto simp: tq_remove_def bind_eq_Some_conv split: if_splits)

lemma tq_pop_expired_len:
  assumes "tq_pop_expired t now = Some (Some tid, t')"
  shows "tq_len t' < tq_len t"
proof -
  from assms have len: "tq_len t \<noteq> 0" and h: "0 < length (tq_items t)"
    and r: "tq_remove t (to_id (tq_items t ! 0)) = Some (b, t') \<Longrightarrow> tq_len t' = tq_len t - 1" for b
    using tq_remove_len [of t "to_id (tq_items t ! 0)" b t']
    by (auto simp: tq_pop_expired_def tq_remove_def scan.simps [of _ _ _ 0] bind_eq_Some_conv
        rust_Some split: if_splits)
  from assms obtain b where "tq_remove t (to_id (tq_items t ! 0)) = Some (b, t')"
    by (auto simp: tq_pop_expired_def bind_eq_Some_conv rust_Some split: if_splits)
  with r len show ?thesis by simp
qed

text \<open>\<open>on_wake\<close> is the caller's hook, a change to a state of the caller's.\<close>

function wake_expired ::
  "timeout_queue \<Rightarrow> ready_queue \<Rightarrow> instant \<Rightarrow> (thread_id \<Rightarrow> 's \<Rightarrow> 's) \<Rightarrow> 's \<Rightarrow> nat
   \<Rightarrow> (nat \<times> timeout_queue \<times> ready_queue \<times> 's) option" where
  "wake_expired t q now on_wake s n = do {
     (r, t') \<leftarrow> tq_pop_expired t now;
     (case r of
        None \<Rightarrow> Some (n, t', q, s)
      | Some tid \<Rightarrow> do {
          q' \<leftarrow> rq_push_back q tid;
          wake_expired t' q' now on_wake (on_wake tid s) (n + 1) }) }"
  by pat_completeness auto
termination
  by (relation "measure (\<lambda>(t, q, now, on_wake, s, n). tq_len t)") (auto dest: tq_pop_expired_len)

declare wake_expired.simps [simp del]

section \<open>The ready queue is a duplicate-free FIFO\<close>

definition rq_list :: "ready_queue \<Rightarrow> thread_id list" where
  "rq_list q = ring_list (rq_head q) (rq_len q) (rq_buf q)"

definition rq_inv :: "ready_queue \<Rightarrow> bool" where
  "rq_inv q \<longleftrightarrow> rq_len q \<le> length (rq_buf q) \<and> (rq_buf q = [] \<or> rq_head q < length (rq_buf q)) \<and>
     distinct (rq_list q) \<and> thread_none \<notin> set (rq_list q)"

lemma length_rq_list [simp]: "length (rq_list q) = rq_len q"
  by (simp add: rq_list_def)

lemma rq_at_nth: "i < rq_len q \<Longrightarrow> rq_len q \<le> length (rq_buf q) \<Longrightarrow> rq_at q i = Some (rq_list q ! i)"
  by (auto simp: rq_at_def rq_index_def rq_list_def)

lemma rq_iter_list: "rq_len q \<le> length (rq_buf q) \<Longrightarrow> rq_iter q = Some (rq_list q)"
  unfolding rq_iter_def
  by (subst those_map_Some' [where f = "\<lambda>i. rq_list q ! i"])
    (auto simp: rq_at_nth intro: nth_equalityI)

lemma rq_contains_iff:
  "rq_inv q \<Longrightarrow> rq_contains q tid = Some (tid \<in> set (rq_list q))"
  by (simp add: rq_contains_def rq_iter_list rq_inv_def list_ex_iff)

lemma rq_push_back_dup: "rq_inv q \<Longrightarrow> tid \<in> set (rq_list q) \<Longrightarrow> rq_push_back q tid = Some q"
  by (auto simp: rq_push_back_def rq_contains_iff rq_inv_def)

lemma rq_push_back_new:
  assumes "rq_inv q" "tid \<notin> set (rq_list q)" "tid \<noteq> thread_none" "rq_len q < rq_capacity q"
  obtains q' where "rq_push_back q tid = Some q'" "rq_inv q'" "rq_list q' = rq_list q @ [tid]"
    "rq_capacity q' = rq_capacity q" "rq_len q' = Suc (rq_len q)"
proof -
  let ?i = "(rq_head q + rq_len q) mod length (rq_buf q)"
  let ?q = "q\<lparr>rq_buf := (rq_buf q)[?i := tid], rq_len := rq_len q + 1\<rparr>"
  have L: "rq_len q < length (rq_buf q)" using assms(4) by (simp add: rq_capacity_def)
  then have ne: "rq_buf q \<noteq> []" by auto
  then have i: "?i < length (rq_buf q)" by simp
  have "rq_push_back q tid = Some ?q"
    using assms L i ne by (simp add: rq_push_back_def rq_contains_iff rq_index_def)
  moreover have l: "rq_list ?q = rq_list q @ [tid]"
    using L by (simp add: rq_list_def ring_list_push)
  moreover have "rq_inv ?q"
    using assms L l by (auto simp: rq_inv_def)
  ultimately show ?thesis using that by (simp add: rq_capacity_def)
qed

lemma rq_push_back_full:
  "rq_inv q \<Longrightarrow> tid \<notin> set (rq_list q) \<Longrightarrow> rq_len q = rq_capacity q \<Longrightarrow> rq_push_back q tid = None"
  by (simp add: rq_push_back_def rq_contains_iff rq_capacity_def rassert_def)

lemma rq_push_back_NONE: "rq_push_back q thread_none = None"
  by (simp add: rq_push_back_def)

lemma rq_pop_front_empty: "rq_inv q \<Longrightarrow> rq_list q = [] \<Longrightarrow> rq_pop_front q = Some (None, q)"
  by (metis length_0_conv length_rq_list rq_pop_front_def)

lemma rq_pop_front_Cons:
  assumes "rq_inv q" "rq_list q = x # xs"
  obtains q' where "rq_pop_front q = Some (Some x, q')" "rq_inv q'" "rq_list q' = xs"
    "rq_capacity q' = rq_capacity q"
proof -
  have len: "0 < rq_len q" using assms(2) by (metis length_Cons length_rq_list zero_less_Suc)
  with assms(1) have h: "rq_head q < length (rq_buf q)" "rq_len q \<le> length (rq_buf q)"
    by (auto simp: rq_inv_def)
  let ?q = "q\<lparr>rq_buf := (rq_buf q)[rq_head q := thread_none],
              rq_head := Suc (rq_head q) mod length (rq_buf q), rq_len := rq_len q - 1\<rparr>"
  have x: "x = rq_buf q ! rq_head q"
    using assms(2) ring_list_Cons [OF h(1) len] by (simp add: rq_list_def)
  have "rq_pop_front q = Some (Some x, ?q)"
    using len h x by (auto simp: rq_pop_front_def rq_index_def)
  moreover have l: "rq_list ?q = xs"
    using ring_list_pop [OF h(1) len h(2)] assms(2) by (simp add: rq_list_def)
  moreover have "rq_inv ?q"
    unfolding rq_inv_def l using assms len h mod_less_divisor [of "length (rq_buf q)"]
    by (fastforce simp: rq_inv_def)
  ultimately show ?thesis using that by (simp add: rq_capacity_def)
qed

text \<open>The ready queue provides the FIFO interface, with room for an id it does not hold.\<close>

interpretation rq: fifo_queue rq_inv rq_list
  "\<lambda>q x. rq_len q < rq_capacity q \<and> x \<notin> set (rq_list q) \<and> x \<noteq> thread_none"
  rq_push_back rq_pop_front
  by unfold_locales
    (auto elim: rq_push_back_new rq_pop_front_Cons simp: rq_pop_front_empty)

lemma rq_shift_list:
  assumes "rq_len q \<le> length (rq_buf q)" "i < rq_len q"
  shows "\<exists>b. rq_shift q i = Some (q\<lparr>rq_buf := b\<rparr>) \<and> length b = length (rq_buf q) \<and>
    ring_list (rq_head q) (rq_len q) b =
      take i (rq_list q) @ drop (Suc i) (rq_list q) @ [last (rq_list q)]"
  using assms
proof (induction q i rule: rq_shift.induct)
  case (1 q i)
  let ?n = "rq_len q" and ?xs = "rq_list q"
  show ?case
  proof (cases "i + 1 < ?n")
    case False
    with 1 have "i = ?n - 1" "?xs \<noteq> []" by (auto simp flip: length_greater_0_conv)
    then have "take i ?xs @ drop (Suc i) ?xs @ [last ?xs] = ?xs"
      by (metis append_Nil append_butlast_last_id butlast_conv_take diff_Suc_1 drop_all
          length_rq_list not_less_eq_eq diff_le_self le_add_diff_inverse plus_1_eq_Suc Suc_diff_1
          length_greater_0_conv order_refl)
    with False show ?thesis
      by (subst rq_shift.simps) (auto simp: rq_list_def intro!: exI [of _ "rq_buf q"])
  next
    case True
    let ?s = "(rq_head q + i) mod length (rq_buf q)"
    let ?b = "(rq_buf q)[?s := ?xs ! (i + 1)]"
    let ?q = "q\<lparr>rq_buf := ?b\<rparr>"
    have s: "?s < length (rq_buf q)" using 1 by (intro mod_less_divisor) linarith
    have l: "rq_list ?q = ?xs[i := ?xs ! (i + 1)]"
      using 1 True by (simp add: rq_list_def ring_list_update_at)
    have steps: "rq_at q (i + 1) = Some (?xs ! (i + 1))" "rq_index q i = Some ?s"
      "upd (rq_buf q) ?s (?xs ! (i + 1)) = Some ?b"
      using True s 1 by (auto simp: rq_at_nth rq_index_def)
    then have eq: "rq_shift q i = rq_shift ?q (i + 1)"
      using True by (subst rq_shift.simps) simp
    obtain b where b: "rq_shift ?q (i + 1) = Some (?q\<lparr>rq_buf := b\<rparr>)" "length b = length ?b"
      "ring_list (rq_head q) ?n b =
         take (i + 1) (rq_list ?q) @ drop (Suc (i + 1)) (rq_list ?q) @ [last (rq_list ?q)]"
      using "1.IH" [OF True steps] True 1(2) by auto
    have "take (i + 1) (?xs[i := ?xs ! (i + 1)]) = take i ?xs @ [?xs ! (i + 1)]"
      using True by simp
    moreover have "drop (Suc i) ?xs = ?xs ! (i + 1) # drop (Suc (i + 1)) ?xs"
      using True by (simp add: Cons_nth_drop_Suc)
    moreover have "last (?xs[i := ?xs ! (i + 1)]) = last ?xs"
      using True by (subst last_list_update) (auto simp flip: length_greater_0_conv)
    ultimately have "ring_list (rq_head q) ?n b = take i ?xs @ drop (Suc i) ?xs @ [last ?xs]"
      using b(3) l True by simp
    moreover have "rq_shift q i = Some (q\<lparr>rq_buf := b\<rparr>)" "length b = length (rq_buf q)"
      using eq b(1,2) by simp_all
    ultimately show ?thesis by blast
  qed
qed

lemma rq_remove_absent: "rq_inv q \<Longrightarrow> tid \<notin> set (rq_list q) \<Longrightarrow> rq_remove q tid = Some (False, q)"
proof -
  assume "rq_inv q" "tid \<notin> set (rq_list q)"
  then have "position (\<lambda>x. x = tid) (rq_list q) = None" by (auto simp: position_None)
  with \<open>rq_inv q\<close> show ?thesis by (simp add: rq_remove_def rq_iter_list rq_inv_def)
qed

lemma rq_remove_present:
  assumes "rq_inv q" "tid \<in> set (rq_list q)"
  obtains q' where "rq_remove q tid = Some (True, q')" "rq_inv q'"
    "rq_list q' = remove1 tid (rq_list q)" "rq_capacity q' = rq_capacity q"
proof -
  let ?xs = "rq_list q" and ?n = "rq_len q" and ?h = "rq_head q"
  from assms obtain i where i: "position (\<lambda>x. x = tid) ?xs = Some i"
    by (cases "position (\<lambda>x. x = tid) ?xs") (auto simp: position_None)
  then have in_i: "i < ?n" "?xs ! i = tid" by (auto simp: position_Some)
  have n: "?n \<le> length (rq_buf q)" "?h < length (rq_buf q)"
    using assms in_i by (auto simp: rq_inv_def)
  obtain b where b: "rq_shift q i = Some (q\<lparr>rq_buf := b\<rparr>)" "length b = length (rq_buf q)"
    "ring_list ?h ?n b = take i ?xs @ drop (Suc i) ?xs @ [last ?xs]"
    using rq_shift_list [of q i] n in_i by blast
  let ?s = "(?h + (?n - 1)) mod length b"
  let ?q = "q\<lparr>rq_buf := b[?s := thread_none], rq_len := ?n - 1\<rparr>"
  have s: "?s < length b" using b(2) n by (intro mod_less_divisor) linarith
  have rem: "rq_remove q tid = Some (True, ?q)"
    using i b(1,2) s n by (auto simp: rq_remove_def rq_iter_list rq_index_def)
  have "ring_list ?h (?n - 1) b = take i ?xs @ drop (Suc i) ?xs"
    using b(3) ring_list_Suc [of ?h "?n - 1" b] in_i by (simp add: append_eq_append_conv)
  moreover have "ring_list ?h (?n - 1) (b[?s := thread_none]) = ring_list ?h (?n - 1) b"
    using b(2) n in_i by (intro ring_list_update_past) auto
  ultimately have l: "rq_list ?q = take i ?xs @ drop (Suc i) ?xs"
    unfolding rq_list_def by simp
  also have "\<dots> = remove1 tid ?xs"
    using remove1_nth [of ?xs i] assms(1) in_i by (simp add: rq_inv_def)
  finally have l': "rq_list ?q = remove1 tid ?xs" .
  have "rq_inv ?q"
    unfolding rq_inv_def l' using assms(1) n b(2) set_remove1_subset [of tid ?xs]
    by (auto simp: rq_inv_def simp del: ring_list_nth)
  with rem l' b(2) show ?thesis using that by (simp add: rq_capacity_def)
qed

section \<open>The timeout list is a map ordered by deadline\<close>

definition tq_list :: "timeout_queue \<Rightarrow> timeout list" where
  "tq_list t = take (tq_len t) (tq_items t)"

definition tq_map :: "timeout_queue \<Rightarrow> thread_id \<rightharpoonup> instant" where
  "tq_map t = map_of (map (\<lambda>x. (to_id x, to_deadline x)) (tq_list t))"

definition tq_inv :: "timeout_queue \<Rightarrow> bool" where
  "tq_inv t \<longleftrightarrow> tq_len t \<le> length (tq_items t) \<and> sorted_wrt to_before (tq_list t) \<and>
     distinct (map to_id (tq_list t)) \<and> thread_none \<notin> to_id ` set (tq_list t)"

lemma to_before_trans: "to_before a b \<Longrightarrow> to_before b c \<Longrightarrow> to_before a c"
  by (auto simp: to_before_def)

lemma to_before_total: "to_id a \<noteq> to_id b \<Longrightarrow> \<not> to_before a b \<Longrightarrow> to_before b a"
  by (auto simp: to_before_def)

lemma to_before_deadline: "to_before a b \<Longrightarrow> to_deadline a \<le> to_deadline b"
  by (auto simp: to_before_def)

lemma dom_tq_map: "dom (tq_map t) = to_id ` set (tq_list t)"
  by (force simp: tq_map_def dom_map_of_conv_image_fst)

lemma length_tq_list [simp]: "tq_inv t \<Longrightarrow> length (tq_list t) = tq_len t"
  by (simp add: tq_inv_def tq_list_def)

lemma tq_remove_filter:
  assumes "tq_inv t"
  obtains t' where "tq_remove t tid = Some (tid \<in> dom (tq_map t), t')" "tq_inv t'"
    "tq_list t' = filter (\<lambda>x. to_id x \<noteq> tid) (tq_list t)"
    "length (tq_items t') = length (tq_items t)"
proof (cases "position (\<lambda>x. to_id x = tid) (tq_list t)")
  case None
  then have "filter (\<lambda>x. to_id x \<noteq> tid) (tq_list t) = tq_list t" "tid \<notin> dom (tq_map t)"
    by (auto simp: position_None dom_tq_map filter_id_conv)
  moreover have "tq_remove t tid = Some (False, t)"
    using assms None by (simp add: tq_remove_def scan_0 tq_inv_def tq_list_def)
  ultimately show ?thesis using that assms by simp
next
  case (Some i)
  let ?n = "tq_len t" and ?xs = "tq_list t"
  from Some assms have i: "i < ?n" "to_id (?xs ! i) = tid" by (auto simp: position_Some)
  have n: "?n \<le> length (tq_items t)" using assms by (simp add: tq_inv_def)
  let ?ys = "take i (tq_items t) @ drop (Suc i) ?xs @ tq_items t ! (?n - 1) # drop ?n (tq_items t)"
  let ?t = "t\<lparr>tq_items := ?ys[?n - 1 := NO_TIMEOUT], tq_len := ?n - 1\<rparr>"
  have sh: "shift_down (tq_items t) ?n i = Some ?ys"
    using shift_down_list [OF i(1) n] by (simp add: tq_list_def)
  have len: "length ?ys = length (tq_items t)" using i n by (simp add: tq_list_def)
  have "take (?n - 1) ?ys = take i ?xs @ drop (Suc i) ?xs"
    using i n by (simp add: tq_list_def)
  then have l: "tq_list ?t = take i ?xs @ drop (Suc i) ?xs" by (simp add: tq_list_def)
  also have "\<dots> = filter (\<lambda>x. to_id x \<noteq> tid) ?xs"
    using filter_neq_nth [of to_id ?xs i] i assms by (auto simp: tq_inv_def)
  finally have l': "tq_list ?t = filter (\<lambda>x. to_id x \<noteq> tid) ?xs" .
  have "tid \<in> dom (tq_map t)" using i assms nth_mem [of i ?xs] by (auto simp: dom_tq_map)
  moreover have "tq_remove t tid = Some (True, ?t)"
    using Some i n sh len by (simp add: tq_remove_def scan_0 tq_list_def [symmetric])
  moreover have "tq_inv ?t"
    unfolding tq_inv_def l' using assms len n
    by (auto simp: tq_inv_def sorted_wrt_filter distinct_map_filter)
  ultimately show ?thesis using that [of ?t] l' len by simp
qed

lemma tq_map_filter:
  "tq_list t' = filter (\<lambda>x. to_id x \<noteq> tid) (tq_list t) \<Longrightarrow> tq_map t' = (tq_map t)(tid := None)"
proof -
  have "map_of (map (\<lambda>x. (to_id x, to_deadline x)) (filter (\<lambda>x. to_id x \<noteq> tid) xs)) =
      (map_of (map (\<lambda>x. (to_id x, to_deadline x)) xs))(tid := None)" for xs
    by (induction xs) (auto simp: fun_eq_iff)
  then show "tq_list t' = filter (\<lambda>x. to_id x \<noteq> tid) (tq_list t) \<Longrightarrow> ?thesis"
    by (simp add: tq_map_def)
qed

text \<open>The insertion proper, into a list that does not hold the id and has room.\<close>

lemma tq_place:
  assumes "tq_inv t" "tid \<notin> dom (tq_map t)" "tid \<noteq> thread_none" "tq_len t < length (tq_items t)"
    and new_def: "new = \<lparr>to_id = tid, to_deadline = dl\<rparr>"
  obtains i items where "scan (to_before new) (tq_items t) (tq_len t) 0 = Some i"
    "shift_up (tq_items t) i (tq_len t) = Some items" "i < length items"
    "tq_inv (t\<lparr>tq_items := items[i := new], tq_len := tq_len t + 1\<rparr>)"
    "tq_list (t\<lparr>tq_items := items[i := new], tq_len := tq_len t + 1\<rparr>) =
       take i (tq_list t) @ new # drop i (tq_list t)"
    "length items = length (tq_items t)"
proof -
  let ?n = "tq_len t" and ?xs = "tq_list t"
  define i where "i = (case position (to_before new) ?xs of None \<Rightarrow> ?n | Some j \<Rightarrow> j)"
  have n: "?n \<le> length (tq_items t)" using assms by (simp add: tq_inv_def)
  have i: "i \<le> ?n" "\<forall>j<i. \<not> to_before new (?xs ! j)" "i < ?n \<longrightarrow> to_before new (?xs ! i)"
    using assms(1) by (auto simp: i_def position_None position_Some split: option.splits)
  let ?items = "take i (tq_items t) @ tq_items t ! i # drop i ?xs @ drop (Suc ?n) (tq_items t)"
  let ?t = "t\<lparr>tq_items := ?items[i := new], tq_len := ?n + 1\<rparr>"
  have sc: "scan (to_before new) (tq_items t) ?n 0 = Some i"
    using n by (simp add: scan_0 i_def tq_list_def)
  have sh: "shift_up (tq_items t) i ?n = Some ?items"
    using shift_up_list [OF i(1) assms(4)] by (simp add: tq_list_def)
  have len: "length ?items = length (tq_items t)" "i < length ?items"
    using i assms(1,4) by simp_all
  have l: "tq_list ?t = take i ?xs @ new # drop i ?xs"
    using i n assms(4) by (simp add: tq_list_def list_update_append Suc_diff_le)
  have ids: "\<forall>x\<in>set ?xs. to_id x \<noteq> tid" using assms(2) by (auto simp: dom_tq_map)
  have before: "to_before x new" if x: "x \<in> set (take i ?xs)" for x
  proof -
    from x obtain j where "j < i" "x = ?xs ! j"
      using assms(1) i(1) by (auto simp: in_set_conv_nth)
    then have "\<not> to_before new x" using i(2) by blast
    moreover have "to_id new \<noteq> to_id x" using ids in_set_takeD [OF x] by (auto simp: new_def)
    ultimately show ?thesis by (intro to_before_total)
  qed
  have after: "to_before new x" if "x \<in> set (drop i ?xs)" for x
  proof -
    from that have "i < ?n" using assms(1) by (cases "i < ?n") auto
    then have "drop i ?xs = ?xs ! i # drop (Suc i) ?xs"
      using assms(1) by (simp add: Cons_nth_drop_Suc)
    moreover have "sorted_wrt to_before (drop i ?xs)"
      using assms(1) by (simp add: tq_inv_def sorted_wrt_drop)
    ultimately show ?thesis
      using that i(3) \<open>i < ?n\<close> by (auto intro: to_before_trans)
  qed
  have "sorted_wrt to_before (take i ?xs @ drop i ?xs)"
    using assms(1) by (simp add: tq_inv_def)
  then have "sorted_wrt to_before (take i ?xs @ new # drop i ?xs)"
    using before after
    by (auto simp: sorted_wrt_append sorted_wrt_take sorted_wrt_drop intro: to_before_trans)
  moreover have "distinct (map to_id (take i ?xs) @ map to_id (drop i ?xs))"
    using assms(1) by (metis append_take_drop_id map_append tq_inv_def)
  then have "distinct (map to_id (take i ?xs @ new # drop i ?xs))"
    using ids by (auto simp: new_def dest: in_set_takeD in_set_dropD)
  ultimately have "tq_inv ?t"
    unfolding tq_inv_def l using assms(1,3,4) len
    by (auto simp: tq_inv_def new_def dest: in_set_takeD in_set_dropD)
  with that sc sh len l show ?thesis by blast
qed

lemma tq_map_place:
  assumes "tq_list t' = take i (tq_list t) @ \<lparr>to_id = tid, to_deadline = dl\<rparr> # drop i (tq_list t)"
    and "tid \<notin> dom (tq_map t)"
  shows "tq_map t' = (tq_map t)(tid \<mapsto> dl)"
proof
  fix x
  let ?f = "\<lambda>x. (to_id x, to_deadline x)"
  have split: "tq_map t = map_of (map ?f (drop i (tq_list t))) ++ map_of (map ?f (take i (tq_list t)))"
    unfolding tq_map_def by (metis append_take_drop_id map_append map_of_append)
  have "map_of (map ?f (take i (tq_list t))) tid = None"
    using assms(2) split by (simp add: domIff map_add_None)
  then show "tq_map t' x = ((tq_map t)(tid \<mapsto> dl)) x"
    using split by (auto simp: tq_map_def assms(1) map_add_def split: option.splits)
qed

lemma tq_insert_full:
  assumes "tq_inv t" "tid \<notin> dom (tq_map t)" "tq_len t = length (tq_items t)"
  shows "tq_insert t tid dl = None"
proof -
  obtain t' where t': "tq_remove t tid = Some (tid \<in> dom (tq_map t), t')"
    "tq_list t' = filter (\<lambda>x. to_id x \<noteq> tid) (tq_list t)" "tq_inv t'"
    "length (tq_items t') = length (tq_items t)"
    using tq_remove_filter [OF assms(1)] by blast
  have "tq_list t' = tq_list t" using t'(2) assms(2) by (auto simp: dom_tq_map filter_id_conv)
  then have "tq_len t' = tq_len t" using t'(3) assms(1) by (metis length_tq_list)
  with t' assms show ?thesis by (simp add: tq_insert_def)
qed

lemma tq_insert_Some:
  assumes "tq_inv t" "tid \<noteq> thread_none" "tid \<in> dom (tq_map t) \<or> tq_len t < length (tq_items t)"
  obtains t' where "tq_insert t tid dl = Some t'" "tq_inv t'" "tq_map t' = (tq_map t)(tid \<mapsto> dl)"
    "length (tq_items t') = length (tq_items t)"
proof -
  obtain u where u: "tq_remove t tid = Some (tid \<in> dom (tq_map t), u)" "tq_inv u"
    "tq_list u = filter (\<lambda>x. to_id x \<noteq> tid) (tq_list t)"
    "length (tq_items u) = length (tq_items t)"
    using tq_remove_filter [OF assms(1)] by blast
  have m: "tq_map u = (tq_map t)(tid := None)" by (rule tq_map_filter [OF u(3)])
  have "tq_len u < length (tq_items u)"
  proof (cases "tid \<in> dom (tq_map t)")
    case True
    then obtain x where "x \<in> set (tq_list t)" "to_id x = tid" by (auto simp: dom_tq_map)
    then have "length (tq_list u) < length (tq_list t)"
      unfolding u(3) by (intro length_filter_less [of x]) auto
    then have "tq_len u < tq_len t" using assms(1) u(2) by simp
    with assms(1) u(4) show ?thesis by (simp add: tq_inv_def)
  next
    case False
    have "length (tq_list u) \<le> length (tq_list t)" unfolding u(3) by (rule length_filter_le)
    then have "tq_len u \<le> tq_len t" using assms(1) u(2) by simp
    with False assms(3) u(4) show ?thesis by simp
  qed
  moreover have "tid \<notin> dom (tq_map u)" by (simp add: m)
  ultimately obtain i items where p:
    "scan (to_before \<lparr>to_id = tid, to_deadline = dl\<rparr>) (tq_items u) (tq_len u) 0 = Some i"
    "shift_up (tq_items u) i (tq_len u) = Some items" "i < length items"
    "tq_inv (u\<lparr>tq_items := items[i := \<lparr>to_id = tid, to_deadline = dl\<rparr>], tq_len := tq_len u + 1\<rparr>)"
    "tq_list (u\<lparr>tq_items := items[i := \<lparr>to_id = tid, to_deadline = dl\<rparr>], tq_len := tq_len u + 1\<rparr>) =
       take i (tq_list u) @ \<lparr>to_id = tid, to_deadline = dl\<rparr> # drop i (tq_list u)"
    "length items = length (tq_items u)"
    using tq_place [OF u(2) _ assms(2) _ refl] by metis
  with u \<open>tq_len u < length (tq_items u)\<close> assms(2) have
    "tq_insert t tid dl = Some (u\<lparr>tq_items := items[i := \<lparr>to_id = tid, to_deadline = dl\<rparr>],
       tq_len := tq_len u + 1\<rparr>)"
    by (simp add: tq_insert_def)
  moreover note p(4)
  moreover have "tq_map (u\<lparr>tq_items := items[i := \<lparr>to_id = tid, to_deadline = dl\<rparr>],
      tq_len := tq_len u + 1\<rparr>) = (tq_map t)(tid \<mapsto> dl)"
    using tq_map_place [OF p(5) \<open>tid \<notin> dom (tq_map u)\<close>] by (simp add: m)
  ultimately show ?thesis using that p(6) u(4) by simp
qed

text \<open>Popping takes the head of the list when it is due.\<close>

lemma tq_pop_expired_none:
  assumes "tq_inv t" "tq_list t = [] \<or> now < to_deadline (hd (tq_list t))"
  shows "tq_pop_expired t now = Some (None, t)"
proof (cases "tq_len t = 0")
  case True
  then show ?thesis by (simp add: tq_pop_expired_def)
next
  case False
  then have ne: "tq_list t \<noteq> []" using assms(1) by (metis length_tq_list list.size(3))
  then have "hd (tq_list t) = tq_items t ! 0" "0 < length (tq_items t)"
    by (auto simp: tq_list_def hd_conv_nth)
  with False assms ne show ?thesis by (simp add: tq_pop_expired_def)
qed

lemma tq_pop_expired_due:
  assumes "tq_inv t" "tq_list t = x # xs" "to_deadline x \<le> now"
  obtains t' where "tq_pop_expired t now = Some (Some (to_id x), t')" "tq_inv t'" "tq_list t' = xs"
    "length (tq_items t') = length (tq_items t)"
proof -
  have n: "tq_len t \<noteq> 0" using assms(1,2) by (metis length_tq_list list.distinct(1) length_0_conv)
  then have x: "tq_items t ! 0 = x" "0 < length (tq_items t)"
    using assms(2) by (cases "tq_items t"; cases "tq_len t"; simp add: tq_list_def)+
  obtain t' where t': "tq_remove t (to_id x) = Some (to_id x \<in> dom (tq_map t), t')" "tq_inv t'"
    "tq_list t' = filter (\<lambda>y. to_id y \<noteq> to_id x) (tq_list t)"
    "length (tq_items t') = length (tq_items t)"
    using tq_remove_filter [OF assms(1)] by blast
  have "tq_list t' = xs"
    using t'(3) assms(1,2) by (auto simp: tq_inv_def filter_id_conv) (metis imageI)
  moreover have "tq_pop_expired t now = Some (Some (to_id x), t')"
    using t'(1) x n assms(3) by (simp add: tq_pop_expired_def)
  ultimately show ?thesis using that t'(2,4) by blast
qed

lemma tq_due_takeWhile:
  assumes "tq_inv t"
  shows "set (takeWhile (\<lambda>x. to_deadline x \<le> now) (tq_list t)) = {x \<in> set (tq_list t). to_deadline x \<le> now}"
proof -
  have "sorted_wrt to_before xs \<Longrightarrow>
      set (takeWhile (\<lambda>x. to_deadline x \<le> now) xs) = {x \<in> set xs. to_deadline x \<le> now}" for xs
    by (induction xs) (auto intro: order_trans [OF to_before_deadline])
  then show ?thesis using assms by (simp add: tq_inv_def)
qed

section \<open>Waking what is due\<close>

definition tq_due :: "timeout_queue \<Rightarrow> instant \<Rightarrow> thread_id list" where
  "tq_due t now = map to_id (takeWhile (\<lambda>x. to_deadline x \<le> now) (tq_list t))"

lemma rq_push_back_list:
  assumes "rq_inv q" "tid \<noteq> thread_none" "tid \<in> set (rq_list q) \<or> rq_len q < rq_capacity q"
  obtains q' where "rq_push_back q tid = Some q'" "rq_inv q'" "rq_capacity q' = rq_capacity q"
    "rq_list q' = rq_list q @ filter (\<lambda>x. x \<notin> set (rq_list q)) [tid]"
proof (cases "tid \<in> set (rq_list q)")
  case True
  with assms show ?thesis using that rq_push_back_dup by simp
next
  case False
  with assms obtain q' where "rq_push_back q tid = Some q'" "rq_inv q'"
    "rq_list q' = rq_list q @ [tid]" "rq_capacity q' = rq_capacity q"
    by (auto elim: rq_push_back_new)
  with False show ?thesis using that by simp
qed

lemma wake_expired_list:
  assumes "tq_inv t" "rq_inv q"
    and "length (rq_list q) + length (filter (\<lambda>x. x \<notin> set (rq_list q)) (tq_due t now)) \<le> rq_capacity q"
  shows "\<exists>t' q'. wake_expired t q now on_wake s n =
      Some (n + length (tq_due t now), t', q', fold on_wake (tq_due t now) s) \<and>
    tq_inv t' \<and> rq_inv q' \<and> rq_capacity q' = rq_capacity q \<and>
    tq_list t' = dropWhile (\<lambda>x. to_deadline x \<le> now) (tq_list t) \<and>
    rq_list q' = rq_list q @ filter (\<lambda>x. x \<notin> set (rq_list q)) (tq_due t now)"
  using assms
proof (induction "tq_list t" arbitrary: t q s n)
  case Nil
  then have "tq_pop_expired t now = Some (None, t)" by (simp add: tq_pop_expired_none)
  with Nil show ?case by (subst wake_expired.simps) (simp add: tq_due_def)
next
  case (Cons x xs)
  show ?case
  proof (cases "to_deadline x \<le> now")
    case False
    then have "tq_pop_expired t now = Some (None, t)"
      using Cons by (intro tq_pop_expired_none) (auto simp flip: Cons.hyps(2))
    with Cons.prems False show ?thesis
      by (subst wake_expired.simps) (simp add: tq_due_def flip: Cons.hyps(2))
  next
    case True
    let ?i = "to_id x"
    obtain t' where t': "tq_pop_expired t now = Some (Some ?i, t')" "tq_inv t'" "tq_list t' = xs"
      using tq_pop_expired_due [OF Cons.prems(1) Cons.hyps(2) [symmetric] True] by blast
    have due: "tq_due t now = ?i # tq_due t' now"
      using True t'(3) by (simp add: tq_due_def flip: Cons.hyps(2))
    have "?i \<noteq> thread_none" "?i \<notin> set (tq_due t' now)"
      using Cons.prems(1) t'(3) set_takeWhileD
      by (fastforce simp: tq_inv_def tq_due_def simp flip: Cons.hyps(2))+
    moreover have "?i \<in> set (rq_list q) \<or> rq_len q < rq_capacity q"
      using Cons.prems(3) due by (cases "?i \<in> set (rq_list q)") auto
    ultimately obtain q' where q': "rq_push_back q ?i = Some q'" "rq_inv q'"
      "rq_capacity q' = rq_capacity q"
      "rq_list q' = rq_list q @ filter (\<lambda>x. x \<notin> set (rq_list q)) [?i]"
      using rq_push_back_list Cons.prems(2) by metis
    have f: "filter (\<lambda>x. x \<notin> set (rq_list q')) (tq_due t' now) =
        filter (\<lambda>x. x \<notin> set (rq_list q)) (tq_due t' now)"
      using q'(4) \<open>?i \<notin> set (tq_due t' now)\<close> by (intro filter_cong) auto
    have "length (rq_list q') + length (filter (\<lambda>x. x \<notin> set (rq_list q')) (tq_due t' now))
        \<le> rq_capacity q'"
      using Cons.prems(3) due q'(3,4) unfolding f by (simp split: if_splits)
    from Cons.hyps(1) [OF t'(3) [symmetric] t'(2) q'(2) this, of "on_wake ?i s" "n + 1"]
    obtain u p where u: "wake_expired t' q' now on_wake (on_wake ?i s) (n + 1) =
        Some (n + 1 + length (tq_due t' now), u, p, fold on_wake (tq_due t' now) (on_wake ?i s))"
      "tq_inv u" "rq_inv p" "rq_capacity p = rq_capacity q'"
      "tq_list u = dropWhile (\<lambda>x. to_deadline x \<le> now) (tq_list t')"
      "rq_list p = rq_list q' @ filter (\<lambda>x. x \<notin> set (rq_list q')) (tq_due t' now)"
      by blast
    have "wake_expired t q now on_wake s n =
        Some (n + length (tq_due t now), u, p, fold on_wake (tq_due t now) s)"
      using t'(1) q'(1) u(1) due by (subst wake_expired.simps) simp
    moreover have "rq_list p = rq_list q @ filter (\<lambda>x. x \<notin> set (rq_list q)) (tq_due t now)"
      using u(6) q'(4) f due by simp
    ultimately show ?thesis
      using u q'(3) True t'(3) by (simp flip: Cons.hyps(2))
  qed
qed

section \<open>The overdue sweep reports the smallest ids in order\<close>

lemma so_step_skip: "\<not> (keep tid \<and> is_overdue st now) \<Longrightarrow> so_step keep now (tid, st) (n, out) = Some (n, out)"
  by (auto simp: so_step_def)

lemma so_step_insort:
  assumes "keep tid" "is_overdue st now" "n \<le> length out" "sorted (take n out)"
  obtains out' where "so_step keep now (tid, st) (n, out) = Some (min (length out) (Suc n), out')"
    "length out' = length out"
    "take (min (length out) (Suc n)) out' = take (length out) (insort tid (take n out))"
proof -
  let ?L = "length out" and ?ys = "take n out"
  define pos where "pos = (case position (\<lambda>o'. o' > tid) ?ys of None \<Rightarrow> n | Some p \<Rightarrow> p)"
  define n' where "n' = min ?L (Suc n)"
  have pw: "pos = length (takeWhile (\<lambda>y. y \<le> tid) ?ys)"
    using position_takeWhile [of ?ys "\<lambda>o'. o' > tid"] assms(3)
    by (simp add: pos_def not_less split: option.splits)
  then have pos: "pos \<le> n" using length_takeWhile_le [of "\<lambda>y. y \<le> tid" ?ys] by simp
  have ins: "insort tid ?ys = take pos out @ tid # drop pos ?ys"
  proof -
    have "takeWhile (\<lambda>y. y \<le> tid) ?ys = take pos ?ys"
      unfolding pw by (rule takeWhile_eq_take)
    moreover have "dropWhile (\<lambda>y. y \<le> tid) ?ys = drop pos ?ys"
      unfolding pw by (rule dropWhile_eq_drop)
    ultimately show ?thesis
      using insort_takeWhile [OF assms(4), of tid] pos by (simp add: min_def)
  qed
  show ?thesis
  proof (cases "n \<ge> ?L \<and> pos = n")
    case True
    then have "so_step keep now (tid, st) (n, out) = Some (n, out)"
      unfolding so_step_def prod.case Let_def pos_def [symmetric] using assms by simp
    moreover have "take ?L (insort tid ?ys) = ?ys"
      unfolding ins using True assms(3) by simp
    ultimately show ?thesis using that [of out] True assms(3) by (simp add: min_def)
  next
    case False
    then have n': "n' = (if n < ?L then n + 1 else n)" "pos \<le> n' - 1" "0 < n'" "n' - 1 < ?L"
      using assms(3) pos by (auto simp: n'_def)
    let ?sh = "take pos out @ out ! pos # drop pos (take (n' - 1) out) @ drop (Suc (n' - 1)) out"
    have sh: "shift_up out pos (n' - 1) = Some ?sh"
      using shift_up_list [OF n'(2,4)] .
    have len: "length ?sh = ?L" "pos < length ?sh" using n' by simp_all
    have up: "?sh[pos := tid] =
        take pos out @ tid # drop pos (take (n' - 1) out) @ drop (Suc (n' - 1)) out"
      using n' by (simp add: list_update_append)
    have "so_step keep now (tid, st) (n, out) = Some (n', ?sh[pos := tid])"
      using False assms(1,2) sh len n' by (auto simp: so_step_def pos_def [symmetric] Let_def)
    moreover have "length (?sh[pos := tid]) = ?L" using len(1) by simp
    moreover have "take n' (?sh[pos := tid]) = take ?L (insort tid ?ys)"
    proof -
      have "take n' (?sh[pos := tid]) = take pos out @ tid # drop pos (take (n' - 1) out)"
        unfolding up using n'(2-4) by (cases n') (simp_all add: Suc_diff_le)
      also have "\<dots> = take ?L (insort tid ?ys)"
      proof (cases "n < ?L")
        case True
        with n' pos show ?thesis unfolding ins by simp
      next
        case False
        with n'(1) assms(3) have "n' = ?L" "n = ?L" by simp_all
        moreover have "pos < n" using n'(2,3) calculation by linarith
        ultimately show ?thesis unfolding ins by (simp add: take_Cons' drop_take)
      qed
      finally show ?thesis .
    qed
    ultimately show ?thesis unfolding n'_def by (rule that)
  qed
qed

definition overdue_ids :: "(thread_id \<times> thread_state) list \<Rightarrow> instant \<Rightarrow> (thread_id \<Rightarrow> bool) \<Rightarrow> thread_id list" where
  "overdue_ids threads now keep = map fst (filter (\<lambda>(tid, st). keep tid \<and> is_overdue st now) threads)"

lemma smallest_overdue_fold:
  assumes "sorted ys" "n = min (length out) (length ys)" "take n out = take (length out) ys"
  shows "\<exists>out'. smallest_overdue threads now keep (n, out) =
      Some (min (length out) (length ys + length (overdue_ids threads now keep)), out') \<and>
    length out' = length out \<and>
    take (min (length out) (length ys + length (overdue_ids threads now keep))) out' =
      take (length out) (fold insort (overdue_ids threads now keep) ys)"
  using assms
proof (induction threads arbitrary: ys n out)
  case Nil
  then show ?case by (simp add: overdue_ids_def)
next
  case (Cons t threads)
  obtain tid st where t: "t = (tid, st)" by fastforce
  show ?case
  proof (cases "keep tid \<and> is_overdue st now")
    case False
    then have "overdue_ids (t # threads) now keep = overdue_ids threads now keep"
      by (simp add: overdue_ids_def t)
    moreover have "so_step keep now t (n, out) = Some (n, out)"
      using False by (simp add: t so_step_skip)
    ultimately show ?thesis using Cons by simp
  next
    case True
    then have ids: "overdue_ids (t # threads) now keep = tid # overdue_ids threads now keep"
      by (simp add: overdue_ids_def t)
    have "sorted (take n out)" using Cons.prems by (simp add: sorted_wrt_take)
    then obtain out' where s: "so_step keep now t (n, out) = Some (min (length out) (Suc n), out')"
      "length out' = length out"
      "take (min (length out) (Suc n)) out' = take (length out) (insort tid (take n out))"
      using so_step_insort [of keep tid st now n out] True Cons.prems(2) t by auto
    let ?ys = "insort tid ys"
    have "take (min (length out) (Suc n)) out' = take (length out') ?ys"
      using s(2,3) Cons.prems by (simp add: take_insort)
    moreover have "min (length out) (Suc n) = min (length out') (length ?ys)"
      using s(2) Cons.prems(2) by (simp add: min_def)
    moreover have "sorted ?ys" using Cons.prems(1) by (simp add: sorted_insort)
    ultimately obtain out'' where "smallest_overdue threads now keep (min (length out) (Suc n), out') =
        Some (min (length out') (length ?ys + length (overdue_ids threads now keep)), out'')"
      "length out'' = length out'"
      "take (min (length out') (length ?ys + length (overdue_ids threads now keep))) out'' =
        take (length out') (fold insort (overdue_ids threads now keep) ?ys)"
      using Cons.IH by blast
    with s(1,2) ids show ?thesis by simp
  qed
qed

lemma fold_insort_sort: "fold insort xs [] = sort (xs :: 'a::linorder list)"
proof -
  have "sorted ys \<Longrightarrow> sorted (fold insort xs ys) \<and> mset (fold insort xs ys) = mset xs + mset ys" for ys
    by (induction xs arbitrary: ys) (simp_all add: sorted_insort)
  from this [of "[]"] show ?thesis by (intro properties_for_sort [symmetric]) auto
qed

lemma smallest_overdue_sort:
  obtains out' where "smallest_overdue threads now keep (0, out) =
      Some (min (length out) (length (overdue_ids threads now keep)), out')"
    "length out' = length out"
    "take (min (length out) (length (overdue_ids threads now keep))) out' =
      take (length out) (sort (overdue_ids threads now keep))"
  using smallest_overdue_fold [of "[]" 0 out threads now keep] by (auto simp: fold_insort_sort)

end
