(* ===== verification/Sched_Props.thy ===== *)
theory Sched_Props
  imports Sched_Queues
begin

text \<open>
  The properties of the scheduler's queues (\<^verbatim>\<open>crates/core/src/sched/mod.rs\<close>): what the run queue, the
  timeout list and the sweep for overdue threads promise, each with a witness on a concrete
  queue where it has hypotheses.
\<close>

text \<open>
  C37: Pushing an id onto a run queue in its invariant panics exactly for the sentinel id
  and for an id the queue does not hold when it is full; otherwise the id is appended
  unless it is already queued, and the invariant and the capacity are kept.
\<close>

theorem rq_push_back_correct:
  assumes "rq_inv q"
  shows "case rq_push_back q tid of
      None \<Rightarrow> tid = thread_none \<or> tid \<notin> set (rq_list q) \<and> rq_len q = rq_capacity q
    | Some q' \<Rightarrow> tid \<noteq> thread_none \<and> (tid \<in> set (rq_list q) \<or> rq_len q < rq_capacity q) \<and>
        rq_inv q' \<and> rq_capacity q' = rq_capacity q \<and>
        rq_list q' = (if tid \<in> set (rq_list q) then rq_list q else rq_list q @ [tid])"
proof -
  have le: "rq_len q \<le> rq_capacity q" using assms by (simp add: rq_inv_def rq_capacity_def)
  show ?thesis
  proof (cases "tid = thread_none")
    case True
    then show ?thesis by (simp add: rq_push_back_NONE)
  next
    case False
    show ?thesis
    proof (cases "tid \<in> set (rq_list q) \<or> rq_len q < rq_capacity q")
      case True
      then obtain q' where "rq_push_back q tid = Some q'" "rq_inv q'" "rq_capacity q' = rq_capacity q"
        "rq_list q' = rq_list q @ filter (\<lambda>x. x \<notin> set (rq_list q)) [tid]"
        using rq_push_back_list [OF assms False] by metis
      with True False show ?thesis by simp
    next
      case no_room: False
      with le assms show ?thesis by (simp add: rq_push_back_full)
    qed
  qed
qed

theorem rq_push_back_correct_witness:
  "let q = \<lparr>rq_ids = 0, rq_cap = 2, rq_head = 1, rq_len = 1, rq_buf = [thread_none, 7]\<rparr> in
   rq_inv q \<and> rq_list q = [7] \<and>
   (case rq_push_back q 5 of None \<Rightarrow> False | Some q' \<Rightarrow> rq_list q' = [7, 5])"
proof -
  let ?q = "\<lparr>rq_ids = 0, rq_cap = 2, rq_head = 1, rq_len = 1, rq_buf = [thread_none, 7]\<rparr>"
  have i: "rq_inv ?q" "rq_list ?q = [7]" by (simp_all add: rq_inv_def rq_list_def ring_list_def thread_none_def)
  show ?thesis
    using rq_push_back_correct [OF i(1), of 5] i
    by (auto simp: rq_capacity_def thread_none_def split: option.splits)
qed

text \<open>
  C32: The run queue is first in, first out: from a queue in its invariant, pushing distinct
  new ids that fit succeeds, and popping then returns the ids that were queued followed by
  the pushed ones, in the order they were pushed, and leaves the queue empty.
\<close>

theorem rq_fifo_order:
  assumes "rq_inv q" "distinct (rq_list q @ xs)" "thread_none \<notin> set xs"
    "rq_len q + length xs \<le> rq_capacity q"
  shows "\<exists>q' q''. push_all rq_push_back q xs = Some q' \<and> rq_list q' = rq_list q @ xs \<and>
    pop_n rq_pop_front (rq_len q + length xs) q' = Some (rq_list q @ xs, q'') \<and> rq_list q'' = []"
proof -
  have push: "\<exists>p. push_all rq_push_back q ys = Some p \<and> rq_inv p \<and>
      rq_list p = rq_list q @ ys \<and> rq_capacity p = rq_capacity q"
    if "rq_inv q" "distinct (rq_list q @ ys)" "thread_none \<notin> set ys" "rq_len q + length ys \<le> rq_capacity q"
    for q ys
    using that
  proof (induction ys arbitrary: q)
    case Nil
    then show ?case by simp
  next
    case (Cons y ys)
    then obtain p where p: "rq_push_back q y = Some p" "rq_inv p" "rq_list p = rq_list q @ [y]"
      "rq_capacity p = rq_capacity q" "rq_len p = Suc (rq_len q)"
      by (auto elim: rq_push_back_new)
    with Cons.IH [of p] Cons.prems show ?case by auto
  qed
  then obtain q' where q': "push_all rq_push_back q xs = Some q'" "rq_inv q'" "rq_list q' = rq_list q @ xs"
    using assms by blast
  then show ?thesis using rq.pop_n_prefix [OF q'(2), of "rq_len q + length xs"] by auto
qed

theorem rq_fifo_order_witness:
  "\<exists>q' q''. push_all rq_push_back
      \<lparr>rq_ids = 0, rq_cap = 3, rq_head = 2, rq_len = 1, rq_buf = [thread_none, thread_none, 9]\<rparr>
      [4, 6] = Some q' \<and> pop_n rq_pop_front 3 q' = Some ([9, 4, 6], q'')"
proof -
  let ?q = "\<lparr>rq_ids = 0, rq_cap = 3, rq_head = 2, rq_len = 1, rq_buf = [thread_none, thread_none, 9]\<rparr>"
  have l: "rq_list ?q = [9]" by (simp add: rq_list_def ring_list_def)
  then have "rq_inv ?q" by (simp add: rq_inv_def thread_none_def)
  moreover have "rq_len ?q + length [4, 6 :: thread_id] = 3" by simp
  ultimately show ?thesis using rq_fifo_order [of ?q "[4, 6]"] unfolding l
    by (simp add: rq_capacity_def thread_none_def numeral_3_eq_3 del: push_all.simps pop_n.simps) blast
qed

text \<open>
  C36: Removing an id from the run queue reports whether it was queued, takes it out
  without disturbing the order of the others, and never panics in the invariant.
\<close>

theorem rq_remove_correct:
  assumes "rq_inv q"
  shows "\<exists>q'. rq_remove q tid = Some (tid \<in> set (rq_list q), q') \<and> rq_inv q' \<and>
    rq_list q' = remove1 tid (rq_list q) \<and> rq_capacity q' = rq_capacity q"
proof (cases "tid \<in> set (rq_list q)")
  case True
  then show ?thesis using rq_remove_present [OF assms True] by metis
next
  case False
  then show ?thesis using rq_remove_absent [OF assms False] assms by (simp add: remove1_idem)
qed

theorem rq_remove_correct_witness:
  "\<exists>q'. rq_remove \<lparr>rq_ids = 0, rq_cap = 3, rq_head = 2, rq_len = 3, rq_buf = [4, 6, 9]\<rparr> 4 = Some (True, q') \<and>
    rq_list q' = [9, 6]"
proof -
  let ?q = "\<lparr>rq_ids = 0, rq_cap = 3, rq_head = 2, rq_len = 3, rq_buf = [4, 6, 9]\<rparr>"
  have l: "rq_list ?q = [9, 4, 6]" by (simp add: rq_list_def ring_list_def upt_rec)
  then have "rq_inv ?q" by (simp add: rq_inv_def thread_none_def)
  from rq_remove_correct [OF this, of 4] l show ?thesis by auto
qed

text \<open>
  C34: Arming a timeout in a list in its invariant panics exactly for the sentinel id and for
  a new id when the table is full; otherwise the list stays sorted and duplicate-free, and as
  a map from threads to deadlines it is the old one with that thread's deadline replaced.
\<close>

theorem tq_insert_correct:
  assumes "tq_inv t"
  shows "case tq_insert t tid dl of
      None \<Rightarrow> tid = thread_none \<or> tid \<notin> dom (tq_map t) \<and> tq_len t = length (tq_items t)
    | Some t' \<Rightarrow> tid \<noteq> thread_none \<and> (tid \<in> dom (tq_map t) \<or> tq_len t < length (tq_items t)) \<and>
        tq_inv t' \<and> tq_map t' = (tq_map t)(tid \<mapsto> dl)"
proof -
  have le: "tq_len t \<le> length (tq_items t)" using assms by (simp add: tq_inv_def)
  show ?thesis
  proof (cases "tid = thread_none")
    case True
    then show ?thesis by (simp add: tq_insert_def)
  next
    case False
    show ?thesis
    proof (cases "tid \<in> dom (tq_map t) \<or> tq_len t < length (tq_items t)")
      case True
      obtain t' where "tq_insert t tid dl = Some t'" "tq_inv t'" "tq_map t' = (tq_map t)(tid \<mapsto> dl)"
        using tq_insert_Some [OF assms False True] by blast
      with True False show ?thesis by simp
    next
      case no_room: False
      with le have "tq_insert t tid dl = None" by (intro tq_insert_full [OF assms]) auto
      with no_room le show ?thesis by auto
    qed
  qed
qed

theorem tq_insert_correct_witness:
  "let t = \<lparr>tq_items = [\<lparr>to_id = 3, to_deadline = 10\<rparr>, NO_TIMEOUT], tq_len = 1\<rparr> in
   tq_inv t \<and> (case tq_insert t 2 10 of None \<Rightarrow> False | Some t' \<Rightarrow> tq_map t' = [3 \<mapsto> 10, 2 \<mapsto> 10])"
proof -
  let ?t = "\<lparr>tq_items = [\<lparr>to_id = 3, to_deadline = 10\<rparr>, NO_TIMEOUT], tq_len = 1\<rparr>"
  have "tq_inv ?t" "tq_map ?t = [3 \<mapsto> 10]"
    by (simp_all add: tq_inv_def tq_list_def tq_map_def thread_none_def)
  with tq_insert_correct [OF this(1), of 2 10] show ?thesis
    by (auto simp: thread_none_def split: option.splits)
qed

text \<open>
  C33: Waking expired timeouts, given room in the run queue, moves exactly the threads whose
  deadline has passed, in deadline order (ties by id), to the back of the run queue, runs the
  wake hook on each in that order, reports how many, and keeps every other timeout armed.
\<close>

theorem wake_expired_correct:
  assumes "tq_inv t" "rq_inv q"
    and "rq_len q + length (filter (\<lambda>x. x \<notin> set (rq_list q)) (tq_due t now)) \<le> rq_capacity q"
  shows "\<exists>t' q'. wake_expired t q now on_wake s 0 =
      Some (length (tq_due t now), t', q', fold on_wake (tq_due t now) s) \<and>
    tq_inv t' \<and> rq_inv q' \<and>
    set (tq_due t now) = {x. \<exists>d. tq_map t x = Some d \<and> d \<le> now} \<and>
    rq_list q' = rq_list q @ filter (\<lambda>x. x \<notin> set (rq_list q)) (tq_due t now) \<and>
    tq_list t' = filter (\<lambda>x. to_deadline x > now) (tq_list t)"
proof -
  have "{x. \<exists>d. tq_map t x = Some d \<and> d \<le> now} = to_id ` {x \<in> set (tq_list t). to_deadline x \<le> now}"
    using assms(1) by (force simp: tq_map_def tq_inv_def map_of_eq_Some_iff o_def)
  then have due: "set (tq_due t now) = {x. \<exists>d. tq_map t x = Some d \<and> d \<le> now}"
    using tq_due_takeWhile [OF assms(1), of now] by (simp add: tq_due_def)
  have "sorted_wrt to_before xs \<Longrightarrow>
      dropWhile (\<lambda>x. to_deadline x \<le> now) xs = filter (\<lambda>x. to_deadline x > now) xs" for xs
    by (induction xs)
      (auto simp: not_le intro!: filter_True [symmetric] intro: less_le_trans [OF _ to_before_deadline])
  then have "dropWhile (\<lambda>x. to_deadline x \<le> now) (tq_list t) = filter (\<lambda>x. to_deadline x > now) (tq_list t)"
    using assms(1) by (simp add: tq_inv_def)
  then show ?thesis
    using wake_expired_list [OF assms(1,2), of now on_wake s 0] assms(3) due by auto
qed

theorem wake_expired_correct_witness:
  "\<exists>t' q'. wake_expired
      \<lparr>tq_items = [\<lparr>to_id = 3, to_deadline = 10\<rparr>, \<lparr>to_id = 1, to_deadline = 40\<rparr>], tq_len = 2\<rparr>
      \<lparr>rq_ids = 0, rq_cap = 2, rq_head = 0, rq_len = 1, rq_buf = [8, thread_none]\<rparr> 20
      (\<lambda>i s. i # s) [] 0 = Some (1, t', q', [3]) \<and> rq_list q' = [8, 3]"
proof -
  let ?t = "\<lparr>tq_items = [\<lparr>to_id = 3, to_deadline = 10\<rparr>, \<lparr>to_id = 1, to_deadline = 40\<rparr>], tq_len = 2\<rparr>"
  let ?q = "\<lparr>rq_ids = 0, rq_cap = 2, rq_head = 0, rq_len = 1, rq_buf = [8, thread_none]\<rparr>"
  have l: "rq_list ?q = [8]" by (simp add: rq_list_def ring_list_def)
  have d: "tq_due ?t 20 = [3]" by (simp add: tq_due_def tq_list_def)
  have "tq_inv ?t" by (simp add: tq_inv_def tq_list_def to_before_def thread_none_def)
  moreover have "rq_inv ?q" using l by (simp add: rq_inv_def thread_none_def)
  ultimately show ?thesis
    using wake_expired_correct [of ?t ?q 20 "\<lambda>i s. i # s" "[]"] l d by (auto simp: rq_capacity_def)
qed

lemma last_take_nth: "n \<le> length xs \<Longrightarrow> 0 < n \<Longrightarrow> last (take n xs) = xs ! (n - 1)"
  by (cases n) (auto simp: take_Suc_conv_app_nth)

lemma find_overdue_cursor:
  assumes "smallest_overdue threads now (\<lambda>i. i \<ge> from) (0, out) = Some (n1, o1)"
    "(if n1 < length o1
      then do { (m, rest) \<leftarrow> smallest_overdue threads now (\<lambda>i. i < from) (0, drop n1 o1);
                Some (n1 + m, take n1 o1 @ rest) }
      else Some (n1, o1)) = Some (n, o2)" "n \<le> length o2"
  shows "find_overdue threads now from out = Some (n, if n = 0 then from else last (take n o2) + 1, o2)"
  unfolding find_overdue_def assms(1) bind.bind_lunit prod.case assms(2)
  using assms(3) by (auto simp: last_take_nth Let_def)

text \<open>
  C35: One sweep for overdue threads reports the ids that are overdue at or past the cursor in
  increasing order and then those below it in increasing order, as many as the report table
  holds, and leaves the cursor one past the last id reported.
\<close>

theorem find_overdue_correct:
  "\<exists>n nxt out'. find_overdue threads now from out = Some (n, nxt, out') \<and>
    take n out' = take (length out)
      (sort (overdue_ids threads now (\<lambda>i. i \<ge> from)) @ sort (overdue_ids threads now (\<lambda>i. i < from))) \<and>
    n = min (length out) (length (overdue_ids threads now (\<lambda>i. i \<ge> from)) +
      length (overdue_ids threads now (\<lambda>i. i < from))) \<and>
    nxt = (if n = 0 then from else last (take n out') + 1)"
proof -
  define H where "H = sort (overdue_ids threads now (\<lambda>i. i \<ge> from))"
  define L where "L = sort (overdue_ids threads now (\<lambda>i. i < from))"
  have len: "length (overdue_ids threads now (\<lambda>i. i \<ge> from)) = length H"
    "length (overdue_ids threads now (\<lambda>i. i < from)) = length L"
    by (simp_all add: H_def L_def)
  obtain o1 where o1: "smallest_overdue threads now (\<lambda>i. i \<ge> from) (0, out) = Some (min (length out) (length H), o1)"
    "length o1 = length out" "take (min (length out) (length H)) o1 = take (length out) H"
    using smallest_overdue_sort [of threads now "\<lambda>i. i \<ge> from" out thesis] unfolding len H_def [symmetric] by blast
  show ?thesis
  proof (cases "length H < length out")
    case False
    then have m: "min (length out) (length H) = length out" by simp
    have "find_overdue threads now from out =
        Some (length out, if length out = 0 then from else last (take (length out) o1) + 1, o1)"
      by (rule find_overdue_cursor [OF o1(1)]) (use m o1(2) in auto)
    moreover have "take (length out) o1 = take (length out) (H @ L)" using o1(3) False unfolding m by simp
    ultimately show ?thesis using False unfolding len H_def [symmetric] L_def [symmetric] by auto
  next
    case True
    then have m: "min (length out) (length H) = length H" by simp
    define R where "R = drop (length H) o1"
    obtain o2 where o2: "smallest_overdue threads now (\<lambda>i. i < from) (0, R) = Some (min (length R) (length L), o2)"
      "length o2 = length R" "take (min (length R) (length L)) o2 = take (length R) L"
      using smallest_overdue_sort [of threads now "\<lambda>i. i < from" R thesis] unfolding len L_def [symmetric] by blast
    define n where "n = length H + min (length R) (length L)"
    have H: "take (length H) o1 = H" and R: "length R = length out - length H"
      using True o1(2,3) unfolding m by (simp_all add: R_def)
    have f: "find_overdue threads now from out = Some (n, if n = 0 then from else last (take n (H @ o2)) + 1, H @ o2)"
      by (rule find_overdue_cursor [OF o1(1)])
        (use True o1(2) o2(1,2) in \<open>simp_all add: m H R_def [symmetric] n_def\<close>)
    have n: "n = min (length out) (length H + length L)" using True R by (simp add: n_def)
    have t: "take n (H @ o2) = take (length out) (H @ L)" using True o2(3) R by (simp add: n_def)
    show ?thesis unfolding len H_def [symmetric] L_def [symmetric]
      by (intro exI conjI, rule f, rule t, rule n, rule refl)
  qed
qed

end
