(* ===== verification/Linked.thy ===== *)
theory Linked
  imports Prelude
begin

text \<open>
  Doubly linked lists threaded through the elements themselves, as the kernel keeps them in
  two places: the wait queues (\<open>sched::wait\<close>, links in the thread table) and the
  buddy allocator's free lists (\<open>mm::pmm\<close>, links in the free pages). The link fields
  are two functions \<open>nx\<close> and \<open>pv\<close> from an element to its neighbours, so that
  a component instantiates them with a read of its own store. \<open>dll nx pv p xs n\<close> says
  that the elements \<open>xs\<close> are linked in this order, with \<open>p\<close> before the first and
  \<open>n\<close> after the last.
\<close>

definition first :: "'a list \<Rightarrow> 'a \<Rightarrow> 'a" where
  "first xs n = (case xs of [] \<Rightarrow> n | x # _ \<Rightarrow> x)"

definition final :: "'a list \<Rightarrow> 'a \<Rightarrow> 'a" where
  "final xs p = (if xs = [] then p else last xs)"

fun dll :: "('a \<Rightarrow> 'a) \<Rightarrow> ('a \<Rightarrow> 'a) \<Rightarrow> 'a \<Rightarrow> 'a list \<Rightarrow> 'a \<Rightarrow> bool" where
  "dll nx pv p [] n \<longleftrightarrow> True"
| "dll nx pv p (x # xs) n \<longleftrightarrow> pv x = p \<and> nx x = first xs n \<and> dll nx pv x xs n"

text \<open>Following the next links for \<open>k\<close> elements.\<close>

fun walk :: "('a \<Rightarrow> 'a) \<Rightarrow> nat \<Rightarrow> 'a \<Rightarrow> 'a list" where
  "walk nx 0 x = []"
| "walk nx (Suc k) x = x # walk nx k (nx x)"

lemma first_simps [simp]: "first [] n = n" "first (x # xs) n = x"
  by (simp_all add: first_def)

lemma final_simps [simp]: "final [] p = p" "final (x # xs) p = final xs x" "final (xs @ [y]) p = y"
  by (simp_all add: final_def)

lemma first_append [simp]: "first (xs @ ys) n = first xs (first ys n)"
  by (cases xs) simp_all

lemma final_append [simp]: "final (xs @ ys) p = final ys (final xs p)"
  by (simp add: final_def)

lemma first_in: "xs \<noteq> [] \<Longrightarrow> first xs n \<in> set xs"
  by (cases xs) simp_all

lemma final_in: "xs \<noteq> [] \<Longrightarrow> final xs p \<in> set xs"
  by (simp add: final_def)

lemma first_eq_nil: "n \<notin> set xs \<Longrightarrow> first xs n = n \<longleftrightarrow> xs = []"
  by (cases xs) auto

lemma final_eq_nil: "p \<notin> set xs \<Longrightarrow> final xs p = p \<longleftrightarrow> xs = []"
  using final_in [of xs p] by (auto simp: final_def)

lemma dll_append [simp]:
  "dll nx pv p (xs @ ys) n \<longleftrightarrow> dll nx pv p xs (first ys n) \<and> dll nx pv (final xs p) ys n"
  by (induction xs arbitrary: p) auto

lemma dll_cong:
  "dll nx pv p xs n \<Longrightarrow> (\<And>x. x \<in> set xs \<Longrightarrow> nx' x = nx x \<and> pv' x = pv x) \<Longrightarrow> dll nx' pv' p xs n"
  by (induction xs arbitrary: p) auto

lemma walk_dll: "dll nx pv p xs n \<Longrightarrow> walk nx (length xs) (first xs n) = xs"
  by (induction xs arbitrary: p) auto

lemma walk_cong: "(\<And>x. x \<in> set (walk nx k a) \<Longrightarrow> nx' x = nx x) \<Longrightarrow> walk nx' k a = walk nx k a"
  by (induction k arbitrary: a) auto

text \<open>
  Changing one end: the next link of the last element, and the previous link of the first,
  are where a neighbour is spliced in or out.
\<close>

lemma dll_set_next:
  "dll nx pv p xs n \<Longrightarrow> distinct xs \<Longrightarrow> xs \<noteq> [] \<Longrightarrow> dll (nx(final xs p := m)) pv p xs m"
proof (induction xs arbitrary: p)
  case (Cons x xs)
  show ?case
  proof (cases xs)
    case (Cons y ys)
    then have "final xs x \<noteq> x" using final_in [of xs x] Cons.prems by auto
    with Cons.IH [of x] Cons.prems Cons show ?thesis by simp
  qed (use Cons.prems in simp)
qed simp

lemma dll_set_prev:
  "dll nx pv p xs n \<Longrightarrow> distinct xs \<Longrightarrow> xs \<noteq> [] \<Longrightarrow> dll nx (pv(first xs n := q)) q xs n"
  by (cases xs) (auto intro: dll_cong)

text \<open>
  Unlinking the element between \<open>ys\<close> and \<open>zs\<close>, and linking a new one at either end.
  The hypotheses say what the new link functions read at each element.
\<close>

lemma dll_unlink:
  assumes "dll nx pv p (ys @ x # zs) n" "distinct (ys @ x # zs)"
    and nx: "\<And>y. y \<in> set (ys @ zs) \<Longrightarrow> nx' y = (if ys \<noteq> [] \<and> y = final ys p then nx x else nx y)"
    and pv: "\<And>y. y \<in> set (ys @ zs) \<Longrightarrow> pv' y = (if zs \<noteq> [] \<and> y = first zs n then pv x else pv y)"
  shows "dll nx' pv' p (ys @ zs) n"
proof -
  have x: "nx x = first zs n" "pv x = final ys p" using assms(1) by simp_all
  have "dll nx' pv' p ys (first zs n)"
  proof (cases "ys = []")
    case False
    have "dll (nx(final ys p := first zs n)) pv p ys (first zs n)"
      using assms(1,2) False by (intro dll_set_next) auto
    then show ?thesis
      by (rule dll_cong) (use nx pv x assms(2) first_in [of zs n] False in \<open>auto simp: fun_upd_def\<close>)
  qed simp
  moreover have "dll nx' pv' (final ys p) zs n"
  proof (cases "zs = []")
    case False
    have "dll nx (pv(first zs n := final ys p)) (final ys p) zs n"
      using assms(1,2) False by (intro dll_set_prev) auto
    then show ?thesis
      by (rule dll_cong) (use nx pv x assms(2) final_in [of ys p] False in \<open>auto simp: fun_upd_def\<close>)
  qed simp
  ultimately show ?thesis by simp
qed

lemma dll_link_last:
  assumes "dll nx pv p xs n" "distinct xs" "x \<notin> set xs"
    and nx: "\<And>y. y \<in> set xs \<Longrightarrow> nx' y = (if y = final xs p then x else nx y)" "nx' x = n"
    and pv: "\<And>y. y \<in> set xs \<Longrightarrow> pv' y = pv y" "pv' x = final xs p"
  shows "dll nx' pv' p (xs @ [x]) n"
proof (cases "xs = []")
  case True
  then show ?thesis using assms by simp
next
  case False
  have "dll (nx(final xs p := x)) pv p xs x" using assms False by (intro dll_set_next) auto
  then have "dll nx' pv' p xs x" by (rule dll_cong) (use nx pv in \<open>auto simp: fun_upd_def\<close>)
  then show ?thesis using nx pv by simp
qed

lemma dll_link_first:
  assumes "dll nx pv p xs n" "distinct xs" "x \<notin> set xs"
    and nx: "\<And>y. y \<in> set xs \<Longrightarrow> nx' y = nx y" "nx' x = first xs n"
    and pv: "\<And>y. y \<in> set xs \<Longrightarrow> pv' y = (if y = first xs n then x else pv y)" "pv' x = p"
  shows "dll nx' pv' p (x # xs) n"
proof (cases "xs = []")
  case True
  then show ?thesis using assms by simp
next
  case False
  have "dll nx (pv(first xs n := x)) x xs n" using assms False by (intro dll_set_prev) auto
  then have "dll nx' pv' x xs n" by (rule dll_cong) (use nx pv in \<open>auto simp: fun_upd_def\<close>)
  then show ?thesis using nx pv by simp
qed

end
