(* ===== verification/Wait_Queues.thy ===== *)
theory Wait_Queues
  imports Sched_Queues Linked
begin

text \<open>
  The wait queues and the blocking primitives of \<open>crates/core/src/sched/wait.rs\<close>.
  A wait queue is a doubly linked list through the threads' links; the table of links
  (the trait \<open>WaitLinks\<close>, \<open>None\<close> for an id that names no thread) is a map from
  thread ids to links, and a queue is told its own address \<open>me\<close>, which a waiter's link
  records. An operation takes and returns the queue and the table. The second part
  has the moves between a wait queue, the run queue and the timeout list; the third the
  models of the mutex, the reader-writer lock, the semaphore and the bounded channel.
\<close>

section \<open>The intrusive queue\<close>

record wait_link =
  wl_next :: thread_id
  wl_prev :: thread_id
  wl_on :: nat

definition WAIT_LINK_NONE :: wait_link where
  "WAIT_LINK_NONE = \<lparr>wl_next = thread_none, wl_prev = thread_none, wl_on = 0\<rparr>"

definition wl_queued :: "wait_link \<Rightarrow> bool" where
  "wl_queued l \<longleftrightarrow> wl_on l \<noteq> 0"

type_synonym wait_links = "thread_id \<rightharpoonup> wait_link"

record wait_queue =
  wq_head :: thread_id
  wq_tail :: thread_id
  wq_len :: nat

definition wq_new :: wait_queue where
  "wq_new = \<lparr>wq_head = thread_none, wq_tail = thread_none, wq_len = 0\<rparr>"

definition wq_is_empty :: "wait_queue \<Rightarrow> bool" where
  "wq_is_empty w \<longleftrightarrow> wq_len w = 0"

definition wq_contains :: "nat \<Rightarrow> thread_id \<Rightarrow> wait_links \<Rightarrow> bool" where
  "wq_contains me tid links = (case links tid of None \<Rightarrow> False | Some l \<Rightarrow> wl_on l = me)"

definition wq_enqueue :: "nat \<Rightarrow> wait_queue \<times> wait_links \<Rightarrow> thread_id \<Rightarrow> (wait_queue \<times> wait_links) option" where
  "wq_enqueue me = (\<lambda>(w, links) tid. do {
     rassert (tid \<noteq> thread_none);
     let tl = wq_tail w;
     l \<leftarrow> links tid;
     if wl_on l = me then Some (w, links)
     else do {
       rassert (wl_on l = 0);
       let links1 = links(tid \<mapsto> \<lparr>wl_next = thread_none, wl_prev = tl, wl_on = me\<rparr>);
       let (links2, h) = (case links1 tl of
           Some t \<Rightarrow> if tl \<noteq> thread_none then (links1(tl \<mapsto> t\<lparr>wl_next := tid\<rparr>), wq_head w)
             else (links1, tid)
         | None \<Rightarrow> (links1, tid));
       Some (\<lparr>wq_head = h, wq_tail = tid, wq_len = wq_len w + 1\<rparr>, links2) } })"

definition wq_unlink :: "wait_queue \<times> wait_links \<Rightarrow> thread_id \<Rightarrow> (wait_queue \<times> wait_links) option" where
  "wq_unlink = (\<lambda>(w, links) tid. do {
     l \<leftarrow> links tid;
     let nxt = wl_next l;
     let prv = wl_prev l;
     let links1 = links(tid \<mapsto> WAIT_LINK_NONE);
     let (links2, h) = (case links1 prv of
         Some p \<Rightarrow> if prv \<noteq> thread_none then (links1(prv \<mapsto> p\<lparr>wl_next := nxt\<rparr>), wq_head w)
           else (links1, nxt)
       | None \<Rightarrow> (links1, nxt));
     let (links3, t) = (case links2 nxt of
         Some n \<Rightarrow> if nxt \<noteq> thread_none then (links2(nxt \<mapsto> n\<lparr>wl_prev := prv\<rparr>), wq_tail w)
           else (links2, prv)
       | None \<Rightarrow> (links2, prv));
     n \<leftarrow> sub64 (wq_len w) 1;
     Some (\<lparr>wq_head = h, wq_tail = t, wq_len = n\<rparr>, links3) })"

definition wq_dequeue :: "wait_queue \<times> wait_links \<Rightarrow> (thread_id option \<times> (wait_queue \<times> wait_links)) option" where
  "wq_dequeue = (\<lambda>(w, links).
     if wq_head w = thread_none then Some (None, (w, links))
     else do { s \<leftarrow> wq_unlink (w, links) (wq_head w); Some (Some (wq_head w), s) })"

definition wq_remove :: "nat \<Rightarrow> wait_queue \<times> wait_links \<Rightarrow> thread_id \<Rightarrow> (bool \<times> (wait_queue \<times> wait_links)) option" where
  "wq_remove me = (\<lambda>(w, links) tid.
     if tid = thread_none \<or> \<not> wq_contains me tid links then Some (False, (w, links))
     else do { s \<leftarrow> wq_unlink (w, links) tid; Some (True, s) })"

section \<open>Blocking and waking\<close>

text \<open>
  The queues a wait moves a thread between: the wait queue with the link table, the
  run queue and the timeout list.
\<close>

type_synonym wait_sys = "(wait_queue \<times> wait_links) \<times> ready_queue \<times> timeout_queue"

definition begin_wait :: "nat \<Rightarrow> wait_sys \<Rightarrow> thread_id \<Rightarrow> instant \<Rightarrow> wait_sys option" where
  "begin_wait me = (\<lambda>(w, ready, timeouts) tid deadline. do {
     w' \<leftarrow> wq_enqueue me w tid;
     (_, ready') \<leftarrow> rq_remove ready tid;
     timeouts' \<leftarrow> tq_insert timeouts tid deadline;
     Some (w', ready', timeouts') })"

definition take_one ::
  "(wait_queue \<times> wait_links) \<times> timeout_queue \<Rightarrow>
   (thread_id option \<times> (wait_queue \<times> wait_links) \<times> timeout_queue) option" where
  "take_one = (\<lambda>(w, timeouts). do {
     (r, w') \<leftarrow> wq_dequeue w;
     (case r of
        None \<Rightarrow> Some (None, w', timeouts)
      | Some tid \<Rightarrow> do { (_, timeouts') \<leftarrow> tq_remove timeouts tid; Some (Some tid, w', timeouts') }) })"

definition wake_one :: "wait_sys \<Rightarrow> (thread_id option \<times> wait_sys) option" where
  "wake_one = (\<lambda>(w, ready, timeouts). do {
     (r, w', timeouts') \<leftarrow> take_one (w, timeouts);
     (case r of
        None \<Rightarrow> Some (None, (w', ready, timeouts'))
      | Some tid \<Rightarrow> do { ready' \<leftarrow> rq_push_back ready tid; Some (Some tid, (w', ready', timeouts')) }) })"

lemma wq_unlink_shorter: "wq_unlink (w, links) tid = Some (w', links') \<Longrightarrow> wq_len w' < wq_len w"
  by (auto simp: wq_unlink_def sub64_eq_Some Let_def split: bind_splits prod.splits)

lemma wq_dequeue_shorter: "wq_dequeue s = Some (Some tid, s') \<Longrightarrow> wq_len (fst s') < wq_len (fst s)"
  by (cases s; cases s') (auto simp: wq_dequeue_def dest: wq_unlink_shorter split: bind_splits if_splits)

lemma wake_one_shorter:
  "wake_one (w, r, t) = Some (Some tid, (w', r', t')) \<Longrightarrow> wq_len (fst w') < wq_len (fst w)"
  by (auto simp: wake_one_def take_one_def dest: wq_dequeue_shorter split: bind_splits option.splits)

function wake_all :: "wait_sys \<Rightarrow> nat \<Rightarrow> (nat \<times> wait_sys) option" where
  "wake_all s n = (case wake_one s of
     None \<Rightarrow> None
   | Some (None, s') \<Rightarrow> Some (n, s')
   | Some (Some tid, s') \<Rightarrow> wake_all s' (n + 1))"
  by pat_completeness auto
termination
  by (relation "measure (\<lambda>((w, _), _). wq_len (fst w))") (auto dest: wake_one_shorter)

declare wake_all.simps [simp del]

definition deadline_of :: "instant option \<Rightarrow> instant" where
  "deadline_of d = effective_deadline d"

section \<open>Blocking primitives\<close>

record mutex_model =
  mx_held :: bool
  mx_owner :: thread_id
  mx_wq :: wait_queue

definition mutex_new :: mutex_model where
  "mutex_new = \<lparr>mx_held = False, mx_owner = thread_none, mx_wq = wq_new\<rparr>"

definition mutex_try_acquire :: "mutex_model \<Rightarrow> thread_id \<Rightarrow> bool \<times> mutex_model" where
  "mutex_try_acquire m tid =
     (if mx_held m then (False, m) else (True, m\<lparr>mx_held := True, mx_owner := tid\<rparr>))"

definition mutex_release :: "mutex_model \<Rightarrow> mutex_model" where
  "mutex_release m = m\<lparr>mx_held := False, mx_owner := thread_none\<rparr>"

record rwlock_model =
  rw_readers :: nat
  rw_writer :: thread_id
  rw_read_wq :: wait_queue
  rw_write_wq :: wait_queue

definition rwlock_new :: rwlock_model where
  "rwlock_new = \<lparr>rw_readers = 0, rw_writer = thread_none, rw_read_wq = wq_new, rw_write_wq = wq_new\<rparr>"

text \<open>The reader count is a \<open>u32\<close>, whose increment panics on overflow.\<close>

definition try_read :: "rwlock_model \<Rightarrow> (bool \<times> rwlock_model) option" where
  "try_read rw =
     (if rw_writer rw \<noteq> thread_none \<or> \<not> wq_is_empty (rw_write_wq rw) then Some (False, rw)
      else do {
        rassert (rw_readers rw + 1 < 2 ^ 32);
        Some (True, rw\<lparr>rw_readers := rw_readers rw + 1\<rparr>) })"

definition try_write :: "rwlock_model \<Rightarrow> thread_id \<Rightarrow> bool \<times> rwlock_model" where
  "try_write rw tid =
     (if rw_writer rw \<noteq> thread_none \<or> rw_readers rw \<noteq> 0 then (False, rw)
      else (True, rw\<lparr>rw_writer := tid\<rparr>))"

definition drop_read :: "rwlock_model \<Rightarrow> rwlock_model option" where
  "drop_read rw = do {
     rassert (rw_readers rw > 0);
     Some (rw\<lparr>rw_readers := rw_readers rw - 1\<rparr>) }"

definition drop_write :: "rwlock_model \<Rightarrow> rwlock_model" where
  "drop_write rw = rw\<lparr>rw_writer := thread_none\<rparr>"

datatype writer_timeout_wake = WakeNone | NextWriter | Readers

definition after_writer_wait_timeout :: "rwlock_model \<Rightarrow> writer_timeout_wake" where
  "after_writer_wait_timeout rw =
     (case (rw_writer rw = thread_none, wq_is_empty (rw_write_wq rw), rw_readers rw = 0) of
        (True, True, _) \<Rightarrow> Readers
      | (True, False, True) \<Rightarrow> NextWriter
      | (True, False, False) \<Rightarrow> WakeNone
      | (False, _, _) \<Rightarrow> WakeNone)"

record sema_model =
  sm_count :: nat
  sm_wq :: wait_queue

definition sema_new :: "nat \<Rightarrow> sema_model" where
  "sema_new n = \<lparr>sm_count = n, sm_wq = wq_new\<rparr>"

definition sema_try_acquire :: "sema_model \<Rightarrow> bool \<times> sema_model" where
  "sema_try_acquire s = (if sm_count s = 0 then (False, s) else (True, s\<lparr>sm_count := sm_count s - 1\<rparr>))"

definition sema_release :: "sema_model \<Rightarrow> sema_model" where
  "sema_release s = s\<lparr>sm_count := min (2 ^ 64 - 1) (sm_count s + 1)\<rparr>"

text \<open>
  The channel's slots are uninitialised until they are written: a slot is an
  \<open>option\<close>, and reading an uninitialised one, which the source's \<open>assume_init_read\<close>
  must not do, is \<open>None\<close>.
\<close>

record 'a channel_model =
  ch_slots :: "'a option list"
  ch_head :: nat
  ch_len :: nat
  ch_send_wq :: wait_queue
  ch_recv_wq :: wait_queue

definition ch_new :: "nat \<Rightarrow> 'a channel_model option" where
  "ch_new cap = do {
     rassert (cap > 0);
     Some \<lparr>ch_slots = replicate cap None, ch_head = 0, ch_len = 0, ch_send_wq = wq_new, ch_recv_wq = wq_new\<rparr> }"

definition ch_is_full :: "'a channel_model \<Rightarrow> bool" where
  "ch_is_full c \<longleftrightarrow> ch_len c \<ge> length (ch_slots c)"

definition ch_is_empty :: "'a channel_model \<Rightarrow> bool" where
  "ch_is_empty c \<longleftrightarrow> ch_len c = 0"

definition try_send :: "'a channel_model \<Rightarrow> 'a \<Rightarrow> (('a + unit) \<times> 'a channel_model) option" where
  "try_send c v =
     (if ch_len c \<ge> length (ch_slots c) then Some (Inl v, c)
      else do {
        let i = (ch_head c + ch_len c) mod length (ch_slots c);
        slots \<leftarrow> upd (ch_slots c) i (Some v);
        Some (Inr (), c\<lparr>ch_slots := slots, ch_len := ch_len c + 1\<rparr>) })"

definition try_recv :: "'a channel_model \<Rightarrow> ('a option \<times> 'a channel_model) option" where
  "try_recv c =
     (if ch_len c = 0 then Some (None, c)
      else do {
        slot \<leftarrow> idx (ch_slots c) (ch_head c);
        v \<leftarrow> slot;
        Some (Some v, c\<lparr>ch_head := (ch_head c + 1) mod length (ch_slots c), ch_len := ch_len c - 1\<rparr>) })"

lemma try_recv_shorter: "try_recv c = Some (Some v, c') \<Longrightarrow> ch_len c' < ch_len c"
  by (auto simp: try_recv_def split: if_splits bind_splits)

text \<open>Dropping a channel drops the values it holds, in the order they would be received.\<close>

function ch_drop :: "'a channel_model \<Rightarrow> 'a list option" where
  "ch_drop c = (case try_recv c of
     None \<Rightarrow> None
   | Some (None, _) \<Rightarrow> Some []
   | Some (Some v, c') \<Rightarrow> (case ch_drop c' of None \<Rightarrow> None | Some vs \<Rightarrow> Some (v # vs)))"
  by pat_completeness auto
termination
  by (relation "measure ch_len") (auto dest: try_recv_shorter)

declare ch_drop.simps [simp del]

section \<open>The waiters of a queue\<close>

definition wl_nx :: "wait_links \<Rightarrow> thread_id \<Rightarrow> thread_id" where
  "wl_nx links i = (case links i of None \<Rightarrow> thread_none | Some l \<Rightarrow> wl_next l)"

definition wl_pv :: "wait_links \<Rightarrow> thread_id \<Rightarrow> thread_id" where
  "wl_pv links i = (case links i of None \<Rightarrow> thread_none | Some l \<Rightarrow> wl_prev l)"

definition wq_list :: "wait_queue \<times> wait_links \<Rightarrow> thread_id list" where
  "wq_list = (\<lambda>(w, links). walk (wl_nx links) (wq_len w) (wq_head w))"

text \<open>
  The queue at address \<open>me\<close> holds \<open>xs\<close>: the links thread them in order between the
  sentinels, and the links that name the queue are theirs.
\<close>

definition wq_rep :: "nat \<Rightarrow> wait_queue \<times> wait_links \<Rightarrow> thread_id list \<Rightarrow> bool" where
  "wq_rep me = (\<lambda>(w, links) xs.
     me \<noteq> 0 \<and> distinct xs \<and> thread_none \<notin> set xs \<and>
     dll (wl_nx links) (wl_pv links) thread_none xs thread_none \<and>
     wq_head w = first xs thread_none \<and> wq_tail w = final xs thread_none \<and> wq_len w = length xs \<and>
     (\<forall>tid. wq_contains me tid links \<longleftrightarrow> tid \<in> set xs))"

definition wq_inv :: "nat \<Rightarrow> wait_queue \<times> wait_links \<Rightarrow> bool" where
  "wq_inv me s \<longleftrightarrow> wq_rep me s (wq_list s)"

lemma wq_repD:
  assumes "wq_rep me (w, links) xs"
  shows "me \<noteq> 0" "distinct xs" "thread_none \<notin> set xs"
    "dll (wl_nx links) (wl_pv links) thread_none xs thread_none"
    "wq_head w = first xs thread_none" "wq_tail w = final xs thread_none" "wq_len w = length xs"
    "wq_contains me tid links \<longleftrightarrow> tid \<in> set xs"
  using assms unfolding wq_rep_def prod.case by blast+

lemma wq_rep_list: "wq_rep me s xs \<Longrightarrow> wq_list s = xs"
proof (cases s)
  fix w links assume "wq_rep me s xs" "s = (w, links)"
  then show ?thesis using wq_repD [of me w links xs] walk_dll [OF wq_repD(4) [of me w links xs]]
    by (simp add: wq_list_def)
qed

lemma wq_rep_inv: "wq_rep me s xs \<longleftrightarrow> wq_inv me s \<and> wq_list s = xs"
  using wq_rep_list [of me s xs] by (auto simp: wq_inv_def)

lemma wq_new_rep:
  "me \<noteq> 0 \<Longrightarrow> (\<And>tid. \<not> wq_contains me tid links) \<Longrightarrow> wq_rep me (wq_new, links) []"
  by (simp add: wq_rep_def wq_new_def)

text \<open>
  An operation on the queue at \<open>me\<close> writes the links of threads on no queue or on this
  one, and leaves them so; then every other queue is as it was.
\<close>

definition links_touch :: "nat \<Rightarrow> wait_links \<Rightarrow> wait_links \<Rightarrow> bool" where
  "links_touch me links links' \<longleftrightarrow> (\<forall>i. links' i \<noteq> links i \<longrightarrow>
     (\<exists>l l'. links i = Some l \<and> links' i = Some l' \<and> wl_on l \<in> {0, me} \<and> wl_on l' \<in> {0, me}))"

lemma wq_rep_frame:
  assumes "wq_rep me' (v, links) ys" "links_touch me links links'" "me' \<noteq> me"
  shows "wq_rep me' (v, links') ys"
proof -
  have same: "links' i = links i" if "wq_contains me' i links \<or> wq_contains me' i links'" for i
  proof (rule ccontr)
    assume "links' i \<noteq> links i"
    then obtain l l' where "links i = Some l" "links' i = Some l'" "wl_on l \<in> {0, me}" "wl_on l' \<in> {0, me}"
      using assms(2) unfolding links_touch_def by blast
    moreover have "me' \<noteq> 0" using assms(1) by (simp add: wq_rep_def)
    ultimately show False using that assms(3) by (auto simp: wq_contains_def)
  qed
  have c: "wq_contains me' i links' \<longleftrightarrow> wq_contains me' i links" for i
    using same [of i] unfolding wq_contains_def by metis
  have "links' i = links i" if "i \<in> set ys" for i
    using that assms(1) by (intro same) (simp add: wq_rep_def)
  then have "dll (wl_nx links') (wl_pv links') thread_none ys thread_none"
    using assms(1) dll_cong [of "wl_nx links" "wl_pv links" thread_none ys thread_none "wl_nx links'" "wl_pv links'"]
    by (simp add: wq_rep_def wl_nx_def wl_pv_def)
  with assms(1) show ?thesis by (simp add: wq_rep_def c)
qed

lemma wq_rep_linked:
  "wq_rep me (w, links) xs \<Longrightarrow> tid \<in> set xs \<Longrightarrow>
   \<exists>l. links tid = Some l \<and> wl_on l = me \<and> wl_nx links tid = wl_next l \<and> wl_pv links tid = wl_prev l"
  by (fastforce simp: wq_rep_def wq_contains_def wl_nx_def wl_pv_def split: option.splits)

text \<open>What unlinking writes: the neighbours on either side, when there are any.\<close>

lemma wq_unlink_links:
  assumes "wq_rep me (w, links) (ys @ tid # zs)"
  obtains links' where
    "wq_unlink (w, links) tid =
       Some (\<lparr>wq_head = first (ys @ zs) thread_none, wq_tail = final (ys @ zs) thread_none,
              wq_len = length (ys @ zs)\<rparr>, links')"
    "\<And>i. links' i = (if i = tid then Some WAIT_LINK_NONE
       else if ys \<noteq> [] \<and> i = final ys thread_none
         then map_option (\<lambda>l. l\<lparr>wl_next := first zs thread_none\<rparr>) (links i)
       else if zs \<noteq> [] \<and> i = first zs thread_none
         then map_option (\<lambda>l. l\<lparr>wl_prev := final ys thread_none\<rparr>) (links i)
       else links i)"
proof -
  let ?N = thread_none
  note rep = assms[unfolded wq_rep_def prod.case]
  obtain l where l: "links tid = Some l" "wl_next l = first zs ?N" "wl_prev l = final ys ?N"
    using wq_rep_linked [OF assms, of tid] rep by auto
  have py: "\<exists>p. links (final ys ?N) = Some p" "final ys ?N \<noteq> ?N" "final ys ?N \<noteq> tid" if "ys \<noteq> []"
    using wq_rep_linked [OF assms, of "final ys ?N"] final_in [OF that, of ?N] rep by auto
  have nz: "\<exists>p. links (first zs ?N) = Some p" "first zs ?N \<noteq> ?N" "first zs ?N \<noteq> tid" if "zs \<noteq> []"
    using wq_rep_linked [OF assms, of "first zs ?N"] first_in [OF that, of ?N] rep by auto
  have yz: "final ys ?N \<noteq> first zs ?N" if "ys \<noteq> []" "zs \<noteq> []"
    using final_in [OF that(1), of ?N] first_in [OF that(2), of ?N] rep by auto
  have head: "wq_head w = first (ys @ tid # zs) ?N" and tail: "wq_tail w = final (ys @ tid # zs) ?N"
    and len: "wq_len w = length (ys @ tid # zs)"
    using rep by simp_all
  define L1 where "L1 = links(tid \<mapsto> WAIT_LINK_NONE)"
  define L2 where "L2 = (if ys = [] then L1 else L1(final ys ?N \<mapsto> (the (links (final ys ?N)))\<lparr>wl_next := first zs ?N\<rparr>))"
  define L3 where "L3 = (if zs = [] then L2 else L2(first zs ?N \<mapsto> (the (links (first zs ?N)))\<lparr>wl_prev := final ys ?N\<rparr>))"
  have 1: "(case L1 (final ys ?N) of
        Some p \<Rightarrow> if final ys ?N \<noteq> ?N then (L1(final ys ?N \<mapsto> p\<lparr>wl_next := first zs ?N\<rparr>), wq_head w)
          else (L1, first zs ?N)
      | None \<Rightarrow> (L1, first zs ?N)) = (L2, first (ys @ zs) ?N)"
  proof (cases "ys = []")
    case True
    then show ?thesis by (simp add: L2_def split: option.split)
  next
    case False
    obtain p where p: "links (final ys ?N) = Some p" using py(1) [OF False] by blast
    then have "L1 (final ys ?N) = Some p" using py(3) [OF False] by (simp add: L1_def)
    moreover have "wq_head w = first (ys @ zs) ?N" using head False by (cases ys) simp_all
    ultimately show ?thesis using False py(2) [OF False] p by (simp add: L2_def del: first_append)
  qed
  have 2: "(case L2 (first zs ?N) of
        Some n \<Rightarrow> if first zs ?N \<noteq> ?N then (L2(first zs ?N \<mapsto> n\<lparr>wl_prev := final ys ?N\<rparr>), wq_tail w)
          else (L2, final ys ?N)
      | None \<Rightarrow> (L2, final ys ?N)) = (L3, final (ys @ zs) ?N)"
  proof (cases "zs = []")
    case True
    then show ?thesis by (simp add: L3_def split: option.split)
  next
    case False
    obtain p where p: "links (first zs ?N) = Some p" using nz(1) [OF False] by blast
    then have "L2 (first zs ?N) = Some p" using nz(3) [OF False] yz [OF _ False] by (auto simp: L1_def L2_def)
    moreover have "wq_tail w = final (ys @ zs) ?N" using tail False by (cases zs rule: rev_cases) simp_all
    ultimately show ?thesis using False nz(2) [OF False] p by (simp add: L3_def del: final_append)
  qed
  have n: "sub64 (wq_len w) 1 = Some (length (ys @ zs))" using len by simp
  have "wq_unlink (w, links) tid =
      Some (\<lparr>wq_head = first (ys @ zs) ?N, wq_tail = final (ys @ zs) ?N, wq_len = length (ys @ zs)\<rparr>, L3)"
    unfolding wq_unlink_def prod.case l bind.bind_lunit Let_def L1_def [symmetric] 1 2 n by simp
  then show ?thesis
  proof (rule that)
    fix i
    show "L3 i = (if i = tid then Some WAIT_LINK_NONE
       else if ys \<noteq> [] \<and> i = final ys ?N then map_option (\<lambda>l. l\<lparr>wl_next := first zs ?N\<rparr>) (links i)
       else if zs \<noteq> [] \<and> i = first zs ?N then map_option (\<lambda>l. l\<lparr>wl_prev := final ys ?N\<rparr>) (links i)
       else links i)"
      using py nz yz unfolding L3_def L2_def L1_def fun_upd_apply if_distrib [of "\<lambda>f. f i"]
      by (cases "ys = []"; cases "zs = []") auto
  qed
qed

lemma wq_unlink_rep:
  assumes "wq_rep me (w, links) (ys @ tid # zs)"
  obtains w' links' where "wq_unlink (w, links) tid = Some (w', links')"
    "wq_rep me (w', links') (ys @ zs)" "links_touch me links links'"
proof -
  let ?N = thread_none
  obtain links' where u: "wq_unlink (w, links) tid =
       Some (\<lparr>wq_head = first (ys @ zs) ?N, wq_tail = final (ys @ zs) ?N, wq_len = length (ys @ zs)\<rparr>, links')"
    and l': "\<And>i. links' i = (if i = tid then Some WAIT_LINK_NONE
       else if ys \<noteq> [] \<and> i = final ys ?N then map_option (\<lambda>l. l\<lparr>wl_next := first zs ?N\<rparr>) (links i)
       else if zs \<noteq> [] \<and> i = first zs ?N then map_option (\<lambda>l. l\<lparr>wl_prev := final ys ?N\<rparr>) (links i)
       else links i)"
    using wq_unlink_links [OF assms] by blast
  note rep = assms[unfolded wq_rep_def prod.case]
  have t: "wl_nx links tid = first zs ?N" "wl_pv links tid = final ys ?N" using rep by auto
  have on: "links i \<noteq> None" if "i \<in> set (ys @ tid # zs)" for i
    using wq_rep_linked [OF assms that] by auto
  have ends: "final ys ?N \<noteq> first zs ?N" if "ys \<noteq> []" "zs \<noteq> []"
    using final_in [OF that(1), of ?N] first_in [OF that(2), of ?N] rep by auto
  have "dll (wl_nx links') (wl_pv links') ?N (ys @ zs) ?N"
  proof (rule dll_unlink [of "wl_nx links" "wl_pv links" _ _ tid])
    fix y assume y: "y \<in> set (ys @ zs)"
    then have ne: "y \<noteq> tid" and some: "links y \<noteq> None" using rep on by auto
    show "wl_nx links' y = (if ys \<noteq> [] \<and> y = final ys ?N then wl_nx links tid else wl_nx links y)"
      using ne some by (auto simp: wl_nx_def l' t[unfolded wl_nx_def])
    show "wl_pv links' y = (if zs \<noteq> [] \<and> y = first zs ?N then wl_pv links tid else wl_pv links y)"
      using ne some ends by (auto simp: wl_pv_def l' t[unfolded wl_pv_def])
  qed (use rep in auto)
  moreover have "wq_contains me i links' \<longleftrightarrow> i \<in> set (ys @ zs)" for i
  proof (cases "i = tid")
    case True
    then show ?thesis using rep by (auto simp: wq_contains_def l' WAIT_LINK_NONE_def)
  next
    case False
    then have "wq_contains me i links' \<longleftrightarrow> wq_contains me i links"
      by (auto simp: wq_contains_def l' split: option.splits)
    with False rep show ?thesis by auto
  qed
  ultimately have "wq_rep me (\<lparr>wq_head = first (ys @ zs) ?N, wq_tail = final (ys @ zs) ?N,
      wq_len = length (ys @ zs)\<rparr>, links') (ys @ zs)"
    using rep by (simp add: wq_rep_def)
  moreover have "links_touch me links links'"
  proof -
    have "\<exists>l l'. links i = Some l \<and> links' i = Some l' \<and> wl_on l \<in> {0, me} \<and> wl_on l' \<in> {0, me}"
      if "links' i \<noteq> links i" for i
    proof -
      have "i \<in> set (ys @ tid # zs)"
        using that final_in [of ys ?N] first_in [of zs ?N] by (auto simp: l' split: if_splits)
      then obtain l where "links i = Some l" "wl_on l = me" using wq_rep_linked [OF assms] by blast
      then show ?thesis unfolding l' \<open>links i = Some l\<close> option.map by (simp add: WAIT_LINK_NONE_def)
    qed
    then show ?thesis by (simp add: links_touch_def)
  qed
  ultimately show ?thesis using that u by blast
qed

text \<open>What appending writes: the new waiter's link and the old tail's next link.\<close>

lemma wq_enqueue_rep:
  assumes "wq_rep me (w, links) xs" "tid \<noteq> thread_none" "links tid = Some l" "wl_on l = 0"
  obtains w' links' where "wq_enqueue me (w, links) tid = Some (w', links')"
    "wq_rep me (w', links') (xs @ [tid])" "links_touch me links links'"
proof -
  let ?N = thread_none
  let ?new = "\<lparr>wl_next = ?N, wl_prev = final xs ?N, wl_on = me\<rparr>"
  have me: "me \<noteq> 0" and tail: "wq_tail w = final xs ?N" and head: "wq_head w = first xs ?N"
    and len: "wq_len w = length xs" and mem: "\<And>i. wq_contains me i links \<longleftrightarrow> i \<in> set xs"
    using wq_repD [OF assms(1)] by blast+
  have new: "tid \<notin> set xs" using mem [of tid] assms(3,4) me by (simp add: wq_contains_def)
  define L where "L = (if xs = [] then links(tid \<mapsto> ?new)
    else links(tid \<mapsto> ?new, final xs ?N \<mapsto> (the (links (final xs ?N)))\<lparr>wl_next := tid\<rparr>))"
  have last: "\<exists>p. links (final xs ?N) = Some p \<and> wl_on p = me" "final xs ?N \<noteq> ?N" "final xs ?N \<noteq> tid"
    if "xs \<noteq> []"
    using wq_rep_linked [OF assms(1), of "final xs ?N"] final_in [OF that, of ?N] wq_repD(3) [OF assms(1)] new
    by auto
  have c: "(case (links(tid \<mapsto> ?new)) (final xs ?N) of
        Some t \<Rightarrow> if final xs ?N \<noteq> ?N
          then ((links(tid \<mapsto> ?new))(final xs ?N \<mapsto> t\<lparr>wl_next := tid\<rparr>), wq_head w)
          else (links(tid \<mapsto> ?new), tid)
      | None \<Rightarrow> (links(tid \<mapsto> ?new), tid)) = (L, first (xs @ [tid]) ?N)"
  proof (cases "xs = []")
    case True
    then show ?thesis by (simp add: L_def split: option.split)
  next
    case False
    obtain p where "links (final xs ?N) = Some p" using last [OF False] by blast
    moreover have "wq_head w = first (xs @ [tid]) ?N" using head False by (cases xs) simp_all
    ultimately show ?thesis using False last [OF False] by (simp add: L_def del: first_append)
  qed
  have ne: "(wl_on l = me) = False" using me assms(4) by simp
  have res: "wq_enqueue me (w, links) tid =
      Some (\<lparr>wq_head = first (xs @ [tid]) ?N, wq_tail = tid, wq_len = length (xs @ [tid])\<rparr>, L)"
    unfolding wq_enqueue_def prod.case assms(3) bind.bind_lunit Let_def tail ne if_False c
    using assms(2,4) by (simp add: len del: first_append)
  have Li: "L i = (if xs \<noteq> [] \<and> i = final xs ?N then Some ((the (links i))\<lparr>wl_next := tid\<rparr>)
      else if i = tid then Some ?new else links i)" for i
    unfolding L_def by simp
  have "wq_rep me (\<lparr>wq_head = first (xs @ [tid]) ?N, wq_tail = tid, wq_len = length (xs @ [tid])\<rparr>, L) (xs @ [tid])"
  proof -
    have "dll (wl_nx L) (wl_pv L) ?N (xs @ [tid]) ?N"
    proof (rule dll_link_last [of "wl_nx links" "wl_pv links"])
      fix y assume y: "y \<in> set xs"
      then have ne: "xs \<noteq> []" "y \<noteq> tid" using new by auto
      obtain k where k: "links y = Some k" using wq_rep_linked [OF assms(1) y] by blast
      show "wl_nx L y = (if y = final xs ?N then tid else wl_nx links y)" "wl_pv L y = wl_pv links y"
        unfolding wl_nx_def wl_pv_def Li k using ne by simp_all
    next
      show "wl_nx L tid = ?N" "wl_pv L tid = final xs ?N"
        using last(3) by (auto simp: wl_nx_def wl_pv_def Li)
    qed (use wq_repD [OF assms(1)] new in blast)+
    moreover have "wq_contains me i L \<longleftrightarrow> i \<in> set (xs @ [tid])" for i
    proof (cases "xs \<noteq> [] \<and> i = final xs ?N")
      case True
      then have "i \<in> set xs" using final_in [of xs ?N] by simp
      moreover have "wq_contains me i L" using True last(1) by (auto simp: wq_contains_def Li)
      ultimately show ?thesis by simp
    next
      case False
      then show ?thesis using mem [of i] by (auto simp: wq_contains_def Li)
    qed
    ultimately show ?thesis using me wq_repD(2,3) [OF assms(1)] new assms(2) by (simp add: wq_rep_def)
  qed
  moreover have "links_touch me links L"
  proof -
    have "\<exists>k k'. links i = Some k \<and> L i = Some k' \<and> wl_on k \<in> {0, me} \<and> wl_on k' \<in> {0, me}"
      if "L i \<noteq> links i" for i
    proof (cases "xs \<noteq> [] \<and> i = final xs ?N")
      case True
      then obtain p where "links i = Some p" "wl_on p = me" using last(1) by blast
      with True show ?thesis by (simp add: Li)
    next
      case False
      with that have "i = tid" by (auto simp: Li split: if_splits)
      with False assms(3,4) show ?thesis by (auto simp: Li)
    qed
    then show ?thesis by (simp add: links_touch_def)
  qed
  ultimately show ?thesis by (rule that [OF res])
qed

lemma wq_dequeue_rep:
  assumes "wq_rep me s (tid # xs)"
  obtains s' where "wq_dequeue s = Some (Some tid, s')" "wq_rep me s' xs" "links_touch me (snd s) (snd s')"
proof -
  obtain w links where s: "s = (w, links)" by (cases s)
  then obtain w' links' where "wq_unlink (w, links) tid = Some (w', links')"
    "wq_rep me (w', links') xs" "links_touch me links links'"
    using wq_unlink_rep [of me w links "[]" tid xs] assms by auto
  moreover have "wq_head w = tid" "tid \<noteq> thread_none" using wq_repD(3,5) [OF assms [unfolded s]] by auto
  ultimately show ?thesis using that [of "(w', links')"] s by (simp add: wq_dequeue_def)
qed

lemma wq_dequeue_empty: "wq_rep me s [] \<Longrightarrow> wq_dequeue s = Some (None, s)"
  by (cases s) (simp add: wq_rep_def wq_dequeue_def)

definition wq_free :: "wait_queue \<times> wait_links \<Rightarrow> thread_id \<Rightarrow> bool" where
  "wq_free = (\<lambda>(w, links) tid. tid \<noteq> thread_none \<and> (case links tid of None \<Rightarrow> False | Some l \<Rightarrow> wl_on l = 0))"

interpretation wq: fifo_queue "wq_inv me" wq_list wq_free "wq_enqueue me" wq_dequeue for me
proof
  fix s x assume "wq_inv me s" "wq_free s x"
  moreover obtain w links where "s = (w, links)" by (cases s)
  ultimately show "\<exists>s'. wq_enqueue me s x = Some s' \<and> wq_inv me s' \<and> wq_list s' = wq_list s @ [x]"
    using wq_enqueue_rep [of me w links "wq_list s" x]
    by (fastforce simp: wq_free_def wq_rep_inv split: option.splits)
next
  fix s assume "wq_inv me s" "wq_list s = []"
  then show "wq_dequeue s = Some (None, s)" using wq_dequeue_empty [of me s] by (simp add: wq_rep_inv)
next
  fix s x xs assume "wq_inv me s" "wq_list s = x # xs"
  then show "\<exists>s'. wq_dequeue s = Some (Some x, s') \<and> wq_inv me s' \<and> wq_list s' = xs"
    using wq_dequeue_rep [of me s x xs] by (metis wq_rep_inv)
qed

lemma wq_remove_rep:
  assumes "wq_rep me s xs"
  obtains s' where "wq_remove me s tid = Some (tid \<in> set xs, s')" "wq_rep me s' (remove1 tid xs)"
    "links_touch me (snd s) (snd s')"
proof (cases "tid \<in> set xs")
  case False
  obtain w links where s: "s = (w, links)" by (cases s)
  then have "\<not> wq_contains me tid links" using wq_repD(8) [of me w links xs tid] assms False by simp
  then have "wq_remove me s tid = Some (tid \<in> set xs, s)" using s False by (simp add: wq_remove_def)
  moreover have "wq_rep me s (remove1 tid xs)" using assms False by (simp add: remove1_idem)
  moreover have "links_touch me (snd s) (snd s)" by (simp add: links_touch_def)
  ultimately show ?thesis by (rule that)
next
  case True
  obtain w links where s: "s = (w, links)" by (cases s)
  obtain ys zs where xs: "xs = ys @ tid # zs" "tid \<notin> set ys" using True by (metis split_list_first)
  obtain w' links' where u: "wq_unlink (w, links) tid = Some (w', links')"
    "wq_rep me (w', links') (ys @ zs)" "links_touch me links links'"
    using wq_unlink_rep [of me w links ys tid zs] assms s xs by blast
  have "wq_contains me tid links" "tid \<noteq> thread_none"
    using wq_repD(3) [of me w links xs] wq_repD(8) [of me w links xs tid] assms True s by auto
  with u s True have "wq_remove me s tid = Some (tid \<in> set xs, (w', links'))" by (simp add: wq_remove_def)
  moreover have "wq_rep me (w', links') (remove1 tid xs)" using u(2) xs by (simp add: remove1_append)
  ultimately show ?thesis by (rule that) (use u s in simp)
qed

section \<open>Waking every waiter\<close>

lemma tq_remove_map:
  assumes "tq_inv t"
  obtains t' where "tq_remove t tid = Some (tid \<in> dom (tq_map t), t')" "tq_inv t'"
    "tq_map t' = (tq_map t)(tid := None)" "length (tq_items t') = length (tq_items t)"
proof -
  obtain t' where "tq_remove t tid = Some (tid \<in> dom (tq_map t), t')" "tq_inv t'"
    "tq_list t' = filter (\<lambda>x. to_id x \<noteq> tid) (tq_list t)" "length (tq_items t') = length (tq_items t)"
    using tq_remove_filter [OF assms] by blast
  then show ?thesis using that tq_map_filter by blast
qed

text \<open>What one wake does to the three queues.\<close>

lemma wake_one_rep:
  assumes "wq_rep me w (tid # xs)" "rq_inv q" "tq_inv t" "tid \<in> set (rq_list q) \<or> rq_len q < rq_capacity q"
  obtains w' q' t' where "wake_one (w, q, t) = Some (Some tid, (w', q', t'))" "wq_rep me w' xs"
    "rq_inv q'" "rq_capacity q' = rq_capacity q"
    "rq_list q' = rq_list q @ filter (\<lambda>x. x \<notin> set (rq_list q)) [tid]"
    "tq_inv t'" "tq_map t' = (tq_map t)(tid := None)"
    "links_touch me (snd w) (snd w')"
proof -
  obtain w' where w': "wq_dequeue w = Some (Some tid, w')" "wq_rep me w' xs" "links_touch me (snd w) (snd w')"
    using wq_dequeue_rep [OF assms(1)] by blast
  obtain t' where t': "tq_remove t tid = Some (tid \<in> dom (tq_map t), t')" "tq_inv t'"
    "tq_map t' = (tq_map t)(tid := None)"
    using tq_remove_map [OF assms(3)] by blast
  have "tid \<noteq> thread_none" using wq_repD(3) [of me "fst w" "snd w" "tid # xs"] assms(1) by auto
  then obtain q' where q': "rq_push_back q tid = Some q'" "rq_inv q'" "rq_capacity q' = rq_capacity q"
    "rq_list q' = rq_list q @ filter (\<lambda>x. x \<notin> set (rq_list q)) [tid]"
    using rq_push_back_list [OF assms(2) _ assms(4)] by blast
  have "wake_one (w, q, t) = Some (Some tid, (w', q', t'))"
    unfolding wake_one_def take_one_def prod.case w'(1) bind.bind_lunit option.case t'(1) q'(1) ..
  then show ?thesis using w'(2) q'(2-4) t'(2,3) w'(3) by (rule that)
qed

lemma wake_all_rep:
  assumes "wq_rep me w xs" "rq_inv q" "tq_inv t"
    "length (rq_list q) + length (filter (\<lambda>x. x \<notin> set (rq_list q)) xs) \<le> rq_capacity q"
  shows "\<exists>w' q' t'. wake_all (w, q, t) n = Some (n + length xs, (w', q', t')) \<and> wq_rep me w' [] \<and>
    rq_inv q' \<and> rq_list q' = rq_list q @ filter (\<lambda>x. x \<notin> set (rq_list q)) xs \<and>
    rq_capacity q' = rq_capacity q \<and> tq_inv t' \<and> tq_map t' = tq_map t |` (- set xs)"
  using assms
proof (induction xs arbitrary: w q t n)
  case Nil
  then have "wake_one (w, q, t) = Some (None, (w, q, t))"
    by (simp add: wake_one_def take_one_def wq_dequeue_empty)
  with Nil show ?case by (subst wake_all.simps) (auto simp: restrict_map_def)
next
  case (Cons tid xs)
  have d: "tid \<notin> set xs" using wq_repD(2) [of me "fst w" "snd w" "tid # xs"] Cons.prems(1) by auto
  have room: "tid \<in> set (rq_list q) \<or> rq_len q < rq_capacity q"
    using Cons.prems(4) by (cases "tid \<in> set (rq_list q)") auto
  obtain w' q' t' where 1: "wake_one (w, q, t) = Some (Some tid, (w', q', t'))" "wq_rep me w' xs"
    "rq_inv q'" "rq_capacity q' = rq_capacity q"
    "rq_list q' = rq_list q @ filter (\<lambda>x. x \<notin> set (rq_list q)) [tid]"
    "tq_inv t'" "tq_map t' = (tq_map t)(tid := None)"
    using wake_one_rep [OF Cons.prems(1-3) room] by blast
  have f: "filter (\<lambda>x. x \<notin> set (rq_list q')) xs = filter (\<lambda>x. x \<notin> set (rq_list q)) xs"
    using d by (intro filter_cong) (auto simp: 1(5))
  have "length (rq_list q') + length (filter (\<lambda>x. x \<notin> set (rq_list q')) xs) \<le> rq_capacity q'"
    using Cons.prems(4) unfolding f unfolding 1(4,5) by (simp split: if_splits)
  from Cons.IH [OF 1(2,3,6) this, of "n + 1"] obtain v p u where
    "wake_all (w', q', t') (n + 1) = Some (n + 1 + length xs, (v, p, u))" "wq_rep me v []"
    "rq_inv p" "rq_list p = rq_list q' @ filter (\<lambda>x. x \<notin> set (rq_list q')) xs"
    "rq_capacity p = rq_capacity q'" "tq_inv u" "tq_map u = tq_map t' |` (- set xs)" by blast
  moreover from this(1) have "wake_all (w, q, t) n = Some (n + length (tid # xs), (v, p, u))"
    by (subst wake_all.simps) (simp add: 1(1))
  moreover have "tq_map t' |` (- set xs) = tq_map t |` (- set (tid # xs))"
    by (auto simp: 1(7) restrict_map_def fun_eq_iff)
  ultimately show ?case unfolding f unfolding 1(4,5) by simp
qed

section \<open>The bounded channel\<close>

definition ch_list :: "'a channel_model \<Rightarrow> 'a list" where
  "ch_list c = map the (ring_list (ch_head c) (ch_len c) (ch_slots c))"

definition ch_inv :: "'a channel_model \<Rightarrow> bool" where
  "ch_inv c \<longleftrightarrow> ch_head c < length (ch_slots c) \<and> ch_len c \<le> length (ch_slots c) \<and>
     None \<notin> set (ring_list (ch_head c) (ch_len c) (ch_slots c))"

definition ch_push :: "'a channel_model \<Rightarrow> 'a \<Rightarrow> 'a channel_model option" where
  "ch_push c v = map_option snd (try_send c v)"

lemma length_ch_list [simp]: "length (ch_list c) = ch_len c"
  by (simp add: ch_list_def)

lemma ch_new_inv: "0 < cap \<Longrightarrow> \<exists>c. ch_new cap = Some c \<and> ch_inv c \<and> ch_list c = [] \<and> length (ch_slots c) = cap"
  by (simp add: ch_new_def ch_inv_def ch_list_def)

lemma try_send_full: "ch_is_full c \<Longrightarrow> try_send c v = Some (Inl v, c)"
  by (simp add: try_send_def ch_is_full_def)

lemma try_send_room:
  assumes "ch_inv c" "\<not> ch_is_full c"
  obtains c' where "try_send c v = Some (Inr (), c')" "ch_inv c'" "ch_list c' = ch_list c @ [v]"
    "length (ch_slots c') = length (ch_slots c)"
proof -
  let ?L = "length (ch_slots c)"
  let ?i = "(ch_head c + ch_len c) mod ?L"
  let ?c = "c\<lparr>ch_slots := (ch_slots c)[?i := Some v], ch_len := ch_len c + 1\<rparr>"
  have n: "ch_len c < ?L" using assms(2) by (simp add: ch_is_full_def)
  then have "?i < ?L" by (intro mod_less_divisor) linarith
  then have "try_send c v = Some (Inr (), ?c)" using n by (simp add: try_send_def)
  moreover have "ring_list (ch_head ?c) (ch_len ?c) (ch_slots ?c) =
      ring_list (ch_head c) (ch_len c) (ch_slots c) @ [Some v]"
    using ring_list_push [OF n, of "ch_head c" "Some v"] by simp
  then have "ch_inv ?c" "ch_list ?c = ch_list c @ [v]"
    using assms(1) n by (auto simp: ch_inv_def ch_list_def)
  ultimately show ?thesis using that by simp
qed

lemma try_recv_cons:
  assumes "ch_inv c" "ch_list c = v # vs"
  obtains c' where "try_recv c = Some (Some v, c')" "ch_inv c'" "ch_list c' = vs"
proof -
  let ?L = "length (ch_slots c)"
  let ?c = "c\<lparr>ch_head := (ch_head c + 1) mod ?L, ch_len := ch_len c - 1\<rparr>"
  have n: "ch_head c < ?L" "0 < ch_len c"
    using assms length_ch_list [of c] by (auto simp: ch_inv_def simp del: length_ch_list)
  have r: "ring_list (ch_head c) (ch_len c) (ch_slots c) =
      ch_slots c ! ch_head c # ring_list (ch_head ?c) (ch_len ?c) (ch_slots ?c)"
    using ring_list_Cons [OF n] by simp
  with assms obtain y where y: "ch_slots c ! ch_head c = Some y" by (cases "ch_slots c ! ch_head c") (auto simp: ch_inv_def)
  then have "y = v" "ch_list ?c = vs" using assms(2) r by (simp_all add: ch_list_def)
  moreover have "try_recv c = Some (Some y, ?c)" using n y by (simp add: try_recv_def)
  moreover have "(ch_head c + 1) mod ?L < ?L" using n(1) by (intro mod_less_divisor) linarith
  then have "ch_inv ?c" using assms(1) r by (auto simp: ch_inv_def)
  ultimately show ?thesis using that by blast
qed

interpretation ch: fifo_queue ch_inv ch_list "\<lambda>c v. \<not> ch_is_full c" ch_push try_recv
proof
  fix c :: "'a channel_model" and v assume "ch_inv c" "\<not> ch_is_full c"
  then show "\<exists>c'. ch_push c v = Some c' \<and> ch_inv c' \<and> ch_list c' = ch_list c @ [v]"
    using try_send_room [of c v] by (metis ch_push_def option.simps(9) snd_conv)
next
  fix c :: "'a channel_model" assume "ch_inv c" "ch_list c = []"
  then show "try_recv c = Some (None, c)" using length_ch_list [of c] by (simp add: try_recv_def)
next
  fix c :: "'a channel_model" and v vs assume "ch_inv c" "ch_list c = v # vs"
  then show "\<exists>c'. try_recv c = Some (Some v, c') \<and> ch_inv c' \<and> ch_list c' = vs"
    using try_recv_cons [of c v vs] by blast
qed

lemma ch_drop_list: "ch_inv c \<Longrightarrow> ch_drop c = Some (ch_list c)"
proof (induction "ch_list c" arbitrary: c)
  case Nil
  then show ?case using ch.pop_empty [of c] by (subst ch_drop.simps) simp
next
  case (Cons v vs)
  then obtain c' where c': "try_recv c = Some (Some v, c')" "ch_inv c'" "ch_list c' = vs"
    using try_recv_cons [of c v vs] by metis
  with Cons.hyps(1) [of c'] have "ch_drop c' = Some vs" by simp
  with c' Cons.hyps(2) show ?case by (subst ch_drop.simps) simp
qed

end
