(* ===== verification/Wait_Props.thy ===== *)
theory Wait_Props
  imports Wait_Queues
begin

text \<open>
  The properties of the wait queues and of the blocking primitives
  (\<^verbatim>\<open>crates/core/src/sched/wait.rs\<close>): the invariant of the moves between a wait queue, the run
  queue and the timeout list as a step relation, the separation of the queues that share the
  link table, and the guarantees of the reader-writer lock and the channel.
\<close>

section \<open>The moves of a waiting thread\<close>

text \<open>
  The hook the timer passes to \<open>wake_expired\<close> unlinks the thread from the wait queue.
\<close>

definition ws_unlink :: "nat \<Rightarrow> thread_id \<Rightarrow> wait_queue \<times> wait_links \<Rightarrow> wait_queue \<times> wait_links" where
  "ws_unlink me tid w = (case wq_remove me w tid of None \<Rightarrow> w | Some (_, w') \<Rightarrow> w')"

inductive ws_step :: "nat \<Rightarrow> wait_sys \<Rightarrow> wait_sys \<Rightarrow> bool" for me where
  block: "begin_wait me s tid dl = Some s' \<Longrightarrow> ws_step me s s'"
| wake: "wake_one s = Some (r, s') \<Longrightarrow> ws_step me s s'"
| wake_everyone: "wake_all s n = Some (m, s') \<Longrightarrow> ws_step me s s'"
| expire: "wake_expired t q now (ws_unlink me) w 0 = Some (n, t', q', w') \<Longrightarrow> ws_step me (w, q, t) (w', q', t')"

inductive_cases ws_stepE: "ws_step me s s'"

definition ws_inv :: "nat \<Rightarrow> wait_sys \<Rightarrow> bool" where
  "ws_inv me = (\<lambda>(w, q, t). wq_inv me w \<and> rq_inv q \<and> tq_inv t \<and>
     set (wq_list w) \<inter> set (rq_list q) = {} \<and> set (wq_list w) \<subseteq> dom (tq_map t))"

lemma rq_push_back_SomeD:
  assumes "rq_inv q" "rq_push_back q tid = Some q'"
  shows "rq_inv q'" "set (rq_list q') = insert tid (set (rq_list q))"
proof -
  have "tid \<noteq> thread_none" using assms(2) by (auto simp: rq_push_back_def)
  moreover have "tid \<in> set (rq_list q) \<or> rq_len q < rq_capacity q"
  proof (rule ccontr)
    assume "\<not> ?thesis"
    moreover have "rq_len q \<le> rq_capacity q" using assms(1) by (auto simp: rq_inv_def rq_capacity_def)
    ultimately show False using rq_push_back_full [OF assms(1), of tid] assms(2) by simp
  qed
  ultimately obtain p where "rq_push_back q tid = Some p" "rq_inv p"
    "rq_list p = rq_list q @ filter (\<lambda>x. x \<notin> set (rq_list q)) [tid]"
    using rq_push_back_list [OF assms(1)] by blast
  then show "rq_inv q'" "set (rq_list q') = insert tid (set (rq_list q))" using assms(2) by auto
qed

lemma wq_enqueue_SomeD:
  assumes "wq_enqueue me (w, links) tid = Some s'"
  obtains l where "tid \<noteq> thread_none" "links tid = Some l" "wl_on l = me \<and> s' = (w, links) \<or> wl_on l = 0"
  using assms by (cases "links tid") (auto simp: wq_enqueue_def Let_def split: if_splits)

lemma begin_wait_inv:
  assumes "ws_inv me s" "begin_wait me s tid dl = Some s'"
  shows "ws_inv me s'"
proof -
  obtain w links q t where s: "s = ((w, links), q, t)" by (metis prod.collapse)
  obtain w' q' t' b where s': "s' = (w', q', t')" and e: "wq_enqueue me (w, links) tid = Some w'"
    and r: "rq_remove q tid = Some (b, q')" and i: "tq_insert t tid dl = Some t'"
    using assms(2) s by (auto simp: begin_wait_def bind_eq_Some_conv)
  have inv: "wq_rep me (w, links) (wq_list (w, links))" "rq_inv q" "tq_inv t"
    and dj: "set (wq_list (w, links)) \<inter> set (rq_list q) = {}" "set (wq_list (w, links)) \<subseteq> dom (tq_map t)"
    using assms(1) s by (auto simp: ws_inv_def wq_inv_def)
  obtain l where ne: "tid \<noteq> thread_none" and l: "links tid = Some l"
    and on: "wl_on l = me \<and> w' = (w, links) \<or> wl_on l = 0"
    using wq_enqueue_SomeD [OF e] by blast
  have w': "wq_inv me w' \<and> set (wq_list w') \<subseteq> insert tid (set (wq_list (w, links)))"
    using on
  proof
    assume "wl_on l = me \<and> w' = (w, links)"
    then show ?thesis using inv(1) by (auto simp: wq_inv_def)
  next
    assume "wl_on l = 0"
    then obtain v L where "wq_enqueue me (w, links) tid = Some (v, L)"
      "wq_rep me (v, L) (wq_list (w, links) @ [tid])"
      by (rule wq_enqueue_rep [OF inv(1) ne l])
    then show ?thesis using e by (auto simp: wq_rep_inv)
  qed
  have q': "rq_inv q' \<and> set (rq_list q') = set (rq_list q) - {tid}"
  proof (cases "tid \<in> set (rq_list q)")
    case True
    obtain p where "rq_remove q tid = Some (True, p)" "rq_inv p" "rq_list p = remove1 tid (rq_list q)"
      using rq_remove_present [OF inv(2) True] by blast
    moreover have "distinct (rq_list q)" using inv(2) by (simp add: rq_inv_def)
    ultimately show ?thesis using r by (simp add: set_remove1_eq)
  next
    case False
    then show ?thesis using rq_remove_absent [OF inv(2) False] r inv(2) by auto
  qed
  have t': "tq_inv t' \<and> tq_map t' = (tq_map t)(tid \<mapsto> dl)"
  proof (cases "tid \<in> dom (tq_map t) \<or> tq_len t < length (tq_items t)")
    case True
    obtain u where "tq_insert t tid dl = Some u" "tq_inv u" "tq_map u = (tq_map t)(tid \<mapsto> dl)"
      using tq_insert_Some [OF inv(3) ne True] by blast
    with i show ?thesis by simp
  next
    case False
    moreover have "tq_len t \<le> length (tq_items t)" using inv(3) by (simp add: tq_inv_def)
    ultimately show ?thesis using tq_insert_full [OF inv(3), of tid dl] i by simp
  qed
  show ?thesis using w' q' t' dj s' by (auto simp: ws_inv_def)
qed

lemma wake_one_inv:
  assumes "ws_inv me s" "wake_one s = Some (r, s')"
  shows "ws_inv me s'"
proof -
  obtain w q t where s: "s = (w, q, t)" by (cases s)
  have inv: "wq_rep me w (wq_list w)" "rq_inv q" "tq_inv t"
    and dj: "set (wq_list w) \<inter> set (rq_list q) = {}" "set (wq_list w) \<subseteq> dom (tq_map t)"
    using assms(1) s by (auto simp: ws_inv_def wq_inv_def)
  show ?thesis
  proof (cases "wq_list w")
    case Nil
    then have "wq_dequeue w = Some (None, w)" using inv(1) wq_dequeue_empty by metis
    then show ?thesis using assms s by (simp add: wake_one_def take_one_def)
  next
    case (Cons tid xs)
    obtain w' where w': "wq_dequeue w = Some (Some tid, w')" "wq_rep me w' xs"
      using wq_dequeue_rep [of me w tid xs] inv(1) Cons by metis
    obtain t' where t': "tq_remove t tid = Some (tid \<in> dom (tq_map t), t')" "tq_inv t'"
      "tq_map t' = (tq_map t)(tid := None)"
      using tq_remove_map [OF inv(3)] by blast
    obtain q' where q': "rq_push_back q tid = Some q'" "s' = (w', q', t')"
      using assms(2) s w'(1) t'(1) by (auto simp: wake_one_def take_one_def bind_eq_Some_conv)
    have "tid \<notin> set xs" using wq_repD(2) [of me "fst w" "snd w" "tid # xs"] inv(1) Cons by simp
    then show ?thesis using w'(2) t'(2,3) q'(2) rq_push_back_SomeD [OF inv(2) q'(1)] dj Cons
      by (auto simp: ws_inv_def wq_rep_inv)
  qed
qed

lemma wake_all_inv: "ws_inv me s \<Longrightarrow> wake_all s n = Some (m, s') \<Longrightarrow> ws_inv me s'"
proof (induction s n rule: wake_all.induct)
  case (1 s n)
  show ?case
  proof (cases "wake_one s")
    case None
    then show ?thesis using 1(3) by (simp add: wake_all.simps [of s])
  next
    case (Some p)
    obtain r s1 where p: "p = (r, s1)" by (cases p)
    have "ws_inv me s1" using wake_one_inv [OF 1(2)] Some p by blast
    then show ?thesis using 1(1) [OF Some p [symmetric]] 1(3) Some p by (cases r) (auto simp: wake_all.simps [of s])
  qed
qed

lemma tq_pop_expired_SomeD:
  assumes "tq_inv t" "tq_pop_expired t now = Some (Some tid, t')"
  shows "tq_inv t'" "tq_map t' = (tq_map t)(tid := None)"
proof -
  obtain x xs where xs: "tq_list t = x # xs" "to_deadline x \<le> now"
    using assms tq_pop_expired_none [OF assms(1), of now] by (cases "tq_list t") force+
  obtain u where u: "tq_pop_expired t now = Some (Some (to_id x), u)" "tq_inv u" "tq_list u = xs"
    using tq_pop_expired_due [OF assms(1) xs] by blast
  have "distinct (map to_id (x # xs))" using assms(1) xs(1) by (simp add: tq_inv_def)
  then have "filter (\<lambda>y. to_id y \<noteq> to_id x) (tq_list t) = xs"
    unfolding xs(1) by (simp add: filter_id_conv) (metis image_eqI)
  then show "tq_inv t'" "tq_map t' = (tq_map t)(tid := None)"
    using assms(2) u tq_map_filter [of u "to_id x" t] by auto
qed

lemma tq_pop_expired_NoneD:
  assumes "tq_inv t" "tq_pop_expired t now = Some (None, t')"
  shows "t' = t"
proof (cases "tq_list t = [] \<or> now < to_deadline (hd (tq_list t))")
  case True
  then show ?thesis using tq_pop_expired_none [OF assms(1) True] assms(2) by simp
next
  case False
  then obtain x xs where xs: "tq_list t = x # xs" "to_deadline x \<le> now" by (cases "tq_list t") auto
  show ?thesis using tq_pop_expired_due [OF assms(1) xs] assms(2) by simp
qed

lemma expire_inv:
  "ws_inv me (w, q, t) \<Longrightarrow> wake_expired t q now (ws_unlink me) w n = Some (m, t', q', w') \<Longrightarrow>
   ws_inv me (w', q', t')"
proof (induction t q now "ws_unlink me" w n rule: wake_expired.induct)
  case (1 t q now w n)
  have inv: "wq_rep me w (wq_list w)" "rq_inv q" "tq_inv t"
    and dj: "set (wq_list w) \<inter> set (rq_list q) = {}" "set (wq_list w) \<subseteq> dom (tq_map t)"
    using 1(2) by (auto simp: ws_inv_def wq_inv_def)
  obtain r t1 where p: "tq_pop_expired t now = Some (r, t1)"
    using 1(3) by (auto simp: wake_expired.simps [of t] bind_eq_Some_conv)
  show ?case
  proof (cases r)
    case None
    then have "t1 = t" using tq_pop_expired_NoneD [OF inv(3)] p by simp
    then show ?thesis using 1(2,3) p None by (simp add: wake_expired.simps [of t])
  next
    case (Some tid)
    then obtain q1 where q1: "rq_push_back q tid = Some q1"
      using 1(3) p by (auto simp: wake_expired.simps [of t] bind_eq_Some_conv)
    obtain w1 b where w1: "wq_remove me w tid = Some (b, w1)" "wq_rep me w1 (remove1 tid (wq_list w))"
      using wq_remove_rep [OF inv(1)] by blast
    have "set (remove1 tid (wq_list w)) = set (wq_list w) - {tid}"
      using wq_repD(2) [of me "fst w" "snd w" "wq_list w"] inv(1) by (simp add: set_remove1_eq)
    then have "ws_inv me (ws_unlink me tid w, q1, t1)"
      using w1 tq_pop_expired_SomeD [OF inv(3)] rq_push_back_SomeD [OF inv(2) q1] p Some dj
      by (auto simp: ws_inv_def ws_unlink_def wq_rep_inv)
    with 1(1) [OF p refl Some q1] 1(3) p Some q1 show ?thesis
      by (simp add: wake_expired.simps [of t])
  qed
qed

text \<open>
  C27: Whatever sequence of blocking, waking and expiring threads runs, the three queues stay
  in their invariants, no thread is at once on the wait queue and on the run queue, and every
  waiting thread has its deadline armed, so that no waiter can be left without a way to wake.
\<close>

theorem wait_system_invariant:
  assumes "ws_inv me s" "(ws_step me)\<^sup>*\<^sup>* s s'"
  shows "ws_inv me s'"
  using assms(2,1)
proof induction
  case (step s1 s2)
  from step.hyps(2) step.IH [OF step.prems] show ?case
    by (cases rule: ws_stepE) (auto intro: begin_wait_inv wake_one_inv wake_all_inv expire_inv)
qed simp

theorem wait_system_invariant_witness:
  "let me = 64; links = (\<lambda>_. None)(3 \<mapsto> WAIT_LINK_NONE, 5 \<mapsto> WAIT_LINK_NONE);
       q = \<lparr>rq_ids = 0, rq_cap = 2, rq_head = 0, rq_len = 2, rq_buf = [3, 5]\<rparr>;
       t = \<lparr>tq_items = [NO_TIMEOUT, NO_TIMEOUT], tq_len = 0\<rparr>
   in ws_inv me ((wq_new, links), q, t) \<and>
      (\<exists>s'. begin_wait me ((wq_new, links), q, t) 5 100 = Some s' \<and> ws_inv me s')"
proof -
  let ?links = "(\<lambda>_. None)(3 \<mapsto> WAIT_LINK_NONE, 5 \<mapsto> WAIT_LINK_NONE)"
  let ?q = "\<lparr>rq_ids = 0, rq_cap = 2, rq_head = 0, rq_len = 2, rq_buf = [3, 5]\<rparr>"
  let ?t = "\<lparr>tq_items = [NO_TIMEOUT, NO_TIMEOUT], tq_len = 0\<rparr>"
  have l: "rq_list ?q = [3, 5]" by (simp add: rq_list_def ring_list_def upt_rec)
  have w: "wq_rep 64 (wq_new, ?links) []"
    by (rule wq_new_rep) (auto simp: wq_contains_def WAIT_LINK_NONE_def)
  have inv: "ws_inv 64 ((wq_new, ?links), ?q, ?t)"
    using w l unfolding ws_inv_def wq_rep_inv prod.case by (simp add: rq_inv_def thread_none_def tq_inv_def tq_list_def)
  moreover have "begin_wait 64 ((wq_new, ?links), ?q, ?t) 5 100 \<noteq> None"
    by code_simp
  then obtain s' where s': "begin_wait 64 ((wq_new, ?links), ?q, ?t) 5 100 = Some s'" by blast
  moreover have "ws_inv 64 s'"
    using wait_system_invariant [OF inv, of s'] ws_step.block [OF s'] by blast
  ultimately show ?thesis unfolding Let_def by blast
qed

section \<open>Queues that share the links\<close>

text \<open>
  C28: The wait queues of the kernel all link their waiters through the one table. Appending a
  thread that is on no queue, taking the first waiter and taking out any waiter do to the
  queue's list what they say, never panic, and leave every other queue as it was.
\<close>

theorem wait_queues_separate:
  assumes "wq_inv me (w, links)" "wq_inv me2 (v, links)" "me2 \<noteq> me" "wq_free (w, links) tid"
  shows "(\<exists>w' links'. wq_enqueue me (w, links) tid = Some (w', links') \<and>
      wq_inv me (w', links') \<and> wq_list (w', links') = wq_list (w, links) @ [tid] \<and>
      wq_inv me2 (v, links') \<and> wq_list (v, links') = wq_list (v, links)) \<and>
    (\<exists>w' links'. wq_dequeue (w, links) =
        Some (if wq_list (w, links) = [] then None else Some (hd (wq_list (w, links))), (w', links')) \<and>
      wq_inv me (w', links') \<and> wq_list (w', links') = tl (wq_list (w, links)) \<and>
      wq_inv me2 (v, links') \<and> wq_list (v, links') = wq_list (v, links)) \<and>
    (\<exists>w' links'. wq_remove me (w, links) i = Some (i \<in> set (wq_list (w, links)), (w', links')) \<and>
      wq_inv me (w', links') \<and> wq_list (w', links') = remove1 i (wq_list (w, links)) \<and>
      wq_inv me2 (v, links') \<and> wq_list (v, links') = wq_list (v, links))"
proof -
  let ?xs = "wq_list (w, links)" and ?ys = "wq_list (v, links)"
  have rep: "wq_rep me (w, links) ?xs" "wq_rep me2 (v, links) ?ys" using assms(1,2) by (simp_all add: wq_inv_def)
  have other: "wq_inv me2 (v, links') \<and> wq_list (v, links') = ?ys" if "links_touch me links links'" for links'
    using wq_rep_frame [OF rep(2) that assms(3)] by (simp add: wq_rep_inv)
  obtain l where l: "tid \<noteq> thread_none" "links tid = Some l" "wl_on l = 0"
    using assms(4) by (auto simp: wq_free_def split: option.splits)
  have 1: "\<exists>w' links'. wq_enqueue me (w, links) tid = Some (w', links') \<and>
      wq_inv me (w', links') \<and> wq_list (w', links') = ?xs @ [tid] \<and>
      wq_inv me2 (v, links') \<and> wq_list (v, links') = ?ys"
  proof -
    obtain w' L where "wq_enqueue me (w, links) tid = Some (w', L)" "wq_rep me (w', L) (?xs @ [tid])"
      "links_touch me links L"
      by (rule wq_enqueue_rep [OF rep(1) l])
    then show ?thesis using other [of L] by (simp add: wq_rep_inv)
  qed
  have 2: "\<exists>w' links'. wq_dequeue (w, links) = Some (if ?xs = [] then None else Some (hd ?xs), (w', links')) \<and>
      wq_inv me (w', links') \<and> wq_list (w', links') = tl ?xs \<and>
      wq_inv me2 (v, links') \<and> wq_list (v, links') = ?ys"
  proof (cases ?xs)
    case Nil
    then show ?thesis using wq_dequeue_empty [of me "(w, links)"] rep assms by simp
  next
    case (Cons x xs)
    obtain s' where "wq_dequeue (w, links) = Some (Some x, s')" "wq_rep me s' xs" "links_touch me links (snd s')"
      using wq_dequeue_rep [of me "(w, links)" x xs] rep(1) unfolding Cons by auto
    then show ?thesis using other [of "snd s'"] Cons by (cases s') (simp add: wq_rep_inv)
  qed
  obtain s' where "wq_remove me (w, links) i = Some (i \<in> set ?xs, s')" "wq_rep me s' (remove1 i ?xs)"
    "links_touch me links (snd s')"
    using wq_remove_rep [OF rep(1)] by auto
  then have 3: "\<exists>w' links'. wq_remove me (w, links) i = Some (i \<in> set ?xs, (w', links')) \<and>
      wq_inv me (w', links') \<and> wq_list (w', links') = remove1 i ?xs \<and>
      wq_inv me2 (v, links') \<and> wq_list (v, links') = ?ys"
    using other [of "snd s'"] by (cases s') (simp add: wq_rep_inv)
  show ?thesis by (intro conjI 1 2 3)
qed

theorem wait_queues_separate_witness:
  "let links = (\<lambda>_. None)(3 \<mapsto> WAIT_LINK_NONE, 5 \<mapsto> \<lparr>wl_next = thread_none, wl_prev = thread_none, wl_on = 96\<rparr>);
       v = \<lparr>wq_head = 5, wq_tail = 5, wq_len = 1\<rparr>
   in \<exists>w' links'. wq_enqueue 64 (wq_new, links) 3 = Some (w', links') \<and>
      wq_list (w', links') = [3] \<and> wq_inv 96 (v, links') \<and> wq_list (v, links') = [5]"
proof -
  let ?links = "(\<lambda>_. None)(3 \<mapsto> WAIT_LINK_NONE, 5 \<mapsto> \<lparr>wl_next = thread_none, wl_prev = thread_none, wl_on = 96\<rparr>)"
  let ?v = "\<lparr>wq_head = 5, wq_tail = 5, wq_len = 1\<rparr>"
  have "wq_rep 64 (wq_new, ?links) []"
    by (rule wq_new_rep) (auto simp: wq_contains_def WAIT_LINK_NONE_def)
  moreover have "wq_rep 96 (?v, ?links) [5]"
    by (auto simp: wq_rep_def wq_contains_def WAIT_LINK_NONE_def wl_nx_def wl_pv_def thread_none_def)
  moreover have "wq_free (wq_new, ?links) 3"
    by (simp add: wq_free_def WAIT_LINK_NONE_def thread_none_def)
  ultimately show ?thesis
    using wait_queues_separate [of 64 wq_new ?links 96 ?v 3 3] unfolding wq_rep_inv Let_def by auto
qed

text \<open>
  C29: Waking every waiter, when the run queue has room for them, returns how many there were,
  empties the wait queue, appends the waiters to the run queue in the order they blocked, and
  takes exactly their deadlines out of the timeout list.
\<close>

theorem wake_all_correct:
  assumes "wq_inv me w" "rq_inv q" "tq_inv t" "set (wq_list w) \<inter> set (rq_list q) = {}"
    "length (rq_list q) + length (wq_list w) \<le> rq_capacity q"
  shows "\<exists>w' q' t'. wake_all (w, q, t) 0 = Some (length (wq_list w), (w', q', t')) \<and>
    wq_inv me w' \<and> wq_list w' = [] \<and> rq_inv q' \<and> rq_list q' = rq_list q @ wq_list w \<and>
    tq_inv t' \<and> tq_map t' = tq_map t |` (- set (wq_list w))"
proof -
  have f: "filter (\<lambda>x. x \<notin> set (rq_list q)) (wq_list w) = wq_list w"
    using assms(4) by (auto simp: filter_id_conv)
  from wake_all_rep [of me w "wq_list w" q t 0] assms show ?thesis
    unfolding f wq_rep_inv by fastforce
qed

theorem wake_all_correct_witness:
  "let links = (\<lambda>_. None)(3 \<mapsto> \<lparr>wl_next = 5, wl_prev = thread_none, wl_on = 64\<rparr>,
                          5 \<mapsto> \<lparr>wl_next = thread_none, wl_prev = 3, wl_on = 64\<rparr>);
       w = \<lparr>wq_head = 3, wq_tail = 5, wq_len = 2\<rparr>;
       q = \<lparr>rq_ids = 0, rq_cap = 3, rq_head = 2, rq_len = 1, rq_buf = [thread_none, thread_none, 7]\<rparr>;
       t = \<lparr>tq_items = [\<lparr>to_id = 5, to_deadline = 10\<rparr>], tq_len = 1\<rparr>
   in \<exists>w' q' t'. wake_all ((w, links), q, t) 0 = Some (2, (w', q', t')) \<and> rq_list q' = [7, 3, 5] \<and>
        tq_map t' = Map.empty"
proof -
  let ?links = "(\<lambda>_. None)(3 \<mapsto> \<lparr>wl_next = 5, wl_prev = thread_none, wl_on = 64\<rparr>,
                          5 \<mapsto> \<lparr>wl_next = thread_none, wl_prev = 3, wl_on = 64\<rparr>)"
  let ?w = "\<lparr>wq_head = 3, wq_tail = 5, wq_len = 2\<rparr>"
  let ?q = "\<lparr>rq_ids = 0, rq_cap = 3, rq_head = 2, rq_len = 1, rq_buf = [thread_none, thread_none, 7]\<rparr>"
  let ?t = "\<lparr>tq_items = [\<lparr>to_id = 5, to_deadline = 10\<rparr>], tq_len = 1\<rparr>"
  have "wq_rep 64 (?w, ?links) [3, 5]"
    by (auto simp: wq_rep_def wq_contains_def wl_nx_def wl_pv_def thread_none_def)
  then have w: "wq_inv 64 (?w, ?links)" "wq_list (?w, ?links) = [3, 5]" by (simp_all add: wq_rep_inv)
  have l: "rq_list ?q = [7]" by (simp add: rq_list_def ring_list_def)
  then have q: "rq_inv ?q" by (simp add: rq_inv_def thread_none_def)
  have t: "tq_inv ?t" "tq_map ?t = [5 \<mapsto> 10]"
    by (simp_all add: tq_inv_def tq_list_def tq_map_def thread_none_def)
  have "[5 \<mapsto> 10] |` (- set [3, 5]) = Map.empty" by (simp add: restrict_map_def fun_eq_iff)
  moreover have "length (wq_list (?w, ?links)) = 2" using w(2) by simp
  ultimately have "\<exists>w' q' t'. wake_all ((?w, ?links), ?q, ?t) 0 = Some (2, (w', q', t')) \<and>
      rq_list q' = [7, 3, 5] \<and> tq_map t' = Map.empty"
    using wake_all_correct [of 64 "(?w, ?links)" ?q ?t] w l q t by (auto simp: rq_capacity_def)
  then show ?thesis unfolding Let_def .
qed

section \<open>Locks and channels\<close>

inductive rw_step :: "rwlock_model \<Rightarrow> rwlock_model \<Rightarrow> bool" where
  read: "try_read rw = Some (b, rw') \<Longrightarrow> rw_step rw rw'"
| writing: "try_write rw tid = (b, rw') \<Longrightarrow> rw_step rw rw'"
| unread: "drop_read rw = Some rw' \<Longrightarrow> rw_step rw rw'"
| unwrite: "rw_step rw (drop_write rw)"
| queues: "rw_step rw (rw\<lparr>rw_read_wq := r, rw_write_wq := w\<rparr>)"

text \<open>
  C30: From a new reader-writer lock, after any sequence of attempts to read or write, of
  releases and of changes to its wait queues, a writer holds the lock only when no reader
  does; and what a queued writer's timeout says to wake can then proceed: the readers, since
  an attempt to read succeeds, or the next writer, since an attempt to write succeeds.
\<close>

theorem rwlock_exclusion:
  assumes "rw_step\<^sup>*\<^sup>* rwlock_new rw"
  shows "(rw_writer rw \<noteq> thread_none \<longrightarrow> rw_readers rw = 0) \<and>
    (after_writer_wait_timeout rw = Readers \<and> rw_readers rw + 1 < 2 ^ 32 \<longrightarrow>
       (\<exists>rw'. try_read rw = Some (True, rw') \<and> rw_readers rw' = rw_readers rw + 1)) \<and>
    (after_writer_wait_timeout rw = NextWriter \<longrightarrow> try_write rw tid = (True, rw\<lparr>rw_writer := tid\<rparr>))"
proof -
  have "rw_writer rw \<noteq> thread_none \<longrightarrow> rw_readers rw = 0"
    using assms
  proof induction
    case base
    show ?case by (simp add: rwlock_new_def)
  next
    case (step rw1 rw2)
    from step(2,3) show ?case
      by (cases rule: rw_step.cases)
        (auto simp: try_read_def try_write_def drop_read_def drop_write_def split: if_splits)
  qed
  then show ?thesis
    by (auto simp: after_writer_wait_timeout_def try_read_def try_write_def split: bool.splits)
qed

theorem rwlock_exclusion_witness:
  "rw_writer (snd (try_write rwlock_new 3)) = 3 \<and> rw_readers (snd (try_write rwlock_new 3)) = 0"
proof -
  have "rw_step\<^sup>*\<^sup>* rwlock_new (snd (try_write rwlock_new 3))"
    by (rule r_into_rtranclp) (auto intro: rw_step.writing [where b = True and tid = 3] simp: try_write_def rwlock_new_def)
  from rwlock_exclusion [OF this, of 0] show ?thesis
    by (simp add: try_write_def rwlock_new_def thread_none_def)
qed

text \<open>
  C31: A bounded channel is first in, first out: sending values to a channel with room for them
  succeeds, and receiving then returns what it held and the sent values, in order, and empties
  it; a send to a full channel hands the value back and changes nothing; and dropping a channel
  drops exactly the values it holds.
\<close>

theorem channel_fifo:
  assumes "ch_inv c" "ch_len c + length vs \<le> length (ch_slots c)"
  shows "\<exists>c' c''. push_all ch_push c vs = Some c' \<and> ch_list c' = ch_list c @ vs \<and>
    pop_n try_recv (ch_len c + length vs) c' = Some (ch_list c @ vs, c'') \<and> ch_list c'' = [] \<and>
    ch_drop c' = Some (ch_list c @ vs) \<and>
    (ch_len c' = length (ch_slots c) \<longrightarrow> try_send c' v = Some (Inl v, c'))"
proof -
  have "\<exists>c'. push_all ch_push c vs = Some c' \<and> ch_inv c' \<and> ch_list c' = ch_list c @ vs \<and>
      length (ch_slots c') = length (ch_slots c)"
    using assms
  proof (induction vs arbitrary: c)
    case Nil
    then show ?case by simp
  next
    case (Cons v vs)
    then have "\<not> ch_is_full c" by (simp add: ch_is_full_def)
    then obtain d where d: "try_send c v = Some (Inr (), d)" "ch_inv d" "ch_list d = ch_list c @ [v]"
      "length (ch_slots d) = length (ch_slots c)"
      by (rule try_send_room [OF Cons.prems(1)])
    then have "ch_len d = Suc (ch_len c)" by (metis length_append_singleton length_ch_list)
    with Cons.IH [of d] Cons.prems d show ?case by (simp add: ch_push_def)
  qed
  then obtain c' where c': "push_all ch_push c vs = Some c'" "ch_inv c'" "ch_list c' = ch_list c @ vs"
    "length (ch_slots c') = length (ch_slots c)" by blast
  then have n: "ch_len c' = ch_len c + length vs" by (metis length_append length_ch_list)
  obtain c'' where "pop_n try_recv (ch_len c + length vs) c' = Some (ch_list c @ vs, c'')" "ch_list c'' = []"
    using ch.pop_n_prefix [OF c'(2), of "ch_len c + length vs"] c'(3) n by auto
  with c' n ch_drop_list [OF c'(2)] try_send_full [of c' v] show ?thesis by (simp add: ch_is_full_def)
qed

theorem channel_fifo_witness:
  "\<exists>c. ch_new 2 = Some c \<and> (\<exists>c'. push_all ch_push c [True, False] = Some c' \<and>
     ch_drop c' = Some [True, False] \<and> try_send c' True = Some (Inl True, c'))"
proof -
  obtain c :: "bool channel_model" where c: "ch_new 2 = Some c" "ch_inv c" "ch_list c = []" "length (ch_slots c) = 2"
    using ch_new_inv [of 2] by auto
  moreover have "ch_len c = 0" using c(3) by (metis length_ch_list list.size(3))
  ultimately obtain c' where "push_all ch_push c [True, False] = Some c'" "ch_list c' = [True, False]"
    "ch_drop c' = Some [True, False]" "ch_len c' = 2 \<longrightarrow> try_send c' True = Some (Inl True, c')"
    using channel_fifo [of c "[True, False]" True] by auto
  moreover from this(2) have "ch_len c' = 2" by (metis length_ch_list length_Cons list.size(3) numeral_2_eq_2)
  ultimately show ?thesis using c(1) by blast
qed

end
