(* ===== verification/Pid_Alloc.thy ===== *)
theory Pid_Alloc
  imports Prelude
begin

text \<open>
  The allocator of process and thread ids, \<open>PidAlloc\<close> of
  \<open>crates/core/src/proc/pid.rs\<close>: a bitmap of the ids in use, scanned a 64-bit word at a
  time, beside a table of use counts. Ids and counts are natural numbers; the guards of the code keep
  a count within a \<open>u8\<close>, which the invariant states. The abstraction is the function from an id to
  its number of uses.
\<close>

definition PID_MAX :: nat where "PID_MAX = 32768"

definition PID_WRAP :: nat where "PID_WRAP = 300"

definition PID_WORDS :: nat where "PID_WORDS = (PID_MAX + 63) div 64"

record pid_alloc =
  pa_used :: "u64 list"
  pa_uses :: "nat list"
  pa_last :: nat
  pa_pid_max :: nat

definition pa_new :: "nat \<Rightarrow> pid_alloc" where
  "pa_new pid_max =
     \<lparr>pa_used = replicate PID_WORDS 0, pa_uses = replicate PID_MAX 0, pa_last = 0,
      pa_pid_max = (if pid_max \<le> PID_WRAP then PID_WRAP + 1
        else if pid_max > PID_MAX then PID_MAX else pid_max)\<rparr>"

text \<open>\<open>u64::trailing_zeros\<close>: the position of the lowest set bit, 64 for zero.\<close>

definition trailing_zeros :: "u64 \<Rightarrow> nat" where
  "trailing_zeros w = length (takeWhile (\<lambda>i. \<not> bit w i) [0..<64])"

function find_free_from :: "u64 list \<Rightarrow> nat \<Rightarrow> nat \<Rightarrow> nat option" where
  "find_free_from used hi i =
     (if i < hi then
        (case get_opt used (i div 64) of
           None \<Rightarrow> None
         | Some w \<Rightarrow>
             (let free = NOT (w OR (push_bit (i mod 64) 1 - 1)) in
              if free \<noteq> 0 then
                (let found = (i div 64) * 64 + trailing_zeros free in
                 if found < hi then Some found else None)
              else find_free_from used hi ((i div 64 + 1) * 64)))
      else None)"
  by pat_completeness auto
termination
proof (relation "measure (\<lambda>(used, hi, i). hi - i)")
  fix used :: "u64 list" and hi i :: nat assume "i < hi"
  moreover have "i < (i div 64 + 1) * 64" by presburger
  ultimately show "((used, hi, (i div 64 + 1) * 64), (used, hi, i)) \<in> measure (\<lambda>(used, hi, i). hi - i)" by simp
qed simp

declare find_free_from.simps [simp del]

definition find_free :: "pid_alloc \<Rightarrow> nat \<Rightarrow> nat \<Rightarrow> nat option" where
  "find_free p lo hi = find_free_from (pa_used p) hi (max lo 1)"

definition pa_mark :: "pid_alloc \<Rightarrow> nat \<Rightarrow> pid_alloc" where
  "pa_mark p i = p\<lparr>
     pa_uses := (if i < length (pa_uses p) then (pa_uses p)[i := 1] else pa_uses p),
     pa_used := (if i div 64 < length (pa_used p)
       then (pa_used p)[i div 64 := pa_used p ! (i div 64) OR push_bit (i mod 64) 1] else pa_used p)\<rparr>"

definition pa_alloc :: "pid_alloc \<Rightarrow> nat option \<times> pid_alloc" where
  "pa_alloc p =
     (let start = min (pa_last p + 1) (2 ^ 32 - 1) in
      case (case find_free p start (pa_pid_max p) of
              Some i \<Rightarrow> Some i
            | None \<Rightarrow> find_free p PID_WRAP (min start (pa_pid_max p))) of
        None \<Rightarrow> (None, p)
      | Some i \<Rightarrow> (Some i, pa_mark (p\<lparr>pa_last := i\<rparr>) i))"

definition pa_hold :: "pid_alloc \<Rightarrow> nat \<Rightarrow> bool \<times> pid_alloc" where
  "pa_hold p i =
     (if i = 0 \<or> i \<ge> pa_pid_max p then (False, p)
      else case get_opt (pa_uses p) i of
        None \<Rightarrow> (False, p)
      | Some n \<Rightarrow>
          if n = 255 then (False, p)
          else if n = 0 then (True, pa_mark p i)
          else (True, p\<lparr>pa_uses := (pa_uses p)[i := n + 1]\<rparr>))"

definition pa_free :: "pid_alloc \<Rightarrow> nat \<Rightarrow> bool \<times> pid_alloc" where
  "pa_free p i =
     (case get_opt (pa_uses p) i of
        None \<Rightarrow> (False, p)
      | Some n \<Rightarrow>
          if n = 0 then (False, p)
          else
            (let p' = p\<lparr>pa_uses := (pa_uses p)[i := n - 1]\<rparr> in
             if n - 1 = 0 \<and> i div 64 < length (pa_used p)
             then (True, p'\<lparr>pa_used := (pa_used p)[i div 64 := pa_used p ! (i div 64) AND NOT (push_bit (i mod 64) 1)]\<rparr>)
             else (True, p')))"

definition pa_in_use :: "pid_alloc \<Rightarrow> nat \<Rightarrow> bool" where
  "pa_in_use p i = (case get_opt (pa_uses p) i of None \<Rightarrow> False | Some n \<Rightarrow> n > 0)"

section \<open>The bitmap and the counts agree\<close>

definition pa_bit :: "u64 list \<Rightarrow> nat \<Rightarrow> bool" where
  "pa_bit used i \<longleftrightarrow> bit (used ! (i div 64)) (i mod 64)"

definition pa_count :: "pid_alloc \<Rightarrow> nat \<Rightarrow> nat" where
  "pa_count p i = (case get_opt (pa_uses p) i of None \<Rightarrow> 0 | Some n \<Rightarrow> n)"

definition pa_inv :: "pid_alloc \<Rightarrow> bool" where
  "pa_inv p \<longleftrightarrow> length (pa_used p) = PID_WORDS \<and> length (pa_uses p) = PID_MAX \<and>
     PID_WRAP < pa_pid_max p \<and> pa_pid_max p \<le> PID_MAX \<and> pa_last p < pa_pid_max p \<and>
     (\<forall>i < PID_MAX. (pa_bit (pa_used p) i \<longleftrightarrow> 0 < pa_count p i) \<and> pa_count p i \<le> 255)"

lemma word_index_lt: "i < PID_MAX \<Longrightarrow> i div 64 < PID_WORDS"
  by (simp add: PID_MAX_def PID_WORDS_def)

lemma pa_count_nth: "pa_inv p \<Longrightarrow> i < PID_MAX \<Longrightarrow> pa_count p i = pa_uses p ! i"
  by (simp add: pa_inv_def pa_count_def get_opt_def)

lemma pa_invD:
  assumes "pa_inv p"
  shows "length (pa_used p) = PID_WORDS" "length (pa_uses p) = PID_MAX" "PID_WRAP < pa_pid_max p"
    "pa_pid_max p \<le> PID_MAX" "pa_last p < pa_pid_max p"
    "i < PID_MAX \<Longrightarrow> pa_bit (pa_used p) i \<longleftrightarrow> 0 < pa_count p i" "i < PID_MAX \<Longrightarrow> pa_count p i \<le> 255"
  using assms unfolding pa_inv_def by blast+

text \<open>The word with its bits below \<open>k\<close> counted as used: the free bits from \<open>k\<close> on.\<close>

lemma bit_low_mask: "k < 64 \<Longrightarrow> bit (2 ^ k - 1 :: u64) j \<longleftrightarrow> j < k"
  by (auto simp: mask_eq_exp_minus_1 [symmetric] bit_simps)

lemma free_bits:
  assumes "k < 64"
  shows "bit (NOT (w OR (push_bit k 1 - 1)) :: u64) j \<longleftrightarrow> j < 64 \<and> k \<le> j \<and> \<not> bit w j"
  using assms by (auto simp: bit_simps bit_low_mask not_less)

lemma trailing_zeros_least:
  assumes "w \<noteq> 0"
  shows "bit w (trailing_zeros w)" "j < trailing_zeros w \<Longrightarrow> \<not> bit w j" "trailing_zeros w < 64"
proof -
  obtain b where b: "bit w b" using assms by (auto simp: bit_eq_iff)
  then have lt: "b < 64" using bit_imp_le_length by fastforce
  let ?P = "\<lambda>i. \<not> bit w i"
  have "length (takeWhile ?P [0..<64]) < length [0..<64 :: nat]"
    using takeWhile_shorter [of b "[0..<64]" ?P] b lt by simp
  then show t: "trailing_zeros w < 64" by (simp add: trailing_zeros_def)
  show "bit w (trailing_zeros w)"
    using nth_length_takeWhile [of ?P "[0..<64]"] t by (simp add: trailing_zeros_def)
  show "\<not> bit w j" if "j < trailing_zeros w"
    using takeWhile_nth [of j ?P "[0..<64]"] nth_mem [of j "takeWhile ?P [0..<64]"] that t
    by (auto simp: trailing_zeros_def dest: set_takeWhileD)
qed

text \<open>The scan finds the lowest id of the range whose bit is clear.\<close>

lemma find_free_from_spec:
  assumes "hi \<le> 64 * length used"
  shows "case find_free_from used hi i of
      None \<Rightarrow> \<forall>j. i \<le> j \<and> j < hi \<longrightarrow> pa_bit used j
    | Some f \<Rightarrow> i \<le> f \<and> f < hi \<and> \<not> pa_bit used f \<and> (\<forall>j. i \<le> j \<and> j < f \<longrightarrow> pa_bit used j)"
  using assms
proof (induction used hi i rule: find_free_from.induct)
  case (1 used hi i)
  show ?case
  proof (cases "i < hi")
    case False
    then show ?thesis by (auto simp: find_free_from.simps [of used hi i])
  next
    case True
    let ?w = "used ! (i div 64)" and ?b = "(i div 64) * 64"
    let ?free = "NOT (?w OR (push_bit (i mod 64) 1 - 1)) :: u64"
    have g: "get_opt used (i div 64) = Some ?w" using True 1(2) by (simp add: get_opt_def)
    have i: "i = ?b + i mod 64" by simp
    have word: "pa_bit used j \<longleftrightarrow> bit ?w (j - ?b)" if "?b \<le> j" "j < ?b + 64" for j
    proof -
      have "j div 64 = i div 64" using that by (simp add: div_nat_eqI)
      moreover from this have "j mod 64 = j - ?b" by (metis minus_div_mult_eq_mod)
      ultimately show ?thesis by (simp add: pa_bit_def)
    qed
    show ?thesis
    proof (cases "?free = 0")
      case False
      let ?t = "trailing_zeros ?free"
      have t: "?t < 64" "i mod 64 \<le> ?t" "\<not> bit ?w ?t" "\<And>j. j < ?t \<Longrightarrow> i mod 64 \<le> j \<Longrightarrow> bit ?w j"
        using trailing_zeros_least [OF False] free_bits [of "i mod 64" ?w] by fastforce+
      have clear: "\<not> pa_bit used (?b + ?t)" using word [of "?b + ?t"] t by simp
      have below: "pa_bit used j" if "i \<le> j" "j < ?b + ?t" for j
      proof -
        have "?b \<le> j" "j < ?b + 64" "i mod 64 \<le> j - ?b" "j - ?b < ?t" using that i t(1) by linarith+
        then show ?thesis using word t(4) by blast
      qed
      have "find_free_from used hi i = (if ?b + ?t < hi then Some (?b + ?t) else None)"
        using True g False by (simp add: find_free_from.simps [of used hi i] Let_def)
      moreover have "i \<le> ?b + ?t" using t(2) i by linarith
      ultimately show ?thesis using clear below by (simp add: not_less del: bit_not_iff)
    next
      case free0: True
      have full: "pa_bit used j" if "i \<le> j" "j < ?b + 64" for j
      proof -
        have "?b \<le> j" "i mod 64 \<le> j - ?b" "j - ?b < 64" using that i by linarith+
        moreover have "\<not> bit ?free (j - ?b)" unfolding free0 by simp
        ultimately show ?thesis using free_bits [of "i mod 64" ?w "j - ?b"] word [of j] that(2) by simp
      qed
      have e: "find_free_from used hi i = find_free_from used hi ((i div 64 + 1) * 64)"
        using True g free0 by (simp add: find_free_from.simps [of used hi i] Let_def)
      have next_b: "(i div 64 + 1) * 64 = ?b + 64" by simp
      have "case find_free_from used hi (?b + 64) of
          None \<Rightarrow> \<forall>j. ?b + 64 \<le> j \<and> j < hi \<longrightarrow> pa_bit used j
        | Some f \<Rightarrow> ?b + 64 \<le> f \<and> f < hi \<and> \<not> pa_bit used f \<and> (\<forall>j. ?b + 64 \<le> j \<and> j < f \<longrightarrow> pa_bit used j)"
        using 1(1) [OF True g refl] free0 1(2) unfolding next_b by simp
      moreover have "i \<le> ?b + 64" using i by linarith
      ultimately show ?thesis unfolding e next_b using full by (auto split: option.splits) (meson not_less)+
    qed
  qed
qed

text \<open>Setting and clearing one bit.\<close>

lemma pa_bit_set:
  assumes "i div 64 < length used"
  shows "pa_bit (used[i div 64 := used ! (i div 64) OR push_bit (i mod 64) 1]) j \<longleftrightarrow> j = i \<or> pa_bit used j"
proof (cases "j div 64 = i div 64")
  case True
  have "j = i \<longleftrightarrow> j mod 64 = i mod 64" using True by (metis div_mult_mod_eq)
  moreover have "j mod 64 < 64" "i mod 64 < 64" by simp_all
  ultimately show ?thesis using True assms by (auto simp: pa_bit_def bit_simps)
next
  case False
  then show ?thesis using assms by (auto simp: pa_bit_def)
qed

lemma pa_bit_clear:
  assumes "i div 64 < length used"
  shows "pa_bit (used[i div 64 := used ! (i div 64) AND NOT (push_bit (i mod 64) 1)]) j \<longleftrightarrow> j \<noteq> i \<and> pa_bit used j"
proof (cases "j div 64 = i div 64")
  case True
  have "j = i \<longleftrightarrow> j mod 64 = i mod 64" using True by (metis div_mult_mod_eq)
  moreover have "j mod 64 < 64" "i mod 64 < 64" by simp_all
  ultimately show ?thesis using True assms by (auto simp: pa_bit_def bit_simps)
next
  case False
  then show ?thesis using assms by (auto simp: pa_bit_def)
qed

lemma pa_mark_spec:
  assumes "pa_inv p" "i < PID_MAX"
  shows "pa_inv (pa_mark p i)" "pa_count (pa_mark p i) = (pa_count p)(i := 1)"
    "pa_pid_max (pa_mark p i) = pa_pid_max p" "pa_last (pa_mark p i) = pa_last p"
proof -
  have w: "i div 64 < length (pa_used p)" and u: "i < length (pa_uses p)"
    using word_index_lt [OF assms(2)] pa_invD(1,2) [OF assms(1)] assms(2) by simp_all
  show c: "pa_count (pa_mark p i) = (pa_count p)(i := 1)"
    using u by (auto simp: fun_eq_iff pa_count_def pa_mark_def get_opt_def)
  have b: "pa_bit (pa_used (pa_mark p i)) j \<longleftrightarrow> j = i \<or> pa_bit (pa_used p) j" for j
    using pa_bit_set [OF w] w by (simp add: pa_mark_def)
  show "pa_inv (pa_mark p i)"
    unfolding pa_inv_def b c using pa_invD [OF assms(1)] by (auto simp: pa_mark_def)
qed (simp_all add: pa_mark_def)

lemma pa_inv_last: "pa_inv p \<Longrightarrow> i < pa_pid_max p \<Longrightarrow> pa_inv (p\<lparr>pa_last := i\<rparr>)"
  by (simp add: pa_inv_def pa_count_def)

lemma find_free_spec:
  assumes "pa_inv p" "hi \<le> pa_pid_max p"
  shows "case find_free p lo hi of
      None \<Rightarrow> \<forall>j. max lo 1 \<le> j \<and> j < hi \<longrightarrow> 0 < pa_count p j
    | Some f \<Rightarrow> max lo 1 \<le> f \<and> f < hi \<and> pa_count p f = 0 \<and> (\<forall>j. max lo 1 \<le> j \<and> j < f \<longrightarrow> 0 < pa_count p j)"
proof -
  have "hi \<le> PID_MAX" using assms(2) pa_invD(4) [OF assms(1)] by simp
  then have "hi \<le> 64 * length (pa_used p)"
    using pa_invD(1) [OF assms(1)] by (simp add: PID_WORDS_def PID_MAX_def)
  moreover have "pa_bit (pa_used p) j \<longleftrightarrow> 0 < pa_count p j" if "j < hi" for j
    using pa_invD(6) [OF assms(1)] that \<open>hi \<le> PID_MAX\<close> by simp
  ultimately show ?thesis
    using find_free_from_spec [of hi "pa_used p" "max lo 1"] unfolding find_free_def
    by (auto split: option.splits)
qed

lemma pa_new_inv: "pa_inv (pa_new n)" "pa_count (pa_new n) i = 0"
proof -
  show c: "pa_count (pa_new n) i = 0" for i by (simp add: pa_count_def pa_new_def get_opt_def)
  have "\<not> pa_bit (pa_used (pa_new n)) i" if "i < PID_MAX" for i
    using word_index_lt [OF that] by (simp add: pa_bit_def pa_new_def)
  then show "pa_inv (pa_new n)"
    unfolding pa_inv_def c by (auto simp: pa_new_def PID_WRAP_def PID_MAX_def)
qed

text \<open>Which id an allocation hands out, and what the other operations do to the counts.\<close>

definition pa_start :: "pid_alloc \<Rightarrow> nat" where
  "pa_start p = pa_last p + 1"

lemma pa_alloc_Some:
  assumes "pa_inv p" "pa_alloc p = (Some i, p')"
  shows "0 < i" "i < pa_pid_max p" "pa_count p i = 0" "pa_count p' = (pa_count p)(i := 1)" "pa_inv p'"
    "pa_pid_max p' = pa_pid_max p" "pa_last p' = i"
    "i < pa_start p \<Longrightarrow> PID_WRAP \<le> i \<and> (\<forall>j. pa_start p \<le> j \<and> j < pa_pid_max p \<longrightarrow> 0 < pa_count p j)"
    "\<forall>j. (if i < pa_start p then PID_WRAP else pa_start p) \<le> j \<and> j < i \<longrightarrow> 0 < pa_count p j"
proof -
  let ?s = "pa_start p"
  have lt: "pa_last p < pa_pid_max p" "pa_pid_max p \<le> PID_MAX" using pa_invD(4,5) [OF assms(1)] by simp_all
  then have s: "min (pa_last p + 1) (2 ^ 32 - 1) = ?s" "max ?s 1 = ?s" "min ?s (pa_pid_max p) = ?s"
    by (simp_all add: PID_MAX_def pa_start_def)
  have w: "max PID_WRAP 1 = PID_WRAP" by (simp add: PID_WRAP_def)
  note hi = find_free_spec [OF assms(1) order_refl, of ?s, unfolded s]
  have lo: "case find_free p PID_WRAP ?s of
      None \<Rightarrow> \<forall>j. PID_WRAP \<le> j \<and> j < ?s \<longrightarrow> 0 < pa_count p j
    | Some f \<Rightarrow> PID_WRAP \<le> f \<and> f < ?s \<and> pa_count p f = 0 \<and> (\<forall>j. PID_WRAP \<le> j \<and> j < f \<longrightarrow> 0 < pa_count p j)"
    using find_free_spec [OF assms(1), of ?s PID_WRAP, unfolded w] lt by (simp add: pa_start_def)
  have p': "p' = pa_mark (p\<lparr>pa_last := i\<rparr>) i"
    and f: "find_free p ?s (pa_pid_max p) = Some i \<or>
      find_free p ?s (pa_pid_max p) = None \<and> find_free p PID_WRAP ?s = Some i"
    using assms(2) unfolding pa_alloc_def s Let_def by (auto split: option.splits)
  then have i: "0 < i \<and> i < pa_pid_max p \<and> pa_count p i = 0 \<and>
      (i < ?s \<longrightarrow> PID_WRAP \<le> i \<and> (\<forall>j. ?s \<le> j \<and> j < pa_pid_max p \<longrightarrow> 0 < pa_count p j)) \<and>
      (\<forall>j. (if i < ?s then PID_WRAP else ?s) \<le> j \<and> j < i \<longrightarrow> 0 < pa_count p j)"
    using hi lo lt by (auto simp: pa_start_def PID_WRAP_def split: option.splits)
  then show "0 < i" "i < pa_pid_max p" "pa_count p i = 0"
    "i < ?s \<Longrightarrow> PID_WRAP \<le> i \<and> (\<forall>j. ?s \<le> j \<and> j < pa_pid_max p \<longrightarrow> 0 < pa_count p j)"
    "\<forall>j. (if i < ?s then PID_WRAP else ?s) \<le> j \<and> j < i \<longrightarrow> 0 < pa_count p j"
    by blast+
  have "pa_inv (p\<lparr>pa_last := i\<rparr>)" "i < PID_MAX" using pa_inv_last [OF assms(1)] i lt by simp_all
  from pa_mark_spec [OF this] show "pa_inv p'" "pa_count p' = (pa_count p)(i := 1)"
    "pa_pid_max p' = pa_pid_max p" "pa_last p' = i"
    by (simp_all add: p' pa_count_def fun_eq_iff)
qed

lemma pa_alloc_None:
  assumes "pa_inv p" "pa_alloc p = (None, p')"
  shows "p' = p" "PID_WRAP \<le> j \<Longrightarrow> j < pa_pid_max p \<Longrightarrow> 0 < pa_count p j"
proof -
  let ?s = "pa_start p"
  have lt: "pa_last p < pa_pid_max p" "pa_pid_max p \<le> PID_MAX" using pa_invD(4,5) [OF assms(1)] by simp_all
  then have s: "min (pa_last p + 1) (2 ^ 32 - 1) = ?s" "max ?s 1 = ?s" "min ?s (pa_pid_max p) = ?s"
    by (simp_all add: PID_MAX_def pa_start_def)
  have w: "max PID_WRAP 1 = PID_WRAP" by (simp add: PID_WRAP_def)
  have n: "find_free p ?s (pa_pid_max p) = None" "find_free p PID_WRAP ?s = None"
    using assms(2) unfolding pa_alloc_def s Let_def by (auto split: option.splits)
  have "\<forall>j. ?s \<le> j \<and> j < pa_pid_max p \<longrightarrow> 0 < pa_count p j"
    using find_free_spec [OF assms(1) order_refl, of ?s, unfolded s] n(1) by simp
  moreover have "\<forall>j. PID_WRAP \<le> j \<and> j < ?s \<longrightarrow> 0 < pa_count p j"
    using find_free_spec [OF assms(1), of ?s PID_WRAP, unfolded w] lt n(2) by (simp add: pa_start_def)
  ultimately show "PID_WRAP \<le> j \<Longrightarrow> j < pa_pid_max p \<Longrightarrow> 0 < pa_count p j" by (meson not_less)
  show "p' = p" using assms(2) unfolding pa_alloc_def Let_def by (auto split: option.splits)
qed

lemma pa_hold_spec:
  assumes "pa_inv p"
  obtains p' where
    "pa_hold p i = (0 < i \<and> i < pa_pid_max p \<and> pa_count p i < 255, p')" "pa_inv p'"
    "pa_count p' = (if 0 < i \<and> i < pa_pid_max p \<and> pa_count p i < 255
       then (pa_count p)(i := pa_count p i + 1) else pa_count p)"
proof (cases "0 < i \<and> i < pa_pid_max p \<and> pa_count p i < 255")
  case False
  have "pa_hold p i = (False, p)"
  proof (cases "i = 0 \<or> i \<ge> pa_pid_max p")
    case True
    then show ?thesis by (simp add: pa_hold_def)
  next
    case in_range: False
    then have i: "i < PID_MAX" using pa_invD(4) [OF assms] by simp
    then have "pa_count p i = 255" using False in_range pa_invD(7) [OF assms i] by simp
    then show ?thesis using i pa_invD(2) [OF assms] by (simp add: pa_hold_def get_opt_def pa_count_def)
  qed
  with False assms show ?thesis by (intro that [of p]) auto
next
  case True
  then have i: "i < PID_MAX" using pa_invD(4) [OF assms] by simp
  have g: "get_opt (pa_uses p) i = Some (pa_count p i)"
    using i pa_invD(2) [OF assms] by (simp add: get_opt_def pa_count_def)
  show ?thesis
  proof (cases "pa_count p i = 0")
    case c: True
    with True g have "pa_hold p i = (True, pa_mark p i)" by (simp add: pa_hold_def)
    then show ?thesis using True c pa_mark_spec [OF assms i] by (intro that [of "pa_mark p i"]) auto
  next
    case c: False
    let ?p = "p\<lparr>pa_uses := (pa_uses p)[i := pa_count p i + 1]\<rparr>"
    have "pa_hold p i = (True, ?p)" using True g c by (simp add: pa_hold_def)
    moreover have n: "pa_count ?p = (pa_count p)(i := pa_count p i + 1)"
      using i pa_invD(2) [OF assms] by (auto simp: pa_count_def get_opt_def fun_eq_iff)
    moreover have "pa_inv ?p"
      unfolding pa_inv_def n using pa_invD [OF assms] True c by auto
    ultimately show ?thesis using True by (intro that [of ?p]) auto
  qed
qed

lemma pa_free_spec:
  assumes "pa_inv p"
  obtains p' where "pa_free p i = (0 < pa_count p i, p')" "pa_inv p'"
    "pa_count p' = (pa_count p)(i := pa_count p i - 1)"
proof (cases "0 < pa_count p i")
  case False
  then have "pa_free p i = (False, p)" by (auto simp: pa_free_def pa_count_def split: option.splits)
  with False assms show ?thesis by (intro that [of p]) (auto simp: fun_eq_iff)
next
  case True
  then have i: "i < PID_MAX"
    using pa_invD(2) [OF assms] by (auto simp: pa_count_def get_opt_def split: if_splits)
  have g: "get_opt (pa_uses p) i = Some (pa_count p i)"
    using i pa_invD(2) [OF assms] by (simp add: get_opt_def pa_count_def)
  have w: "i div 64 < length (pa_used p)" using word_index_lt [OF i] pa_invD(1) [OF assms] by simp
  let ?u = "(pa_uses p)[i := pa_count p i - 1]"
  let ?b = "(pa_used p)[i div 64 := pa_used p ! (i div 64) AND NOT (push_bit (i mod 64) 1)]"
  have n: "pa_count (p\<lparr>pa_uses := ?u, pa_used := b\<rparr>) = (pa_count p)(i := pa_count p i - 1)" for b
    using i pa_invD(2) [OF assms] by (auto simp: pa_count_def get_opt_def fun_eq_iff)
  show ?thesis
  proof (cases "pa_count p i = 1")
    case c: True
    have "pa_free p i = (True, p\<lparr>pa_uses := ?u, pa_used := ?b\<rparr>)" using c g w by (simp add: pa_free_def)
    moreover have "pa_inv (p\<lparr>pa_uses := ?u, pa_used := ?b\<rparr>)"
      unfolding pa_inv_def n using pa_invD [OF assms] c pa_bit_clear [OF w] by auto
    ultimately show ?thesis using True n by (intro that) auto
  next
    case c: False
    have "pa_free p i = (True, p\<lparr>pa_uses := ?u, pa_used := pa_used p\<rparr>)" using c True g by (simp add: pa_free_def)
    moreover have "pa_inv (p\<lparr>pa_uses := ?u, pa_used := pa_used p\<rparr>)"
      unfolding pa_inv_def n using pa_invD [OF assms] c True by (auto intro: order_trans [OF diff_le_self])
    ultimately show ?thesis using True n [of "pa_used p"] by (intro that) auto
  qed
qed

end
