(* ===== verification/Pid_Props.thy ===== *)
theory Pid_Props
  imports Pid_Alloc
begin

text \<open>
  The properties of the id allocator (\<^verbatim>\<open>crates/core/src/proc/pid.rs\<close>): which id an
  allocation hands out, and that over any history an id is handed out again only once every use of
  it is gone.
\<close>

text \<open>
  C26: An allocation hands out an id that has no use, the next one after the last id handed out:
  every id between is in use; past the maximum it wraps to the reserved floor, every id above the last one
  being in use. It fails only when every id from the floor on is in use. It gives the id one use and changes no
  other count.
\<close>

theorem pa_alloc_correct:
  assumes "pa_inv p"
  shows "case pa_alloc p of
      (None, p') \<Rightarrow> p' = p \<and> (\<forall>j. PID_WRAP \<le> j \<and> j < pa_pid_max p \<longrightarrow> 0 < pa_count p j)
    | (Some i, p') \<Rightarrow> 0 < i \<and> i < pa_pid_max p \<and> pa_count p i = 0 \<and>
        (if pa_last p < i then \<forall>j. pa_last p < j \<and> j < i \<longrightarrow> 0 < pa_count p j
         else (\<forall>j. pa_last p < j \<and> j < pa_pid_max p \<longrightarrow> 0 < pa_count p j) \<and>
           PID_WRAP \<le> i \<and> (\<forall>j. PID_WRAP \<le> j \<and> j < i \<longrightarrow> 0 < pa_count p j)) \<and>
        pa_inv p' \<and> pa_last p' = i \<and> pa_count p' = (pa_count p)(i := 1)"
proof -
  obtain r p' where r: "pa_alloc p = (r, p')" by (cases "pa_alloc p")
  show ?thesis
  proof (cases r)
    case None
    then show ?thesis using r pa_alloc_None [OF assms, of p'] by simp
  next
    case (Some i)
    then show ?thesis using r pa_alloc_Some [OF assms, of i p'] by (auto simp: pa_start_def Suc_le_eq not_less)
  qed
qed

theorem pa_alloc_correct_witness:
  "fst (pa_alloc (pa_new 1000)) = Some 1"
proof -
  obtain r p' where r: "pa_alloc (pa_new 1000) = (r, p')" by (cases "pa_alloc (pa_new 1000)")
  have max: "pa_pid_max (pa_new 1000) = 1000" "pa_last (pa_new 1000) = 0"
    by (simp_all add: pa_new_def PID_WRAP_def PID_MAX_def)
  note correct = pa_alloc_correct [OF pa_new_inv(1) [of 1000], unfolded r max pa_new_inv(2) PID_WRAP_def]
  show ?thesis
  proof (cases r)
    case None
    then show ?thesis using correct by (auto dest: spec [of _ 300])
  next
    case (Some i)
    then have "0 < i" "\<forall>j. j = 0 \<or> \<not> j < i" using correct by (simp_all split: if_splits)
    then have "i = 1" by (auto dest: spec [of _ 1])
    then show ?thesis using r Some by simp
  qed
qed

text \<open>
  A history of the allocator, with the carriers of each id counted beside it: \<open>h i\<close> is how
  many successful holds and allocations of \<open>i\<close> have not been freed.
\<close>

inductive pa_history :: "pid_alloc \<Rightarrow> (nat \<Rightarrow> nat) \<Rightarrow> bool" where
  start: "pa_history (pa_new n) (\<lambda>_. 0)"
| alloc: "pa_history p h \<Longrightarrow> pa_alloc p = (Some i, p') \<Longrightarrow> pa_history p' (h(i := h i + 1))"
| hold: "pa_history p h \<Longrightarrow> pa_hold p i = (True, p') \<Longrightarrow> pa_history p' (h(i := h i + 1))"
| free: "pa_history p h \<Longrightarrow> pa_free p i = (True, p') \<Longrightarrow> pa_history p' (h(i := h i - 1))"
| refused: "pa_history p h \<Longrightarrow>
    pa_alloc p = (None, p') \<or> pa_hold p i = (False, p') \<or> pa_free p i = (False, p') \<Longrightarrow> pa_history p' h"

text \<open>
  C25: Over any history of allocations, holds and frees from a new allocator, the count the allocator keeps for an id is
  exactly the number of its uses not yet freed, a refused operation changes nothing, and an id is handed out only
  when it has no use left.
\<close>

theorem pid_history_counts:
  assumes "pa_history p h"
  shows "pa_inv p \<and> pa_count p = h \<and> (\<forall>i p'. pa_alloc p = (Some i, p') \<longrightarrow> h i = 0)"
proof -
  have "pa_inv p \<and> pa_count p = h"
    using assms
  proof induction
    case (start n)
    show ?case using pa_new_inv [of n] by auto
  next
    case (alloc p h i p')
    then show ?case using pa_alloc_Some(3,4,5) [of p i p'] by auto
  next
    case (hold p h i p')
    then obtain q where "pa_hold p i = (0 < i \<and> i < pa_pid_max p \<and> pa_count p i < 255, q)" "pa_inv q"
      "pa_count q = (if 0 < i \<and> i < pa_pid_max p \<and> pa_count p i < 255
         then (pa_count p)(i := pa_count p i + 1) else pa_count p)"
      using pa_hold_spec by metis
    with hold show ?case by auto
  next
    case (free p h i p')
    then obtain q where "pa_free p i = (0 < pa_count p i, q)" "pa_inv q"
      "pa_count q = (pa_count p)(i := pa_count p i - 1)"
      using pa_free_spec by metis
    with free show ?case by auto
  next
    case (refused p h p' i)
    obtain q where q: "pa_hold p i = (0 < i \<and> i < pa_pid_max p \<and> pa_count p i < 255, q)" "pa_inv q"
      "pa_count q = (if 0 < i \<and> i < pa_pid_max p \<and> pa_count p i < 255
         then (pa_count p)(i := pa_count p i + 1) else pa_count p)"
      using pa_hold_spec refused.IH by metis
    obtain r where r: "pa_free p i = (0 < pa_count p i, r)" "pa_inv r"
      "pa_count r = (pa_count p)(i := pa_count p i - 1)"
      using pa_free_spec refused.IH by metis
    from refused.hyps(2) show ?case
    proof (elim disjE)
      assume "pa_alloc p = (None, p')"
      then show ?thesis using pa_alloc_None(1) refused.IH by blast
    next
      assume "pa_hold p i = (False, p')"
      then show ?thesis using q refused.IH by (auto split: if_splits)
    next
      assume "pa_free p i = (False, p')"
      then show ?thesis using r refused.IH by (auto simp: fun_eq_iff)
    qed
  qed
  then show ?thesis using pa_alloc_Some(3) by auto
qed

theorem pid_history_counts_witness:
  "\<exists>p p'. pa_history p (\<lambda>_. 0) \<and> pa_hold p 7 = (True, p') \<and> pa_history p' ((\<lambda>_. 0)(7 := 1)) \<and> pa_count p' 7 = 1"
proof -
  let ?p = "pa_new 1000"
  have h: "pa_history ?p (\<lambda>_. 0)" by (rule pa_history.start)
  have "pa_pid_max ?p = 1000" by (simp add: pa_new_def PID_WRAP_def PID_MAX_def)
  then obtain p' where p': "pa_hold ?p 7 = (True, p')"
    using pa_hold_spec [OF pa_new_inv(1), of 1000 7 thesis] unfolding pa_new_inv(2) by auto
  have "pa_history p' ((\<lambda>_. 0)(7 := 1))" using pa_history.hold [OF h p'] by simp
  moreover from pid_history_counts [OF this] have "pa_count p' 7 = 1" by simp
  ultimately show ?thesis using h p' by blast
qed

end
