(* ===== verification/Id_Index.thy ===== *)
theory Id_Index
  imports Queues Pid_Alloc
begin

text \<open>
  The fixed open-addressed table from ids to table slots, \<open>IdIndex\<close> of
  \<open>crates/core/src/proc/pid.rs\<close>: linear probing, with removal by backward shift. Its
  abstraction is a map from ids to slots. The invariant says that every entry can be reached from its home
  without crossing an empty place, and that the table can be cut open at some place
  such that no entry lies before its home; the second part is what makes removal right in a full table.
\<close>

section \<open>The interface of an id table\<close>

text \<open>Operations on a table of ids, in the order they run.\<close>

datatype id_op = Ins nat nat | Rem nat

locale id_table =
  fixes inv :: "'t \<Rightarrow> bool"
    and entries :: "'t \<Rightarrow> nat \<rightharpoonup> nat"
    and admit :: "'t \<Rightarrow> nat \<Rightarrow> nat \<Rightarrow> bool"
    and ins :: "'t \<Rightarrow> nat \<Rightarrow> nat \<Rightarrow> bool \<times> 't"
    and lookup :: "'t \<Rightarrow> nat \<Rightarrow> nat option"
    and rem :: "'t \<Rightarrow> nat \<Rightarrow> (nat option \<times> 't) option"
  assumes lookup: "inv t \<Longrightarrow> lookup t k = entries t k"
    and ins: "inv t \<Longrightarrow> \<exists>t'. ins t k v = (admit t k v, t') \<and> inv t' \<and>
      entries t' = (if admit t k v then (entries t)(k \<mapsto> v) else entries t)"
    and rem: "inv t \<Longrightarrow> \<exists>t'. rem t k = Some (entries t k, t') \<and> inv t' \<and> entries t' = (entries t)(k := None)"
begin

fun run :: "'t \<Rightarrow> id_op list \<Rightarrow> 't option" where
  "run t [] = Some t"
| "run t (Ins k v # ops) = run (snd (ins t k v)) ops"
| "run t (Rem k # ops) = (case rem t k of None \<Rightarrow> None | Some (_, t') \<Rightarrow> run t' ops)"

text \<open>
  What a client sees after any sequence of operations: a lookup is answered from the last operation that
  changed the key.
\<close>

lemma run_total: "inv t \<Longrightarrow> \<exists>t'. run t ops = Some t' \<and> inv t'"
proof (induction ops arbitrary: t)
  case (Cons op ops)
  show ?case
  proof (cases op)
    case (Ins k v)
    then show ?thesis using ins [OF Cons.prems, of k v] Cons.IH by auto
  next
    case (Rem k)
    then show ?thesis using rem [OF Cons.prems, of k] Cons.IH by auto
  qed
qed simp

lemma lookup_after_ins:
  assumes "inv t" "admit t k v"
  shows "lookup (snd (ins t k v)) k' = (if k' = k then Some v else lookup t k')"
  using ins [OF assms(1), of k v] assms by (auto simp: lookup)

lemma lookup_after_rem:
  assumes "inv t" "rem t k = Some (r, t')"
  shows "r = lookup t k" "lookup t' k' = (if k' = k then None else lookup t k')"
  using rem [OF assms(1), of k] assms by (auto simp: lookup)

end

section \<open>The table\<close>

definition EMPTY :: nat where "EMPTY = 2 ^ 32 - 1"

record id_index =
  ix_keys :: "nat list"
  ix_slots :: "nat list"
  ix_len :: nat

definition ix_new :: "nat \<Rightarrow> id_index" where
  "ix_new cap = \<lparr>ix_keys = replicate cap EMPTY, ix_slots = replicate cap 0, ix_len = 0\<rparr>"

definition ix_mask :: "id_index \<Rightarrow> nat" where
  "ix_mask t = length (ix_keys t) - 1"

definition ix_valid :: "nat \<Rightarrow> bool" where
  "ix_valid i \<longleftrightarrow> i \<noteq> EMPTY \<and> i < PID_MAX"

text \<open>The probe loops: \<open>n\<close> rounds are left, and \<open>i\<close> is the place looked at.\<close>

fun ix_probe :: "nat list \<Rightarrow> nat \<Rightarrow> nat \<Rightarrow> nat \<Rightarrow> nat option" where
  "ix_probe keys k 0 i = None"
| "ix_probe keys k (Suc n) i =
     (case get_opt keys i of
        None \<Rightarrow> None
      | Some x \<Rightarrow>
          if x = k then Some i
          else if x = EMPTY then None
          else ix_probe keys k n ((i + 1) AND (length keys - 1)))"

definition ix_find :: "id_index \<Rightarrow> nat \<Rightarrow> nat option" where
  "ix_find t k = ix_probe (ix_keys t) k (length (ix_keys t)) (k AND ix_mask t)"

fun ix_place :: "nat list \<Rightarrow> nat \<Rightarrow> nat \<Rightarrow> nat option" where
  "ix_place keys 0 i = None"
| "ix_place keys (Suc n) i =
     (if get_opt keys i = Some EMPTY then Some i else ix_place keys n ((i + 1) AND (length keys - 1)))"

definition ix_insert :: "id_index \<Rightarrow> nat \<Rightarrow> nat \<Rightarrow> bool \<times> id_index" where
  "ix_insert t k slot =
     (if \<not> ix_valid k then (False, t)
      else if slot \<ge> 2 ^ 16 then (False, t)
      else case ix_find t k of
        Some i \<Rightarrow> (True, t\<lparr>ix_slots := (ix_slots t)[i := slot]\<rparr>)
      | None \<Rightarrow>
          if ix_len t \<ge> length (ix_keys t) then (False, t)
          else case ix_place (ix_keys t) (length (ix_keys t)) (k AND ix_mask t) of
            None \<Rightarrow> (False, t)
          | Some i \<Rightarrow>
              if i < length (ix_slots t)
              then (True, \<lparr>ix_keys = (ix_keys t)[i := k], ix_slots = (ix_slots t)[i := slot], ix_len = ix_len t + 1\<rparr>)
              else (False, t))"

definition ix_get :: "id_index \<Rightarrow> nat \<Rightarrow> nat option" where
  "ix_get t k =
     (if \<not> ix_valid k then None
      else case ix_find t k of None \<Rightarrow> None | Some i \<Rightarrow> get_opt (ix_slots t) i)"

text \<open>
  The backward shift. The first component is False when a \<open>get\<close> in the loop was out of range, where the
  source returns \<open>None\<close> at once.
\<close>

primrec ix_shift :: "nat \<Rightarrow> nat list \<Rightarrow> nat list \<Rightarrow> nat \<Rightarrow> nat \<Rightarrow> bool \<times> nat list \<times> nat list \<times> nat" where
  "ix_shift 0 keys slots hole j = (True, keys, slots, hole)"
| "ix_shift (Suc n) keys slots hole j =
     (let mask = length keys - 1; j' = (j + 1) AND mask in
      case get_opt keys j' of
        None \<Rightarrow> (False, keys, slots, hole)
      | Some key \<Rightarrow>
          if key = EMPTY then (True, keys, slots, hole)
          else
            (let home = key AND mask;
                 from_home = wrapping_sub64 j' home AND mask;
                 from_hole = wrapping_sub64 j' hole AND mask in
             if from_home \<ge> from_hole then
               (case get_opt slots j' of
                  None \<Rightarrow> (False, keys, slots, hole)
                | Some s \<Rightarrow>
                    if hole < length keys \<and> hole < length slots
                    then ix_shift n (keys[hole := key]) (slots[hole := s]) j' j'
                    else ix_shift n keys slots j' j')
             else ix_shift n keys slots hole j'))"

definition ix_remove :: "id_index \<Rightarrow> nat \<Rightarrow> (nat option \<times> id_index) option" where
  "ix_remove t k =
     (if \<not> ix_valid k then Some (None, t)
      else case ix_find t k of
        None \<Rightarrow> Some (None, t)
      | Some hole \<Rightarrow>
          (case get_opt (ix_slots t) hole of
             None \<Rightarrow> Some (None, t)
           | Some slot \<Rightarrow>
               (case ix_shift (length (ix_keys t)) (ix_keys t) (ix_slots t) hole hole of
                  (False, keys, slots, _) \<Rightarrow> Some (None, t\<lparr>ix_keys := keys, ix_slots := slots\<rparr>)
                | (True, keys, slots, hole') \<Rightarrow> do {
                    n \<leftarrow> sub64 (ix_len t) 1;
                    Some (Some slot, \<lparr>ix_keys = keys[hole' := EMPTY], ix_slots = slots, ix_len = n\<rparr>) })))"

section \<open>Distances round the table\<close>

definition dist :: "nat \<Rightarrow> nat \<Rightarrow> nat \<Rightarrow> nat" where
  "dist C a b = (b + C - a) mod C"

lemma and_mask_mod: "n AND (2 ^ k - Suc 0) = n mod (2 ^ k :: nat)"
  by (simp add: take_bit_eq_mod [symmetric] take_bit_eq_mask mask_eq_exp_minus_1)

lemma dist_lt: "0 < C \<Longrightarrow> dist C a b < C"
  by (simp add: dist_def)

lemma dist_reach: "a < C \<Longrightarrow> b < C \<Longrightarrow> (a + dist C a b) mod C = b"
  by (simp add: dist_def mod_add_right_eq)

lemma dist_unique: "a < C \<Longrightarrow> t < C \<Longrightarrow> dist C a ((a + t) mod C) = t"
  using ring_index_inj [of a "dist C a ((a + t) mod C)" C t] dist_reach [of a C "(a + t) mod C"] dist_lt [of C a "(a + t) mod C"]
  by simp

lemma wrapping_dist:
  assumes "C = 2 ^ k" "k \<le> 64" "a < C" "b < C"
  shows "wrapping_sub64 b a AND (C - 1) = dist C a b"
proof -
  have "C dvd 2 ^ 64" unfolding assms(1) using assms(2) by (rule le_imp_power_dvd)
  then obtain m :: nat where m: "2 ^ 64 = C * m" by (elim dvdE)
  have "a \<le> C * m" using assms(3) m by (metis dvd_imp_le dvd_triv_left le_trans less_imp_le zero_less_numeral zero_less_power)
  have "0 < m" using m by (cases m) auto
  have e: "b + C * m - a = (b + C - a) + C * (m - 1)"
    using \<open>0 < m\<close> assms(3) by (cases m) (auto simp: algebra_simps)
  have "wrapping_sub64 b a mod C = (b + 2 ^ 64 - a) mod C"
    unfolding wrapping_sub64_def by (rule mod_mod_cancel [OF \<open>C dvd 2 ^ 64\<close>])
  also have "\<dots> = (b + C * m - a) mod C" unfolding m ..
  also have "\<dots> = dist C a b" unfolding e dist_def by simp
  finally show ?thesis by (simp add: assms(1) and_mask_mod)
qed

section \<open>The invariant\<close>

definition ix_entries :: "id_index \<Rightarrow> (nat \<times> nat) list" where
  "ix_entries t = filter (\<lambda>e. fst e \<noteq> EMPTY) (zip (ix_keys t) (ix_slots t))"

definition ix_map :: "id_index \<Rightarrow> nat \<rightharpoonup> nat" where
  "ix_map t = map_of (ix_entries t)"

text \<open>
  \<open>ix_linear s keys\<close>: read from the place \<open>s\<close> round to the place before it, no entry lies before its home, and the
  places from its home to it are taken. \<open>ix_home C s k\<close> is the home of \<open>k\<close> in that reading.
\<close>

definition ix_home :: "nat \<Rightarrow> nat \<Rightarrow> nat \<Rightarrow> nat" where
  "ix_home C s k = dist C s (k mod C)"

definition reach_ok :: "nat \<Rightarrow> nat \<Rightarrow> nat list \<Rightarrow> nat \<Rightarrow> bool" where
  "reach_ok C s R x \<longleftrightarrow> ix_home C s (R ! x) \<le> x \<and> (\<forall>z. ix_home C s (R ! x) \<le> z \<and> z \<le> x \<longrightarrow> R ! z \<noteq> EMPTY)"

definition ix_linear :: "nat \<Rightarrow> nat list \<Rightarrow> bool" where
  "ix_linear s keys \<longleftrightarrow> (let C = length keys; R = ring_list s C keys in
     \<forall>x < C. R ! x \<noteq> EMPTY \<longrightarrow> reach_ok C s R x)"

definition ix_inv :: "id_index \<Rightarrow> bool" where
  "ix_inv t \<longleftrightarrow> (\<exists>k \<le> 64. length (ix_keys t) = 2 ^ k) \<and> length (ix_slots t) = length (ix_keys t) \<and>
     distinct (map fst (ix_entries t)) \<and> ix_len t = length (ix_entries t) \<and>
     (\<forall>k \<in> set (ix_keys t). k \<noteq> EMPTY \<longrightarrow> ix_valid k) \<and>
     (\<exists>s < length (ix_keys t). ix_linear s (ix_keys t))"

lemma ix_invD:
  assumes "ix_inv t"
  obtains k s where "k \<le> 64" "length (ix_keys t) = 2 ^ k" "length (ix_slots t) = length (ix_keys t)"
    "distinct (map fst (ix_entries t))" "ix_len t = length (ix_entries t)"
    "\<forall>x \<in> set (ix_keys t). x \<noteq> EMPTY \<longrightarrow> ix_valid x"
    "s < length (ix_keys t)" "ix_linear s (ix_keys t)"
  using assms unfolding ix_inv_def by blast

lemma ix_entries_in:
  assumes "length (ix_slots t) = length (ix_keys t)"
  shows "(k, v) \<in> set (ix_entries t) \<longleftrightarrow> k \<noteq> EMPTY \<and> (\<exists>i < length (ix_keys t). ix_keys t ! i = k \<and> ix_slots t ! i = v)"
  using assms by (auto simp: ix_entries_def in_set_zip)

lemma map_of_eqI_set:
  assumes "distinct (map fst xs)" "distinct (map fst ys)" "set xs = set ys"
  shows "map_of xs = map_of ys"
  using assms by (intro ext) (metis map_of_eq_None_iff map_of_eq_Some_iff not_None_eq)

lemma map_fst_filter_zip:
  "length xs = length ys \<Longrightarrow> map fst (filter (\<lambda>e. P (fst e)) (zip xs ys)) = filter P xs"
  by (induction xs ys rule: list_induct2) auto

lemma ix_key_unique:
  assumes "ix_inv t" "i < length (ix_keys t)" "j < length (ix_keys t)" "ix_keys t ! i = ix_keys t ! j"
    "ix_keys t ! i \<noteq> EMPTY"
  shows "i = j"
proof (rule ccontr)
  assume ne: "i \<noteq> j"
  let ?k = "ix_keys t ! i"
  obtain d: "length (ix_slots t) = length (ix_keys t)" "distinct (map fst (ix_entries t))"
    using ix_invD [OF assms(1)] by metis
  have "map fst (ix_entries t) = filter (\<lambda>k. k \<noteq> EMPTY) (ix_keys t)"
    unfolding ix_entries_def by (rule map_fst_filter_zip) (use d(1) in simp)
  then have "distinct (filter (\<lambda>k. k \<noteq> EMPTY) (ix_keys t))" using d(2) by simp
  then have "count (mset (filter (\<lambda>k. k \<noteq> EMPTY) (ix_keys t))) ?k \<le> 1"
    by (simp add: distinct_count_atmost_1)
  moreover have "2 \<le> count (mset (ix_keys t)) ?k"
  proof -
    have "{i, j} \<subseteq> {n. n < length (ix_keys t) \<and> ?k = ix_keys t ! n}" using assms by auto
    then have "card {i, j} \<le> card {n. n < length (ix_keys t) \<and> ?k = ix_keys t ! n}" by (rule card_mono [rotated]) simp
    then show ?thesis using ne by (simp add: count_mset count_list_eq_length_filter length_filter_conv_card)
  qed
  ultimately show False using assms(5) by simp
qed

section \<open>Looking up\<close>

text \<open>
  A table read from \<open>s\<close>: the place \<open>x\<close> further on, and what the invariant says of its entry in terms of distances
  from its home.
\<close>

lemma ring_nth_dist:
  assumes "s < length keys" "j < length keys"
  shows "ring_list s (length keys) keys ! dist (length keys) s j = keys ! j"
  using assms dist_lt [OF le_less_trans [OF le0 assms(1)], of s j] dist_reach [of s "length keys" j] by simp

lemma ix_linear_path:
  assumes "ix_linear s keys" "s < length keys" "j < length keys" "keys ! j \<noteq> EMPTY"
    "t \<le> dist (length keys) (keys ! j mod length keys) j"
  shows "keys ! ((keys ! j mod length keys + t) mod length keys) \<noteq> EMPTY"
    and "dist (length keys) (keys ! j mod length keys) j \<le> dist (length keys) s j"
proof -
  let ?C = "length keys" and ?h = "keys ! j mod length keys"
  let ?R = "ring_list s ?C keys" and ?x = "dist ?C s j" and ?y = "dist ?C s ?h"
  have C: "0 < ?C" "?h < ?C" using assms(2) by (auto intro: mod_less_divisor)
  have x: "?x < ?C" "?y < ?C" using dist_lt [OF C(1)] by blast+
  have R: "?R ! ?x = keys ! j" by (rule ring_nth_dist [OF assms(2,3)])
  have ok: "?y \<le> ?x" "\<And>z. ?y \<le> z \<Longrightarrow> z \<le> ?x \<Longrightarrow> ?R ! z \<noteq> EMPTY"
    using assms(1,4) x R unfolding ix_linear_def reach_ok_def ix_home_def Let_def by metis+
  have h: "(s + ?y) mod ?C = ?h" "(s + ?x) mod ?C = j" using dist_reach assms(2,3) C(2) by auto
  have step: "(?h + t) mod ?C = (s + (?y + t)) mod ?C" for t
    using h(1) by (metis add.assoc mod_add_left_eq)
  have "(?h + (?x - ?y)) mod ?C = j" using step [of "?x - ?y"] ok(1) h(2) by simp
  then have d: "dist ?C ?h j = ?x - ?y" using dist_unique [OF C(2), of "?x - ?y"] x by auto
  then show "dist ?C ?h j \<le> ?x" by simp
  have "?y + t \<le> ?x" using assms(5) d ok(1) by linarith
  with ok(2) [of "?y + t"] x(1) show "keys ! ((?h + t) mod ?C) \<noteq> EMPTY" by (simp add: step)
qed

lemma ix_probe_hit:
  assumes "length keys = 2 ^ k" "a < length keys" "m < n"
    "\<And>t. t < m \<Longrightarrow> keys ! ((a + t) mod length keys) \<noteq> x \<and> keys ! ((a + t) mod length keys) \<noteq> EMPTY"
    "keys ! ((a + m) mod length keys) = x"
  shows "ix_probe keys x n a = Some ((a + m) mod length keys)"
  using assms(2-)
proof (induction m arbitrary: n a)
  case 0
  then obtain n' where "n = Suc n'" by (cases n) auto
  with 0 show ?case by (simp add: get_opt_def)
next
  case (Suc m)
  then obtain n' where n: "n = Suc n'" by (cases n) auto
  let ?a = "(a + 1) mod length keys"
  have C: "0 < length keys" using Suc.prems(1) by linarith
  have e: "(?a + t) mod length keys = (a + Suc t) mod length keys" for t
    by (simp add: mod_add_left_eq)
  have "ix_probe keys x n' ?a = Some ((?a + m) mod length keys)"
  proof (rule Suc.IH)
    show "m < n'" using Suc.prems(2) n by simp
    show "?a < length keys" using C by simp
    show "keys ! ((?a + m) mod length keys) = x" using Suc.prems(4) unfolding e .
    fix t assume "t < m"
    then show "keys ! ((?a + t) mod length keys) \<noteq> x \<and> keys ! ((?a + t) mod length keys) \<noteq> EMPTY"
      using Suc.prems(3) [of "Suc t"] unfolding e by simp
  qed
  moreover have "(a + 1) AND (length keys - 1) = ?a" by (simp add: assms(1) and_mask_mod)
  moreover have "keys ! a \<noteq> x" "keys ! a \<noteq> EMPTY" using Suc.prems(3) [of 0] Suc.prems(1) by simp_all
  ultimately show ?case using n Suc.prems(1) unfolding e by (simp add: get_opt_def)
qed

lemma ix_probe_Some: "ix_probe keys x n a = Some j \<Longrightarrow> j < length keys \<and> keys ! j = x"
  by (induction n arbitrary: a) (auto simp: get_opt_def split: if_splits option.splits)

lemma ix_find_iff:
  assumes "ix_inv t" "ix_valid x"
  shows "ix_find t x = Some j \<longleftrightarrow> j < length (ix_keys t) \<and> ix_keys t ! j = x"
proof
  assume "ix_find t x = Some j"
  then show "j < length (ix_keys t) \<and> ix_keys t ! j = x" unfolding ix_find_def by (rule ix_probe_Some)
next
  assume j: "j < length (ix_keys t) \<and> ix_keys t ! j = x"
  obtain k s where inv: "length (ix_keys t) = 2 ^ k" "s < length (ix_keys t)" "ix_linear s (ix_keys t)"
    by (rule ix_invD [OF assms(1)])
  let ?C = "length (ix_keys t)" and ?h = "x mod length (ix_keys t)"
  let ?m = "dist ?C ?h j"
  have ne: "x \<noteq> EMPTY" using assms(2) by (simp add: ix_valid_def)
  have C: "0 < ?C" "?h < ?C" using inv(2) by (auto intro: mod_less_divisor)
  have m: "?m < ?C" "(?h + ?m) mod ?C = j" using dist_lt [OF C(1)] dist_reach [OF C(2)] j by blast+
  have "ix_probe (ix_keys t) x ?C ?h = Some ((?h + ?m) mod ?C)"
  proof (rule ix_probe_hit [OF inv(1) C(2) m(1)])
    show "ix_keys t ! ((?h + ?m) mod ?C) = x" using m j by simp
    fix u assume u: "u < ?m"
    have full: "ix_keys t ! ((?h + u) mod ?C) \<noteq> EMPTY"
      using ix_linear_path(1) [OF inv(3,2), of j u] j ne u by simp
    moreover have "(?h + u) mod ?C \<noteq> j"
      using ring_index_inj [of ?h u ?C ?m] m u by auto
    moreover have "(?h + u) mod ?C < ?C" using C(1) by simp
    ultimately show "ix_keys t ! ((?h + u) mod ?C) \<noteq> x \<and> ix_keys t ! ((?h + u) mod ?C) \<noteq> EMPTY"
      using ix_key_unique [OF assms(1), of "(?h + u) mod ?C" j] j by auto
  qed
  then show "ix_find t x = Some j" using m inv(1) by (simp add: ix_find_def ix_mask_def and_mask_mod)
qed

lemma ix_map_iff:
  assumes "ix_inv t"
  shows "ix_map t k = Some v \<longleftrightarrow> k \<noteq> EMPTY \<and> (\<exists>i < length (ix_keys t). ix_keys t ! i = k \<and> ix_slots t ! i = v)"
proof -
  obtain d: "length (ix_slots t) = length (ix_keys t)" "distinct (map fst (ix_entries t))"
    using ix_invD [OF assms] by metis
  then show ?thesis unfolding ix_map_def using ix_entries_in [OF d(1)] by simp
qed

lemma ix_map_find:
  assumes "ix_inv t" "ix_valid k"
  shows "ix_map t k = (case ix_find t k of None \<Rightarrow> None | Some i \<Rightarrow> Some (ix_slots t ! i))"
proof (cases "ix_find t k")
  case None
  then have "ix_map t k \<noteq> Some v" for v
    using ix_map_iff [OF assms(1)] ix_find_iff [OF assms] by fastforce
  with None show ?thesis by (cases "ix_map t k") auto
next
  case (Some i)
  then show ?thesis
    using ix_map_iff [OF assms(1), of k] ix_find_iff [OF assms, of i] assms(2) by (auto simp: ix_valid_def)
qed

lemma ix_map_invalid:
  assumes "ix_inv t" "\<not> ix_valid k"
  shows "ix_map t k = None"
proof (rule ccontr)
  assume "ix_map t k \<noteq> None"
  then obtain v where "ix_map t k = Some v" by blast
  then obtain i where "i < length (ix_keys t)" "ix_keys t ! i = k" "k \<noteq> EMPTY"
    using ix_map_iff [OF assms(1)] by blast
  moreover have "\<And>x. x \<in> set (ix_keys t) \<Longrightarrow> x \<noteq> EMPTY \<Longrightarrow> ix_valid x"
    using assms(1) by (simp add: ix_inv_def)
  ultimately show False using assms(2) by (metis nth_mem)
qed

lemma ix_get_map: "ix_inv t \<Longrightarrow> ix_get t k = ix_map t k"
proof (cases "ix_valid k")
  case True
  assume inv: "ix_inv t"
  show ?thesis
  proof (cases "ix_find t k")
    case None
    then show ?thesis using ix_map_find [OF inv True] True by (simp add: ix_get_def)
  next
    case (Some i)
    then have "i < length (ix_slots t)"
      using ix_find_iff [OF inv True] inv by (simp add: ix_inv_def)
    then show ?thesis using ix_map_find [OF inv True] True Some by (simp add: ix_get_def get_opt_def)
  qed
next
  case False
  assume "ix_inv t"
  then show ?thesis using ix_map_invalid [OF _ False] False by (simp add: ix_get_def)
qed

section \<open>Inserting\<close>

lemma ix_place_probe:
  "length keys = 2 ^ k \<Longrightarrow> a < length keys \<Longrightarrow> ix_place keys n a = ix_probe keys EMPTY n a"
  by (induction n arbitrary: a) (auto simp: get_opt_def and_mask_mod)

lemma ix_linear_intro:
  assumes "s < length keys"
    and "\<And>j. j < length keys \<Longrightarrow> keys ! j \<noteq> EMPTY \<Longrightarrow>
      dist (length keys) (keys ! j mod length keys) j \<le> dist (length keys) s j \<and>
      (\<forall>t \<le> dist (length keys) (keys ! j mod length keys) j.
         keys ! ((keys ! j mod length keys + t) mod length keys) \<noteq> EMPTY)"
  shows "ix_linear s keys"
  unfolding ix_linear_def Let_def
proof (intro allI impI)
  let ?C = "length keys"
  let ?R = "ring_list s ?C keys"
  fix x assume x: "x < ?C" "?R ! x \<noteq> EMPTY"
  let ?j = "(s + x) mod ?C" and ?h = "?R ! x mod ?C"
  let ?d = "dist ?C ?h ?j" and ?y = "dist ?C s ?h"
  have C: "0 < ?C" "?h < ?C" "?j < ?C" using assms(1) by (auto intro: mod_less_divisor)
  have R: "?R ! x = keys ! ?j" using x(1) by simp
  have dj: "dist ?C s ?j = x" using dist_unique [OF assms(1) x(1)] .
  have path: "?d \<le> x" "\<And>t. t \<le> ?d \<Longrightarrow> keys ! ((?h + t) mod ?C) \<noteq> EMPTY"
    using assms(2) [OF C(3)] x(2) R dj by auto
  have "(s + (x - ?d) + ?d) mod ?C = (?h + ?d) mod ?C"
    using path(1) dist_reach [OF C(2,3)] by simp
  then have "(s + (x - ?d)) mod ?C = ?h"
    using ring_index_inj [of ?d "(s + (x - ?d)) mod ?C" ?C ?h] C by (simp add: mod_add_right_eq ac_simps)
  then have y: "?y = x - ?d" using dist_unique [OF assms(1), of "x - ?d"] x(1) by auto
  have "?R ! z \<noteq> EMPTY" if z: "?y \<le> z" "z \<le> x" for z
  proof -
    have "(?h + (z - ?y)) mod ?C = ((s + ?y) mod ?C + (z - ?y)) mod ?C"
      using dist_reach [OF assms(1) C(2)] by simp
    also have "\<dots> = (s + ?y + (z - ?y)) mod ?C" by (rule mod_add_left_eq)
    also have "s + ?y + (z - ?y) = s + z" using z(1) by simp
    finally have "(?h + (z - ?y)) mod ?C = (s + z) mod ?C" .
    then show ?thesis using path(2) [of "z - ?y"] z y x(1) path(1) by simp
  qed
  then show "reach_ok ?C s ?R x" using y by (simp add: reach_ok_def ix_home_def)
qed

lemma dist_cut:
  assumes "h < C" "p < C" "j < C" "\<And>t. t \<le> dist C h p \<Longrightarrow> (h + t) mod C \<noteq> j"
  shows "dist C h p \<le> dist C ((j + 1) mod C) p"
proof (rule ccontr)
  let ?D = "dist C h p" and ?x = "dist C ((j + 1) mod C) p"
  assume "\<not> ?thesis"
  then have lt: "?x < ?D" by simp
  let ?t = "?D - ?x - 1"
  have C: "0 < C" using assms(1) by simp
  have "((j + 1) mod C + ?x) mod C = (h + ?D) mod C"
    using dist_reach [of "(j + 1) mod C" C p] dist_reach [of h C p] assms C by simp
  moreover have "((j + 1) mod C + ?x) mod C = ((?x + 1) + j) mod C"
    unfolding mod_add_left_eq by (simp add: ac_simps)
  moreover have "((?x + 1) + (h + ?t) mod C) mod C = (h + ?D) mod C"
  proof -
    have "(?x + 1) + (h + ?t) = h + ?D" using lt by linarith
    then show ?thesis unfolding mod_add_right_eq by simp
  qed
  ultimately have "((?x + 1) + (h + ?t) mod C) mod C = ((?x + 1) + j) mod C" by (simp only:)
  then have "(h + ?t) mod C = j" using ring_index_inj [of "?x + 1" "(h + ?t) mod C" C j] assms(3) C by simp
  then show False using assms(4) [of ?t] lt by simp
qed

lemma ix_has_empty:
  assumes "ix_inv t" "ix_len t < length (ix_keys t)"
  obtains e where "e < length (ix_keys t)" "ix_keys t ! e = EMPTY"
proof -
  obtain d: "length (ix_slots t) = length (ix_keys t)" "ix_len t = length (ix_entries t)"
    using ix_invD [OF assms(1)] by metis
  have "EMPTY \<in> set (ix_keys t)"
  proof (rule ccontr)
    assume "EMPTY \<notin> set (ix_keys t)"
    then have "ix_entries t = zip (ix_keys t) (ix_slots t)"
      unfolding ix_entries_def by (auto simp: filter_id_conv dest: set_zip_leftD)
    then show False using d assms(2) by simp
  qed
  then show ?thesis using that by (auto simp: in_set_conv_nth)
qed

text \<open>A free place is found, and no place between it and the home is empty.\<close>

lemma ix_place_spec:
  assumes "length keys = 2 ^ k" "a < length keys" "e < length keys" "keys ! e = EMPTY"
  obtains m where "m < length keys" "ix_place keys (length keys) a = Some ((a + m) mod length keys)"
    "keys ! ((a + m) mod length keys) = EMPTY" "\<And>t. t < m \<Longrightarrow> keys ! ((a + t) mod length keys) \<noteq> EMPTY"
proof -
  let ?C = "length keys" and ?P = "\<lambda>m. keys ! ((a + m) mod length keys) = EMPTY"
  have C: "0 < ?C" using assms(2) by linarith
  have P: "?P (dist ?C a e)" using dist_reach [OF assms(2,3)] assms(4) by simp
  let ?m = "LEAST m. ?P m"
  have m: "?P ?m" "?m \<le> dist ?C a e" "\<And>t. t < ?m \<Longrightarrow> \<not> ?P t"
    using LeastI [of ?P, OF P] Least_le [of ?P, OF P] not_less_Least [of _ ?P] by blast+
  then have lt: "?m < ?C" using dist_lt [OF C, of a e] by linarith
  have "ix_place keys ?C a = Some ((a + ?m) mod ?C)"
    unfolding ix_place_probe [OF assms(1,2)]
    by (rule ix_probe_hit [OF assms(1,2) lt]) (use m in auto)
  then show ?thesis using that [of ?m] lt m by blast
qed

lemma ix_linear_place:
  assumes lin: "ix_linear s keys" "s < length keys"
    and m: "m < length keys" "keys ! ((k mod length keys + m) mod length keys) = EMPTY"
      "\<And>t. t < m \<Longrightarrow> keys ! ((k mod length keys + t) mod length keys) \<noteq> EMPTY"
    and k: "k \<noteq> EMPTY"
  defines "j \<equiv> (k mod length keys + m) mod length keys"
  shows "ix_linear ((j + 1) mod length keys) (keys[j := k])"
proof -
  let ?C = "length keys"
  have C: "0 < ?C" "j < ?C" "k mod ?C < ?C" using lin(2) by (auto simp: j_def intro: mod_less_divisor)
  have dm: "dist ?C (k mod ?C) j = m" unfolding j_def using dist_unique [OF C(3) m(1)] .
  have cond: "dist ?C (keys[j := k] ! p mod ?C) p \<le> dist ?C ((j + 1) mod ?C) p \<and>
      (\<forall>t \<le> dist ?C (keys[j := k] ! p mod ?C) p. keys[j := k] ! ((keys[j := k] ! p mod ?C + t) mod ?C) \<noteq> EMPTY)"
    if p: "p < ?C" "keys[j := k] ! p \<noteq> EMPTY" for p
  proof (cases "p = j")
    case True
    have "keys[j := k] ! ((k mod ?C + t) mod ?C) \<noteq> EMPTY" if "t \<le> m" for t
    proof (cases "(k mod ?C + t) mod ?C = j")
      case False
      then have "t < m" using that by (auto simp: j_def le_less)
      then show ?thesis using m(3) False by simp
    qed (use k C in simp)
    moreover have "m \<le> dist ?C ((j + 1) mod ?C) j"
    proof -
      have "dist ?C (k mod ?C) j \<le> dist ?C ((j + 1) mod ?C) j"
      proof (cases "?C = 1")
        case False
        have "((j + 1) mod ?C + (?C - 1)) mod ?C = (j + 1 + (?C - 1)) mod ?C" by (rule mod_add_left_eq)
        also have "j + 1 + (?C - 1) = j + ?C" using C(1) by linarith
        finally have "((j + 1) mod ?C + (?C - 1)) mod ?C = j" using C(2) by simp
        then have "dist ?C ((j + 1) mod ?C) j = ?C - 1"
          using dist_unique [of "(j + 1) mod ?C" ?C "?C - 1"] C by simp
        then show ?thesis using dist_lt [OF C(1), of "k mod ?C" j] by simp
      qed (use dist_lt [OF C(1), of "k mod ?C" j] in simp)
      then show ?thesis by (simp add: dm)
    qed
    ultimately show ?thesis using True C dm by simp
  next
    case False
    let ?h = "keys ! p mod ?C"
    have old: "keys[j := k] ! p = keys ! p" using False by simp
    have path: "keys ! ((?h + t) mod ?C) \<noteq> EMPTY" if "t \<le> dist ?C ?h p" for t
      using ix_linear_path(1) [OF lin p(1) _ that] p(2) old by simp
    have "(?h + t) mod ?C \<noteq> j" if "t \<le> dist ?C ?h p" for t
      using path [OF that] m(2) unfolding j_def by metis
    then have "dist ?C ?h p \<le> dist ?C ((j + 1) mod ?C) p"
      using dist_cut [of ?h ?C p j] C p(1) by (simp add: mod_less_divisor)
    moreover have "keys[j := k] ! ((?h + t) mod ?C) \<noteq> EMPTY" if "t \<le> dist ?C ?h p" for t
      using path [OF that] k by (cases "(?h + t) mod ?C = j") (use C in auto)
    ultimately show ?thesis unfolding old by blast
  qed
  show ?thesis by (rule ix_linear_intro) (use C cond in auto)
qed

text \<open>Writing one place of the table changes one entry.\<close>

lemma mset_zip_update:
  assumes "i < length xs" "length xs = length ys"
  shows "mset (zip (xs[i := a]) (ys[i := b])) = add_mset (a, b) (mset (zip xs ys) - {#(xs ! i, ys ! i)#})"
proof -
  have "zip (xs[i := a]) (ys[i := b]) = (zip xs ys)[i := (a, b)]" by (simp add: update_zip)
  then show ?thesis using assms by (simp add: mset_update)
qed

lemma ix_entries_mset: "mset (ix_entries t) = filter_mset (\<lambda>e. fst e \<noteq> EMPTY) (mset (zip (ix_keys t) (ix_slots t)))"
  by (simp add: ix_entries_def)

lemma zip_nth_mem: "i < length xs \<Longrightarrow> length xs = length ys \<Longrightarrow> (xs ! i, ys ! i) \<in># mset (zip xs ys)"
  by (auto simp: in_set_zip)

abbreviation live :: "nat list \<Rightarrow> nat list \<Rightarrow> (nat \<times> nat) multiset" where
  "live ks ss \<equiv> filter_mset (\<lambda>e. fst e \<noteq> EMPTY) (mset (zip ks ss))"

lemma live_write:
  assumes "i < length ks" "length ks = length ss"
  obtains M where "live ks ss = (if ks ! i = EMPTY then M else add_mset (ks ! i, ss ! i) M)"
    "\<And>k v. live (ks[i := k]) (ss[i := v]) = (if k = EMPTY then M else add_mset (k, v) M)"
proof -
  let ?M = "mset (zip ks ss) - {#(ks ! i, ss ! i)#}"
  have m: "mset (zip ks ss) = add_mset (ks ! i, ss ! i) ?M"
    using insert_DiffM [OF zip_nth_mem [OF assms]] by metis
  show ?thesis
  proof (rule that)
    show "live ks ss = (if ks ! i = EMPTY then filter_mset (\<lambda>e. fst e \<noteq> EMPTY) ?M
      else add_mset (ks ! i, ss ! i) (filter_mset (\<lambda>e. fst e \<noteq> EMPTY) ?M))"
      by (subst m) simp
    show "live (ks[i := k]) (ss[i := v]) = (if k = EMPTY then filter_mset (\<lambda>e. fst e \<noteq> EMPTY) ?M
      else add_mset (k, v) (filter_mset (\<lambda>e. fst e \<noteq> EMPTY) ?M))" for k v
      by (subst mset_zip_update [OF assms]) simp
  qed
qed

text \<open>What the entries and the length say about the map, whatever the order of the entries.\<close>

lemma ix_map_add:
  assumes "mset (ix_entries t') = add_mset (k, v) (mset (ix_entries t))" "distinct (map fst (ix_entries t))"
    "k \<notin> fst ` set (ix_entries t)"
  shows "distinct (map fst (ix_entries t'))" "ix_map t' = (ix_map t)(k \<mapsto> v)" "length (ix_entries t') = Suc (length (ix_entries t))"
proof -
  have m: "mset (ix_entries t') = mset ((k, v) # ix_entries t)" using assms(1) by simp
  have "mset (map fst (ix_entries t')) = mset (map fst ((k, v) # ix_entries t))"
    unfolding mset_map m ..
  then have d: "distinct (map fst (ix_entries t')) = distinct (map fst ((k, v) # ix_entries t))"
    by (rule mset_eq_imp_distinct_iff)
  then show dt: "distinct (map fst (ix_entries t'))" using assms(2,3) by simp
  have "map_of (ix_entries t') = map_of ((k, v) # ix_entries t)"
    by (rule map_of_eqI_set) (use d dt mset_eq_setD [OF m] in auto)
  then show "ix_map t' = (ix_map t)(k \<mapsto> v)" by (simp add: ix_map_def)
  show "length (ix_entries t') = Suc (length (ix_entries t))" using mset_eq_length [OF m] by simp
qed

lemma ix_map_replace:
  assumes "mset (ix_entries t') = add_mset (k, v) (mset (ix_entries t) - {#(k, w)#})"
    "distinct (map fst (ix_entries t))" "(k, w) \<in> set (ix_entries t)"
  shows "distinct (map fst (ix_entries t'))" "ix_map t' = (ix_map t)(k \<mapsto> v)" "length (ix_entries t') = length (ix_entries t)"
proof -
  have m: "mset (ix_entries t') = mset ((k, v) # remove1 (k, w) (ix_entries t))" using assms(1) by simp
  have sub: "set (remove1 (k, w) (ix_entries t)) = set (ix_entries t) - {(k, w)}"
    using assms(2) by (simp add: distinct_map set_remove1_eq)
  have no: "k \<notin> fst ` set (remove1 (k, w) (ix_entries t))"
    using assms(2,3) unfolding sub by (force simp: distinct_map inj_on_def)
  have "distinct (map fst (remove1 (k, w) (ix_entries t)))"
    using assms(2) by (metis distinct_map distinct_remove1 inj_on_subset notin_set_remove1 subsetI)
  with no have d2: "distinct (map fst ((k, v) # remove1 (k, w) (ix_entries t)))" by simp
  have "mset (map fst (ix_entries t')) = mset (map fst ((k, v) # remove1 (k, w) (ix_entries t)))"
    unfolding mset_map m ..
  then show d1: "distinct (map fst (ix_entries t'))" using d2 mset_eq_imp_distinct_iff by blast
  have e: "map_of (ix_entries t') = map_of ((k, v) # remove1 (k, w) (ix_entries t))"
    by (rule map_of_eqI_set) (use d1 d2 mset_eq_setD [OF m] in auto)
  have "map_of (remove1 (k, w) (ix_entries t)) x = map_of (ix_entries t) x" if "x \<noteq> k" for x
  proof -
    have "(x, y) \<in> set (remove1 (k, w) (ix_entries t)) \<longleftrightarrow> (x, y) \<in> set (ix_entries t)" for y
      using that unfolding sub by simp
    moreover have "distinct (map fst (remove1 (k, w) (ix_entries t)))" using d2 by simp
    ultimately show ?thesis
      using assms(2) by (metis map_of_eq_Some_iff option.exhaust)
  qed
  then show "ix_map t' = (ix_map t)(k \<mapsto> v)" by (auto simp: ix_map_def e fun_eq_iff)
  show "length (ix_entries t') = length (ix_entries t)"
    using mset_eq_length [OF m] assms(3) by (simp add: length_remove1) (metis length_pos_if_in_set Suc_pred)
qed

text \<open>When an insertion is accepted.\<close>

definition ix_admit :: "id_index \<Rightarrow> nat \<Rightarrow> nat \<Rightarrow> bool" where
  "ix_admit t k v \<longleftrightarrow> ix_valid k \<and> v < 2 ^ 16 \<and> (ix_map t k \<noteq> None \<or> ix_len t < length (ix_keys t))"

lemma ix_insert_spec:
  assumes "ix_inv t"
  shows "\<exists>t'. ix_insert t k v = (ix_admit t k v, t') \<and> ix_inv t' \<and> length (ix_keys t') = length (ix_keys t) \<and>
    ix_map t' = (if ix_admit t k v then (ix_map t)(k \<mapsto> v) else ix_map t)"
proof (cases "ix_valid k \<and> v < 2 ^ 16")
  case False
  then show ?thesis using assms by (auto simp: ix_insert_def not_less ix_admit_def)
next
  case True
  then have valid: "ix_valid k" and v: "\<not> 2 ^ 16 \<le> v" and ne: "k \<noteq> EMPTY" by (auto simp: ix_valid_def)
  obtain b s where inv: "b \<le> 64" "length (ix_keys t) = 2 ^ b" "length (ix_slots t) = length (ix_keys t)"
    "distinct (map fst (ix_entries t))" "ix_len t = length (ix_entries t)"
    "\<forall>x \<in> set (ix_keys t). x \<noteq> EMPTY \<longrightarrow> ix_valid x"
    "s < length (ix_keys t)" "ix_linear s (ix_keys t)"
    by (rule ix_invD [OF assms(1)])
  note find = ix_map_find [OF assms(1) valid]
  show ?thesis
  proof (cases "ix_find t k")
    case (Some i)
    then have i: "i < length (ix_keys t)" "ix_keys t ! i = k" using ix_find_iff [OF assms(1) valid] by auto
    let ?t = "t\<lparr>ix_slots := (ix_slots t)[i := v]\<rparr>"
    have ok: "ix_admit t k v" using True Some find by (simp add: ix_admit_def)
    have res: "ix_insert t k v = (True, ?t)" using Some valid v by (simp add: ix_insert_def)
    have keys: "ix_keys ?t = (ix_keys t)[i := k]" by (simp flip: i(2))
    obtain M where M: "live (ix_keys t) (ix_slots t) = (if ix_keys t ! i = EMPTY then M else add_mset (ix_keys t ! i, ix_slots t ! i) M)"
      "\<And>k v. live ((ix_keys t)[i := k]) ((ix_slots t)[i := v]) = (if k = EMPTY then M else add_mset (k, v) M)"
      using live_write [OF i(1) inv(3) [symmetric]] by blast
    have "live (ix_keys ?t) (ix_slots ?t) = add_mset (k, v) M"
      unfolding keys using M(2) [of k v] ne by simp
    then have m: "mset (ix_entries ?t) = add_mset (k, v) (mset (ix_entries t) - {#(k, ix_slots t ! i)#})"
      using M(1) ne unfolding ix_entries_mset i(2) by simp
    have mem: "(k, ix_slots t ! i) \<in> set (ix_entries t)" using ix_entries_in [OF inv(3)] i ne by blast
    have map: "ix_map ?t k' = ((ix_map t)(k \<mapsto> v)) k'" "distinct (map fst (ix_entries ?t))"
      "length (ix_entries ?t) = length (ix_entries t)" for k'
      using ix_map_replace [OF m inv(4) mem] by auto
    have "ix_inv ?t" using inv map(2,3) unfolding ix_inv_def by auto
    then show ?thesis using res ok map(1) by (auto simp: fun_eq_iff)
  next
    case None
    then have no: "ix_map t k = None" using find by simp
    show ?thesis
    proof (cases "ix_len t < length (ix_keys t)")
      case False
      then show ?thesis using None valid v assms no by (simp add: ix_insert_def ix_admit_def)
    next
      case room: True
      have ok: "ix_admit t k v" using True room by (simp add: ix_admit_def)
      obtain e where e: "e < length (ix_keys t)" "ix_keys t ! e = EMPTY" by (rule ix_has_empty [OF assms(1) room])
      have C: "0 < length (ix_keys t)" "k mod length (ix_keys t) < length (ix_keys t)"
        using inv(7) by (auto intro: mod_less_divisor)
      obtain m where m: "m < length (ix_keys t)"
        "ix_place (ix_keys t) (length (ix_keys t)) (k mod length (ix_keys t)) =
           Some ((k mod length (ix_keys t) + m) mod length (ix_keys t))"
        "ix_keys t ! ((k mod length (ix_keys t) + m) mod length (ix_keys t)) = EMPTY"
        "\<And>u. u < m \<Longrightarrow> ix_keys t ! ((k mod length (ix_keys t) + u) mod length (ix_keys t)) \<noteq> EMPTY"
        using ix_place_spec [OF inv(2) C(2) e] by blast
      define j where "j = (k mod length (ix_keys t) + m) mod length (ix_keys t)"
      let ?t = "\<lparr>ix_keys = (ix_keys t)[j := k], ix_slots = (ix_slots t)[j := v], ix_len = ix_len t + 1\<rparr>"
      have j: "j < length (ix_keys t)" "ix_keys t ! j = EMPTY" using C(1) m(3) by (simp_all add: j_def)
      have lin: "ix_linear ((j + 1) mod length (ix_keys t)) ((ix_keys t)[j := k])"
        unfolding j_def by (rule ix_linear_place [OF inv(8,7) m(1,3,4) ne])
      have "k AND ix_mask t = k mod length (ix_keys t)" using inv(2) by (simp add: ix_mask_def and_mask_mod)
      then have res: "ix_insert t k v = (True, ?t)"
        using None valid v room m(2) j(1) inv(3) by (simp add: ix_insert_def j_def)
      obtain M where M: "live (ix_keys t) (ix_slots t) = (if ix_keys t ! j = EMPTY then M else add_mset (ix_keys t ! j, ix_slots t ! j) M)"
        "\<And>k v. live ((ix_keys t)[j := k]) ((ix_slots t)[j := v]) = (if k = EMPTY then M else add_mset (k, v) M)"
        using live_write [OF j(1) inv(3) [symmetric]] by blast
      have ms: "mset (ix_entries ?t) = add_mset (k, v) (mset (ix_entries t))"
        using M(1) M(2) [of k v] ne unfolding ix_entries_mset j(2) by simp
      have fresh: "k \<notin> fst ` set (ix_entries t)" using no by (simp add: ix_map_def map_of_eq_None_iff)
      note map = ix_map_add [OF ms inv(4) fresh]
      have "\<exists>s < length (ix_keys ?t). ix_linear s (ix_keys ?t)" using lin C(1) by (auto intro: exI [of _ "(j + 1) mod length (ix_keys t)"])
      moreover have "\<forall>x \<in> set (ix_keys ?t). x \<noteq> EMPTY \<longrightarrow> ix_valid x"
        using inv(6) valid by (auto dest: set_update_subset_insert [THEN subsetD])
      ultimately have "ix_inv ?t"
        unfolding ix_inv_def using inv(1-3,5) map(1,3) by auto
      then show ?thesis using res ok map(2) by auto
    qed
  qed
qed

section \<open>Removing\<close>

lemma dist_if: "a < C \<Longrightarrow> b < C \<Longrightarrow> dist C a b = (if a \<le> b then b - a else b + C - a)"
proof (cases "a \<le> b")
  case True
  assume "a < C" "b < C"
  have e: "b + C - a = (b - a) + C" using True by simp
  have "dist C a b = b - a" unfolding dist_def e using \<open>b < C\<close> by simp
  then show ?thesis using True by simp
qed (simp add: dist_def)

lemma dist_shift:
  assumes "s < C" "a < C" "b < C"
  shows "dist C ((s + a) mod C) ((s + b) mod C) = dist C a b"
proof -
  have "((s + a) mod C + dist C a b) mod C = (s + (a + dist C a b)) mod C"
    unfolding mod_add_left_eq by (simp add: ac_simps)
  also have "\<dots> = (s + b) mod C"
    using dist_reach [OF assms(2,3)] by (metis mod_add_right_eq)
  finally show ?thesis
    using dist_unique [of "(s + a) mod C" C "dist C a b"] assms dist_lt [of C a b] by simp
qed

text \<open>One round of the backward shift, with every place counted from \<open>s\<close>.\<close>

lemma ix_shift_step:
  assumes "length keys = 2 ^ k" "k \<le> 64" "length slots = length keys" "s < length keys" "u < length keys" "v < length keys"
  defines "C \<equiv> length keys"
  defines "x \<equiv> (v + 1) mod C"
  defines "key \<equiv> keys ! ((s + x) mod C)"
  shows "ix_shift (Suc n) keys slots ((s + u) mod C) ((s + v) mod C) =
    (if key = EMPTY then (True, keys, slots, (s + u) mod C)
     else if dist C u x \<le> dist C (ix_home C s key) x
       then ix_shift n (keys[(s + u) mod C := key]) (slots[(s + u) mod C := slots ! ((s + x) mod C)])
         ((s + x) mod C) ((s + x) mod C)
       else ix_shift n keys slots ((s + u) mod C) ((s + x) mod C))"
proof -
  have C: "0 < C" "s < C" "u < C" "C = 2 ^ k" "x < C" using assms by (auto simp: x_def C_def intro: mod_less_divisor)
  have j: "((s + v) mod C + 1) AND (C - 1) = (s + x) mod C"
  proof -
    have "((s + v) mod C + 1) mod C = (s + x) mod C"
      unfolding x_def by (simp add: mod_add_left_eq mod_add_right_eq mod_Suc_eq ac_simps)
    then show ?thesis using C(4) by (simp add: and_mask_mod)
  qed
  have lt: "(s + x) mod C < C" "(s + u) mod C < C" "ix_home C s key < C" "key mod C < C"
    using C(1) dist_lt [OF C(1)] by (simp_all add: ix_home_def)
  have home: "key AND (C - 1) = (s + ix_home C s key) mod C"
    using C(4) dist_reach [OF C(2) lt(4)] by (simp add: and_mask_mod ix_home_def)
  have d: "wrapping_sub64 ((s + x) mod C) ((s + y) mod C) AND (C - 1) = dist C y x" if "y < C" for y
    using wrapping_dist [OF C(4) assms(2), of "(s + y) mod C" "(s + x) mod C"] dist_shift [OF C(2) that C(5)] C(1)
    by simp
  have get: "get_opt keys ((s + x) mod C) = Some key" "get_opt slots ((s + x) mod C) = Some (slots ! ((s + x) mod C))"
    using lt(1) assms(3) by (simp_all add: get_opt_def key_def C_def)
  have range: "((s + u) mod C < C \<and> (s + u) mod C < length slots) = True"
    using lt(2) assms(3) by (simp add: C_def)
  show ?thesis
    unfolding ix_shift.simps Let_def C_def [symmetric] j get option.case home d [OF lt(3)] d [OF C(3)] range if_True ..
qed

text \<open>After the table's end the scan meets only entries that lie before the hole, and moves none.\<close>

lemma ix_shift_wrapped:
  assumes len: "length keys = 2 ^ k" "k \<le> 64" "length slots = length keys" "s < length keys" "u < length keys"
    and before: "\<And>x. x < u \<Longrightarrow> keys ! ((s + x) mod length keys) \<noteq> EMPTY \<Longrightarrow>
      ix_home (length keys) s (keys ! ((s + x) mod length keys)) \<le> x"
    and n: "v = length keys - 1 \<and> n \<le> u + 1 \<or> v < u \<and> v + n \<le> u"
  shows "ix_shift n keys slots ((s + u) mod length keys) ((s + v) mod length keys) =
    (True, keys, slots, (s + u) mod length keys)"
  using n
proof (induction n arbitrary: v)
  case (Suc n)
  let ?C = "length keys" and ?x = "(v + 1) mod length keys"
  let ?key = "keys ! ((s + ?x) mod ?C)"
  have v: "v < ?C" using Suc.prems len(4,5) by auto
  have x: "?x \<le> u \<and> (?x < u \<longrightarrow> ?x + n \<le> u) \<and> (?x = u \<longrightarrow> n = 0)"
    using Suc.prems
  proof
    assume "v = ?C - 1 \<and> Suc n \<le> u + 1"
    moreover from this have "v + 1 = ?C" using len(4) by linarith
    then have "?x = 0" by simp
    ultimately show ?thesis by auto
  next
    assume a: "v < u \<and> v + Suc n \<le> u"
    then have "?x = v + 1" using len(5) by simp
    then show ?thesis using a by auto
  qed
  note step = ix_shift_step [OF len v, of n]
  show ?case
  proof (cases "?key = EMPTY")
    case True
    then show ?thesis using step by simp
  next
    case key: False
    have h: "ix_home ?C s ?key < ?C" unfolding ix_home_def by (rule dist_lt) (use len(4) in linarith)
    show ?thesis
    proof (cases "?x < u")
      case True
      then have "ix_home ?C s ?key \<le> ?x" using before key by blast
      moreover have "dist ?C u ?x = ?x + ?C - u" using dist_if [OF len(5), of ?x] True len(5) by simp
      ultimately have "\<not> dist ?C u ?x \<le> dist ?C (ix_home ?C s ?key) ?x"
        using dist_if [OF h, of ?x] True len(5) by simp
      then show ?thesis using step key Suc.IH [of ?x] True x by simp
    next
      case False
      then have xu: "?x = u" "n = 0" using x by auto
      then have "dist ?C u ?x = 0" using len(5) by (simp add: dist_if)
      then show ?thesis using step key xu by simp
    qed
  qed
qed simp

text \<open>
  The invariant of the shift, with \<open>R\<close> the table read from \<open>s\<close>: the hole at \<open>u\<close> still holds a stale key, every other
  entry is reachable with the hole counted as taken, and the entries between the hole and the scan
  at \<open>v\<close> have their homes after the hole.
\<close>

definition shift_ok :: "nat \<Rightarrow> nat \<Rightarrow> nat list \<Rightarrow> nat \<Rightarrow> bool" where
  "shift_ok C s R u \<longleftrightarrow> R ! u \<noteq> EMPTY \<and> (\<forall>x < C. x \<noteq> u \<and> R ! x \<noteq> EMPTY \<longrightarrow> reach_ok C s R x)"

definition past_hole :: "nat \<Rightarrow> nat \<Rightarrow> nat list \<Rightarrow> nat \<Rightarrow> nat \<Rightarrow> bool" where
  "past_hole C s R u v \<longleftrightarrow> (\<forall>x. u < x \<and> x \<le> v \<longrightarrow> R ! x \<noteq> EMPTY \<and> u < ix_home C s (R ! x))"

lemma shift_ok_move:
  assumes "shift_ok C s R u" "u < x" "x < C" "length R = C" "R ! x \<noteq> EMPTY" "ix_home C s (R ! x) \<le> u"
  shows "shift_ok C s (R[u := R ! x]) x"
proof -
  let ?R = "R[u := R ! x]"
  have ne: "?R ! y \<noteq> EMPTY" if "R ! y \<noteq> EMPTY" for y
    using that assms(2-5) by (cases "y = u") simp_all
  have "reach_ok C s ?R y" if y: "y < C" "y \<noteq> x" "?R ! y \<noteq> EMPTY" for y
  proof (cases "y = u")
    case True
    have y': "?R ! y = R ! x" using True assms(2-4) by simp
    have "R ! z \<noteq> EMPTY" if "ix_home C s (R ! x) \<le> z" "z \<le> y" for z
      using assms(1-3,5) that True unfolding shift_ok_def reach_ok_def by auto
    then show ?thesis unfolding reach_ok_def y' using assms(6) True ne by blast
  next
    case False
    have y': "?R ! y = R ! y" using False by simp
    have "reach_ok C s R y"
    proof (cases "y = x")
      case False
      then show ?thesis using assms(1) y \<open>y \<noteq> u\<close> y' by (simp add: shift_ok_def)
    qed (use y in simp)
    then show ?thesis unfolding reach_ok_def y' using ne by blast
  qed
  then show ?thesis using assms(2,5) by (simp add: shift_ok_def)
qed

lemma shift_done:
  assumes "shift_ok C s R u" "past_hole C s R u v" "u \<le> v" "v < C" "v + 1 = C \<or> R ! (v + 1) = EMPTY"
    "x < C" "x \<noteq> u" "R ! x \<noteq> EMPTY" "ix_home C s (R ! x) \<le> u"
  shows "x < u"
proof (rule ccontr)
  assume "\<not> x < u"
  then have "u < x" using assms(7) by simp
  then have "\<not> x \<le> v" using assms(2,9) unfolding past_hole_def by fastforce
  then have "v + 1 \<le> x" "R ! (v + 1) = EMPTY" using assms(5,6) by auto
  moreover have "reach_ok C s R x" using assms(1,6-8) by (simp add: shift_ok_def)
  ultimately show False using assms(3,9) unfolding reach_ok_def by (meson le_trans le_add1)
qed

lemma ix_shift_run:
  assumes "length keys = 2 ^ k" "k \<le> 64" "length slots = length keys" "s < length keys"
    "u \<le> v" "v < length keys" "n + v = length keys + u0" "u0 \<le> u"
    "shift_ok (length keys) s (ring_list s (length keys) keys) u"
    "past_hole (length keys) s (ring_list s (length keys) keys) u v"
    "live keys slots = add_mset (keys ! ((s + u) mod length keys), slots ! ((s + u) mod length keys)) M"
  shows "\<exists>keys' slots' u'. ix_shift n keys slots ((s + u) mod length keys) ((s + v) mod length keys) =
      (True, keys', slots', (s + u') mod length keys) \<and> u' < length keys \<and>
    length keys' = length keys \<and> length slots' = length keys \<and>
    shift_ok (length keys) s (ring_list s (length keys) keys') u' \<and>
    (\<forall>x < length keys. x \<noteq> u' \<and> ring_list s (length keys) keys' ! x \<noteq> EMPTY \<and>
       ix_home (length keys) s (ring_list s (length keys) keys' ! x) \<le> u' \<longrightarrow> x < u') \<and>
    live keys' slots' = add_mset (keys' ! ((s + u') mod length keys), slots' ! ((s + u') mod length keys)) M"
  using assms
proof (induction n arbitrary: keys slots u v)
  case 0
  then show ?case by simp
next
  case (Suc n)
  let ?C = "length keys"
  let ?R = "ring_list s ?C keys" and ?x = "(v + 1) mod ?C"
  let ?key = "keys ! ((s + ?x) mod ?C)" and ?u = "(s + u) mod ?C"
  note len = Suc.prems(1-4) and ok = Suc.prems(9) and past = Suc.prems(10) and live = Suc.prems(11)
  have u: "u < ?C" using Suc.prems(5,6) by simp
  have C: "0 < ?C" using len(4) by linarith
  note step = ix_shift_step [OF len u Suc.prems(6), of n]
  have stop: "\<forall>x < ?C. x \<noteq> u \<and> ?R ! x \<noteq> EMPTY \<and> ix_home ?C s (?R ! x) \<le> u \<longrightarrow> x < u"
    if "v + 1 = ?C \<or> ?R ! (v + 1) = EMPTY"
    using shift_done [OF ok past Suc.prems(5,6) that] by blast
  show ?case
  proof (cases "v + 1 < ?C")
    case False
    then have v: "v = ?C - 1" using Suc.prems(6) by linarith
    have "ix_shift (Suc n) keys slots ?u ((s + v) mod ?C) = (True, keys, slots, ?u)"
    proof (rule ix_shift_wrapped [OF len u])
      fix x assume x: "x < u" "keys ! ((s + x) mod ?C) \<noteq> EMPTY"
      then have "reach_ok ?C s ?R x" using ok u by (simp add: shift_ok_def)
      then show "ix_home ?C s (keys ! ((s + x) mod ?C)) \<le> x" using x u by (simp add: reach_ok_def)
    next
      show "v = ?C - 1 \<and> Suc n \<le> u + 1 \<or> v < u \<and> v + Suc n \<le> u" using v Suc.prems(7,8) C by linarith
    qed
    moreover have "v + 1 = ?C" using v C by linarith
    ultimately show ?thesis using stop len u ok live by blast
  next
    case True
    then have x: "?x = v + 1" "u < v + 1" using Suc.prems(5) by simp_all
    have key: "?R ! (v + 1) = ?key" using True x by simp
    show ?thesis
    proof (cases "?key = EMPTY")
      case e: True
      then show ?thesis using step stop key len u ok live by auto
    next
      case nonempty: False
      have reach: "reach_ok ?C s ?R (v + 1)" using ok True x nonempty key by (simp add: shift_ok_def)
      then have h: "ix_home ?C s ?key \<le> v + 1" using key by (simp add: reach_ok_def)
      have d: "dist ?C u ?x = v + 1 - u" "dist ?C (ix_home ?C s ?key) ?x = v + 1 - ix_home ?C s ?key"
        using dist_if [OF u, of ?x] dist_if [of "ix_home ?C s ?key" ?C ?x] h True x by auto
      show ?thesis
      proof (cases "ix_home ?C s ?key \<le> u")
        case move: True
        let ?keys = "keys[?u := ?key]" and ?slots = "slots[?u := slots ! ((s + ?x) mod ?C)]"
        have ux: "?u \<noteq> (s + ?x) mod ?C" using ring_index_inj [of s u ?C "v + 1"] u True x by auto
        have ult: "?u < ?C" using C by simp
        have R': "ring_list s ?C ?keys = ?R[u := ?R ! (v + 1)]"
          using ring_list_update_at [OF u order_refl, of s ?key] key by simp
        have "shift_ok ?C s (ring_list s ?C ?keys) (v + 1)"
          unfolding R' by (rule shift_ok_move [OF ok x(2) True]) (use nonempty key move in simp_all)
        moreover have "past_hole ?C s (ring_list s ?C ?keys) (v + 1) (v + 1)" by (simp add: past_hole_def)
        moreover have "live ?keys ?slots = add_mset (?keys ! ((s + (v + 1)) mod ?C), ?slots ! ((s + (v + 1)) mod ?C)) M"
        proof -
          obtain N where N: "live keys slots = (if keys ! ?u = EMPTY then N else add_mset (keys ! ?u, slots ! ?u) N)"
            "\<And>k v. live (keys[?u := k]) (slots[?u := v]) = (if k = EMPTY then N else add_mset (k, v) N)"
            using live_write [OF ult len(3) [symmetric]] by blast
          have "keys ! ?u \<noteq> EMPTY" using ok u by (simp add: shift_ok_def)
          then have "N = M" using N(1) live by simp
          then show ?thesis using N(2) nonempty ux x by simp
        qed
        moreover have "ix_shift (Suc n) keys slots ?u ((s + v) mod ?C) =
            ix_shift n ?keys ?slots ((s + (v + 1)) mod ?C) ((s + (v + 1)) mod ?C)"
          using step nonempty d move h x by simp
        ultimately show ?thesis
          using Suc.IH [of ?keys ?slots "v + 1" "v + 1"] len True x Suc.prems(7,8) by simp
      next
        case stay: False
        have "past_hole ?C s ?R u (v + 1)"
          using past stay nonempty key by (auto simp: past_hole_def le_Suc_eq)
        moreover have "ix_shift (Suc n) keys slots ?u ((s + v) mod ?C) = ix_shift n keys slots ?u ((s + (v + 1)) mod ?C)"
          using step nonempty d stay h x by simp
        ultimately show ?thesis
          using Suc.IH [of keys slots u "v + 1"] len True x Suc.prems(5,7,8) ok live by simp
      qed
    qed
  qed
qed

text \<open>Emptying the hole that the shift leaves gives a table in its invariant.\<close>

lemma ix_linear_clear:
  assumes "s < length keys" "u < length keys" "shift_ok (length keys) s (ring_list s (length keys) keys) u"
    "\<forall>x < length keys. x \<noteq> u \<and> ring_list s (length keys) keys ! x \<noteq> EMPTY \<and>
       ix_home (length keys) s (ring_list s (length keys) keys ! x) \<le> u \<longrightarrow> x < u"
  shows "ix_linear s (keys[(s + u) mod length keys := EMPTY])"
proof -
  let ?C = "length keys" and ?R = "ring_list s (length keys) keys"
  have R': "ring_list s ?C (keys[(s + u) mod ?C := EMPTY]) = ?R[u := EMPTY]"
    using ring_list_update_at [OF assms(2) order_refl] .
  have "reach_ok ?C s (?R[u := EMPTY]) x" if x: "x < ?C" "?R[u := EMPTY] ! x \<noteq> EMPTY" for x
  proof -
    have xu: "x \<noteq> u" using x assms(2) by auto
    then have eq: "?R[u := EMPTY] ! x = ?R ! x" by (auto intro: nth_list_update_neq)
    have "reach_ok ?C s ?R x" using assms(3) x xu unfolding shift_ok_def eq by blast
    moreover have "z \<noteq> u" if "ix_home ?C s (?R ! x) \<le> z" "z \<le> x" for z
      using assms(4) x xu that unfolding eq by fastforce
    ultimately show ?thesis unfolding reach_ok_def eq by (metis nth_list_update_neq)
  qed
  then show ?thesis unfolding ix_linear_def Let_def length_list_update R' by blast
qed

lemma ix_remove_present:
  assumes "ix_inv t" "ix_valid k" "ix_find t k = Some hole"
  obtains t' where "ix_remove t k = Some (Some (ix_slots t ! hole), t')" "ix_inv t'"
    "mset (ix_entries t) = add_mset (k, ix_slots t ! hole) (mset (ix_entries t'))"
    "length (ix_keys t') = length (ix_keys t)"
proof -
  obtain b s where inv: "b \<le> 64" "length (ix_keys t) = 2 ^ b" "length (ix_slots t) = length (ix_keys t)"
    "distinct (map fst (ix_entries t))" "ix_len t = length (ix_entries t)"
    "\<forall>x \<in> set (ix_keys t). x \<noteq> EMPTY \<longrightarrow> ix_valid x"
    "s < length (ix_keys t)" "ix_linear s (ix_keys t)"
    by (rule ix_invD [OF assms(1)])
  let ?C = "length (ix_keys t)" and ?keys = "ix_keys t" and ?slots = "ix_slots t"
  have ne: "k \<noteq> EMPTY" using assms(2) by (simp add: ix_valid_def)
  have C: "0 < ?C" using inv(7) by linarith
  have h: "hole < ?C" "?keys ! hole = k" using ix_find_iff [OF assms(1,2)] assms(3) by auto
  define u where "u = dist ?C s hole"
  have u: "u < ?C" "(s + u) mod ?C = hole" using dist_lt [OF C] dist_reach [OF inv(7) h(1)] by (simp_all add: u_def)
  have Ru: "ring_list s ?C ?keys ! u = k" using u h by simp
  have ok: "shift_ok ?C s (ring_list s ?C ?keys) u"
    using inv(8) Ru ne unfolding shift_ok_def ix_linear_def Let_def by blast
  obtain M where "live ?keys ?slots = (if ?keys ! hole = EMPTY then M else add_mset (?keys ! hole, ?slots ! hole) M)"
    "\<And>k v. live (?keys[hole := k]) (?slots[hole := v]) = (if k = EMPTY then M else add_mset (k, v) M)"
    using live_write [OF h(1) inv(3) [symmetric]] by blast
  then have M: "live ?keys ?slots = add_mset (?keys ! ((s + u) mod ?C), ?slots ! ((s + u) mod ?C)) M"
    using h ne u by simp
  obtain ks ss w where run: "ix_shift ?C ?keys ?slots hole hole = (True, ks, ss, (s + w) mod ?C)" "w < ?C"
    "length ks = ?C" "length ss = ?C" "shift_ok ?C s (ring_list s ?C ks) w"
    "\<forall>x < ?C. x \<noteq> w \<and> ring_list s ?C ks ! x \<noteq> EMPTY \<and> ix_home ?C s (ring_list s ?C ks ! x) \<le> w \<longrightarrow> x < w"
    "live ks ss = add_mset (ks ! ((s + w) mod ?C), ss ! ((s + w) mod ?C)) M"
    using ix_shift_run [OF inv(2,1,3,7) order_refl u(1) refl order_refl ok _ M] u(2)
    by (auto simp: past_hole_def)
  let ?h = "(s + w) mod ?C"
  let ?t = "\<lparr>ix_keys = ks[?h := EMPTY], ix_slots = ss, ix_len = ix_len t - 1\<rparr>"
  have hlt: "?h < length ks" using C run(3) by simp
  obtain N where N: "live ks ss = (if ks ! ?h = EMPTY then N else add_mset (ks ! ?h, ss ! ?h) N)"
    "\<And>k v. live (ks[?h := k]) (ss[?h := v]) = (if k = EMPTY then N else add_mset (k, v) N)"
    using live_write [OF hlt, of ss] run(3,4) by metis
  have "ks ! ?h \<noteq> EMPTY" using run(5,2,3) by (simp add: shift_ok_def)
  then have "N = M" using N(1) run(7) by simp
  then have live: "live (ks[?h := EMPTY]) ss = M" using N(2) [of EMPTY "ss ! ?h"] by simp
  have ms: "mset (ix_entries t) = add_mset (k, ?slots ! hole) (mset (ix_entries ?t))"
    using M live h u unfolding ix_entries_mset by simp
  have l: "length (ix_entries t) = Suc (length (ix_entries ?t))"
    using ms by (metis size_mset size_add_mset)
  have "ix_remove t k = Some (Some (?slots ! hole), ?t)"
    using assms(2,3) run(1) h inv(3,5) l by (simp add: ix_remove_def get_opt_def)
  moreover have "ix_inv ?t"
  proof -
    have "distinct (map fst ((k, ?slots ! hole) # ix_entries ?t))"
      using inv(4) mset_eq_imp_distinct_iff [of "map fst (ix_entries t)" "map fst ((k, ?slots ! hole) # ix_entries ?t)"] ms
      by simp
    moreover have "ix_valid x" if "x \<in> set (ks[?h := EMPTY])" "x \<noteq> EMPTY" for x
    proof -
      from that(1) have "\<exists>i < length ks. ks[?h := EMPTY] ! i = x" unfolding in_set_conv_nth length_list_update .
      then obtain i where i: "i < length ks" "ks[?h := EMPTY] ! i = x" by blast
      then have "(x, ss ! i) \<in> set (ix_entries ?t)" using ix_entries_in [of ?t] that(2) run(3,4) by auto
      then have "(x, ss ! i) \<in># mset (ix_entries t)" unfolding ms by simp
      then have "x \<in> set ?keys" using ix_entries_in [OF inv(3)] by auto
      then show ?thesis using inv(6) that(2) by blast
    qed
    moreover have "ix_linear s (ks[?h := EMPTY])"
      using ix_linear_clear [of s ks w, unfolded run(3)] inv(7) run(2,5,6) by blast
    ultimately have d: "distinct (map fst (ix_entries ?t))" "\<forall>x \<in> set (ks[?h := EMPTY]). x \<noteq> EMPTY \<longrightarrow> ix_valid x"
      "\<exists>s < length (ks[?h := EMPTY]). ix_linear s (ks[?h := EMPTY])"
      using inv(7) run(3) by auto
    show ?thesis unfolding ix_inv_def
    proof (intro conjI)
      show "\<exists>k \<le> 64. length (ix_keys ?t) = 2 ^ k" using inv(1,2) run(3) by auto
      show "length (ix_slots ?t) = length (ix_keys ?t)" using run(3,4) by simp
      show "ix_len ?t = length (ix_entries ?t)" using inv(5) l by simp
    qed (use d in simp_all)
  qed
  moreover have "length (ix_keys ?t) = ?C" using run(3) by simp
  ultimately show ?thesis using that [OF _ _ ms] by blast
qed

lemma ix_remove_spec:
  assumes "ix_inv t"
  shows "\<exists>t'. ix_remove t k = Some (ix_map t k, t') \<and> ix_inv t' \<and> length (ix_keys t') = length (ix_keys t) \<and>
    ix_map t' = (ix_map t)(k := None)"
proof (cases "ix_valid k \<and> ix_find t k \<noteq> None")
  case False
  then have "ix_remove t k = Some (None, t)" by (auto simp: ix_remove_def)
  moreover have "ix_map t k = None"
    using False ix_map_invalid [OF assms, of k] ix_map_find [OF assms, of k] by (cases "ix_valid k") simp_all
  ultimately show ?thesis using assms by (auto simp: fun_eq_iff)
next
  case True
  then obtain hole where hole: "ix_find t k = Some hole" by blast
  obtain t' where t': "ix_remove t k = Some (Some (ix_slots t ! hole), t')" "ix_inv t'"
    "mset (ix_entries t) = add_mset (k, ix_slots t ! hole) (mset (ix_entries t'))"
    "length (ix_keys t') = length (ix_keys t)"
    using ix_remove_present [OF assms _ hole] True by blast
  have map: "ix_map t k = Some (ix_slots t ! hole)" using ix_map_find [OF assms] hole True by simp
  have d': "distinct (map fst (ix_entries t'))" using t'(2) by (simp add: ix_inv_def)
  have d: "distinct (map fst (ix_entries t))" using assms by (simp add: ix_inv_def)
  have "distinct (map fst ((k, ix_slots t ! hole) # ix_entries t'))"
    using d mset_eq_imp_distinct_iff [of "map fst (ix_entries t)" "map fst ((k, ix_slots t ! hole) # ix_entries t')"] t'(3)
    by simp
  then have fresh: "k \<notin> fst ` set (ix_entries t')" by simp
  have "ix_map t = (ix_map t')(k \<mapsto> ix_slots t ! hole)" by (rule ix_map_add(2) [OF t'(3) d' fresh])
  moreover have "ix_map t' k = None" using fresh by (simp add: ix_map_def map_of_eq_None_iff)
  ultimately have "ix_map t' = (ix_map t)(k := None)" by (auto simp: fun_eq_iff)
  then show ?thesis using t' map by auto
qed

interpretation ix: id_table ix_inv ix_map ix_admit ix_insert ix_get ix_remove
proof
  show "\<And>t k. ix_inv t \<Longrightarrow> ix_get t k = ix_map t k" by (rule ix_get_map)
  show "\<And>t k v. ix_inv t \<Longrightarrow> \<exists>t'. ix_insert t k v = (ix_admit t k v, t') \<and> ix_inv t' \<and>
      ix_map t' = (if ix_admit t k v then (ix_map t)(k \<mapsto> v) else ix_map t)"
    using ix_insert_spec by blast
  show "\<And>t k. ix_inv t \<Longrightarrow> \<exists>t'. ix_remove t k = Some (ix_map t k, t') \<and> ix_inv t' \<and> ix_map t' = (ix_map t)(k := None)"
    using ix_remove_spec by blast
qed

lemma ix_len_dom:
  assumes "ix_inv t"
  shows "ix_len t = card (dom (ix_map t))"
proof -
  have "distinct (map fst (ix_entries t))" "ix_len t = length (ix_entries t)" using assms by (simp_all add: ix_inv_def)
  then show ?thesis using distinct_card [of "map fst (ix_entries t)"] by (simp add: ix_map_def dom_map_of_conv_image_fst)
qed

lemma ix_new_inv:
  assumes "k \<le> 64"
  shows "ix_inv (ix_new (2 ^ k))" "ix_map (ix_new (2 ^ k)) = Map.empty"
proof -
  have e: "ix_entries (ix_new (2 ^ k)) = []" by (auto simp: ix_entries_def ix_new_def filter_empty_conv dest: set_zip_leftD)
  have "ix_linear 0 (replicate (2 ^ k) EMPTY)" by (simp add: ix_linear_def Let_def)
  then show "ix_inv (ix_new (2 ^ k))"
    unfolding ix_inv_def e using assms by (auto simp: ix_new_def intro: exI [of _ 0])
  show "ix_map (ix_new (2 ^ k)) = Map.empty" by (simp add: ix_map_def e)
qed

end
