(* ===== verification/Id_Index_Props.thy ===== *)
theory Id_Index_Props
  imports Id_Index
begin

text \<open>
  The properties of the id index (\<^verbatim>\<open>crates/core/src/proc/pid.rs\<close>): it is a map with a
  fixed capacity, whatever sequence of insertions and removals it has seen.
\<close>

text \<open>
  C23: Removing an id from an index in its invariant, even a full one, returns the slot it was mapped to, or nothing when it
  was not held, and never panics; afterwards every other id is found where it was and the removed one is not
  found, so the backward shift loses no entry of a probe run.
\<close>

theorem ix_remove_correct:
  assumes "ix_inv t"
  shows "\<exists>t'. ix_remove t k = Some (ix_get t k, t') \<and> ix_inv t' \<and>
    (\<forall>k'. ix_get t' k' = (if k' = k then None else ix_get t k'))"
proof -
  obtain t' where t': "ix_remove t k = Some (ix_map t k, t')" "ix_inv t'"
    using ix_remove_spec [OF assms] by blast
  then show ?thesis using ix.lookup_after_rem(2) [OF assms t'(1)] ix.lookup [OF assms, of k] by simp
qed

theorem ix_remove_correct_witness:
  "let t = snd (ix_insert (snd (ix_insert (ix_new 2) 7 10)) 3 20)
   in \<exists>t'. ix_remove t 3 = Some (Some 20, t') \<and> ix_get t' 7 = Some 10 \<and> ix_get t' 3 = None"
proof -
  let ?new = "ix_new 2"
  let ?one = "snd (ix_insert ?new 7 10)"
  let ?both = "snd (ix_insert ?one 3 20)"
  have v: "ix_valid 7" "ix_valid 3" by (simp_all add: ix_valid_def EMPTY_def PID_MAX_def)
  have z: "ix_inv ?new" "ix_map ?new = Map.empty" using ix_new_inv [of 1] by simp_all
  have a0: "ix_admit ?new 7 10" using v z by (simp add: ix_admit_def ix_new_def)
  obtain t1 where one: "ix_insert ?new 7 10 = (True, t1)" "ix_inv t1" "ix_map t1 = [7 \<mapsto> 10]" "length (ix_keys t1) = 2"
    using ix_insert_spec [OF z(1), of 7 10] a0 z(2) by (auto simp: ix_new_def)
  have "ix_len t1 = 1" using ix_len_dom [OF one(2)] one(3) by simp
  then have "ix_admit t1 3 20" using v one(4) by (simp add: ix_admit_def)
  then have "ix_inv ?both" "ix_map ?both = [7 \<mapsto> 10, 3 \<mapsto> 20]"
    using ix_insert_spec [OF one(2), of 3 20] one(1,3) by auto
  then show ?thesis
    using ix_remove_correct [of ?both 3] ix.lookup [of ?both] by auto
qed

text \<open>
  C24: Inserting an id succeeds exactly when the id is valid, the slot fits 16 bits, and the id is already held or
  the index is not full; then it is found at its slot and every other id is found as before, and
  otherwise nothing changes.
\<close>

theorem ix_insert_correct:
  assumes "ix_inv t"
  shows "\<exists>t'. ix_insert t k v =
      (ix_valid k \<and> v < 2 ^ 16 \<and> (ix_get t k \<noteq> None \<or> ix_len t < length (ix_keys t)), t') \<and> ix_inv t' \<and>
    (\<forall>k'. ix_get t' k' = (if fst (ix_insert t k v) \<and> k' = k then Some v else ix_get t k'))"
proof -
  have "ix_admit t k v \<longleftrightarrow> ix_valid k \<and> v < 2 ^ 16 \<and> (ix_get t k \<noteq> None \<or> ix_len t < length (ix_keys t))"
    by (simp add: ix_admit_def ix.lookup [OF assms])
  moreover obtain t' where "ix_insert t k v = (ix_admit t k v, t')" "ix_inv t'"
    "ix_map t' = (if ix_admit t k v then (ix_map t)(k \<mapsto> v) else ix_map t)"
    using ix_insert_spec [OF assms] by blast
  ultimately show ?thesis using ix.lookup [OF assms] ix.lookup [of t'] by auto
qed

theorem ix_insert_correct_witness:
  "\<exists>t'. ix_insert (ix_new 4) 9 5 = (True, t') \<and> ix_get t' 9 = Some 5"
proof -
  have "ix_inv (ix_new 4)" using ix_new_inv(1) [of 2] by simp
  moreover have "ix_valid 9" "ix_len (ix_new 4) < length (ix_keys (ix_new 4))"
    by (simp_all add: ix_valid_def EMPTY_def PID_MAX_def ix_new_def)
  ultimately show ?thesis using ix_insert_correct [of "ix_new 4" 9 5] by auto
qed

end
