(* ===== verification/Kva_Sort.thy ===== *)
theory Kva_Sort
  imports Prelude
begin

text \<open>
  The in-place heapsort of \<open>crates/core/src/mm/kva.rs\<close>, with which the kernel virtual
  address allocator orders its free ranges when it coalesces them. The loops are recursive functions on the array; the heap
  order is the usual one, with every entry of \<open>v[..end]\<close> at most its parent at \<open>(c - 1) / 2\<close>.
\<close>

record vrange =
  rg_start :: nat
  rg_len :: nat

definition swap :: "'a list \<Rightarrow> nat \<Rightarrow> nat \<Rightarrow> 'a list" where
  "swap v i j = v[i := v ! j, j := v ! i]"

function sift_down :: "vrange list \<Rightarrow> nat \<Rightarrow> nat \<Rightarrow> vrange list" where
  "sift_down v root end =
     (let child = 2 * root + 1 in
      if child \<ge> end then v
      else
        (let c = (if child + 1 < end \<and> rg_start (v ! (child + 1)) > rg_start (v ! child) then child + 1 else child) in
         if rg_start (v ! root) \<ge> rg_start (v ! c) then v
         else sift_down (swap v root c) c end))"
  by pat_completeness auto
termination
  by (relation "measure (\<lambda>(v, root, end). end - root)") auto

declare sift_down.simps [simp del]

text \<open>The two loops of \<open>sort_by_start\<close>: \<open>while i > 0\<close>, then \<open>while end > 1\<close>.\<close>

fun heapify :: "vrange list \<Rightarrow> nat \<Rightarrow> vrange list" where
  "heapify v 0 = v"
| "heapify v (Suc i) = heapify (sift_down v i (length v)) i"

fun sort_heap :: "vrange list \<Rightarrow> nat \<Rightarrow> vrange list" where
  "sort_heap v 0 = v"
| "sort_heap v (Suc 0) = v"
| "sort_heap v (Suc (Suc e)) = sort_heap (sift_down (swap v 0 (Suc e)) 0 (Suc e)) (Suc e)"

definition sort_by_start :: "vrange list \<Rightarrow> vrange list" where
  "sort_by_start v = (let n = length v; v' = heapify v (n div 2) in sort_heap v' n)"

section \<open>Swapping and sifting permute\<close>

lemma length_swap [simp]: "length (swap v i j) = length v"
  by (simp add: swap_def)

lemma swap_nth:
  "i < length v \<Longrightarrow> j < length v \<Longrightarrow> k < length v \<Longrightarrow>
   swap v i j ! k = (if k = j then v ! i else if k = i then v ! j else v ! k)"
  by (auto simp: swap_def nth_list_update)

lemma mset_swap' [simp]: "i < length v \<Longrightarrow> j < length v \<Longrightarrow> mset (swap v i j) = mset v"
  unfolding swap_def by (rule mset_swap)

lemma sift_down_perm:
  "end \<le> length v \<Longrightarrow> mset (sift_down v root end) = mset v \<and> length (sift_down v root end) = length v \<and>
   (\<forall>k. k < root \<or> end \<le> k \<longrightarrow> k < length v \<longrightarrow> sift_down v root end ! k = v ! k)"
proof (induction v root "end" rule: sift_down.induct)
  case (1 v root "end")
  let ?child = "2 * root + 1"
  let ?c = "if ?child + 1 < end \<and> rg_start (v ! (?child + 1)) > rg_start (v ! ?child) then ?child + 1 else ?child"
  show ?case
  proof (cases "?child \<ge> end \<or> rg_start (v ! root) \<ge> rg_start (v ! ?c)")
    case True
    then have "sift_down v root end = v" by (subst sift_down.simps) (auto simp: Let_def)
    then show ?thesis by simp
  next
    case False
    then have c: "\<not> ?child \<ge> end" "\<not> rg_start (v ! root) \<ge> rg_start (v ! ?c)" by blast+
    then have e: "sift_down v root end = sift_down (swap v root ?c) ?c end"
      by (subst sift_down.simps) (auto simp: Let_def)
    have b: "?c < end" "root < ?c" "root < length v" "?c < length v" using c(1) 1(2) by auto
    have "mset (sift_down (swap v root ?c) ?c end) = mset (swap v root ?c) \<and>
        length (sift_down (swap v root ?c) ?c end) = length (swap v root ?c) \<and>
        (\<forall>k. k < ?c \<or> end \<le> k \<longrightarrow> k < length (swap v root ?c) \<longrightarrow>
          sift_down (swap v root ?c) ?c end ! k = swap v root ?c ! k)"
      by (rule 1(1) [OF refl c(1) refl c(2)]) (use 1(2) in simp)
    then show ?thesis unfolding e using b swap_nth [OF b(3,4)] by auto
  qed
qed

section \<open>Heap order\<close>

abbreviation key :: "vrange list \<Rightarrow> nat \<Rightarrow> nat" where
  "key v i \<equiv> rg_start (v ! i)"

definition parent :: "nat \<Rightarrow> nat" where
  "parent c = (c - 1) div 2"

lemma parent_child: "0 < c \<Longrightarrow> parent c = i \<longleftrightarrow> c = 2 * i + 1 \<or> c = 2 * i + 2"
  by (auto simp: parent_def)

lemma parent_less: "0 < c \<Longrightarrow> parent c < c"
  by (auto simp: parent_def)

definition heap :: "vrange list \<Rightarrow> nat \<Rightarrow> nat \<Rightarrow> bool" where
  "heap v lo end \<longleftrightarrow> (\<forall>c. 0 < c \<and> c < end \<and> lo \<le> parent c \<longrightarrow> key v c \<le> key v (parent c))"

text \<open>Heap order except below \<open>root\<close>, whose children are still at most its parent.\<close>

definition heap_except :: "vrange list \<Rightarrow> nat \<Rightarrow> nat \<Rightarrow> nat \<Rightarrow> bool" where
  "heap_except v lo end root \<longleftrightarrow>
     (\<forall>c. 0 < c \<and> c < end \<and> lo \<le> parent c \<and> parent c \<noteq> root \<longrightarrow> key v c \<le> key v (parent c)) \<and>
     (\<forall>c. 0 < c \<and> c < end \<and> parent c = root \<and> 0 < root \<and> lo \<le> parent root \<longrightarrow> key v c \<le> key v (parent root))"

lemma heap_except_swap:
  assumes h: "heap_except v lo end root" and lo: "lo \<le> root" and e: "end \<le> length v" and
    c: "0 < c" "c < end" "parent c = root" "key v root < key v c"
    and best: "\<And>d. 0 < d \<Longrightarrow> d < end \<Longrightarrow> parent d = root \<Longrightarrow> key v d \<le> key v c"
  shows "heap_except (swap v root c) lo end c"
proof -
  have rc: "root < c" "root < length v" "c < length v" using parent_less [OF c(1)] c e by auto
  have k: "key (swap v root c) x = (if x = c then key v root else if x = root then key v c else key v x)" if "x < end" for x
    using swap_nth [OF rc(2,3), of x] that e by simp
  have root_c: "root \<noteq> c" using rc by simp
  have 1: "key (swap v root c) d \<le> key (swap v root c) (parent d)"
    if d: "0 < d" "d < end" "lo \<le> parent d" "parent d \<noteq> c" for d
  proof -
    have pd: "parent d < end" using parent_less [OF d(1)] d(2) by simp
    consider (c) "d = c" | (sib) "d \<noteq> c" "parent d = root" | (root) "d = root" | (other) "d \<noteq> c" "d \<noteq> root" "parent d \<noteq> root"
      by blast
    then show ?thesis
    proof cases
      case c
      then show ?thesis using k [of d] k [of root] \<open>parent c = root\<close> \<open>key v root < key v c\<close> d rc root_c by simp
    next
      case sib
      then have "d \<noteq> root" using parent_less [OF d(1)] by auto
      then show ?thesis using k [of d] k [of root] best [of d] sib d pd rc root_c by simp
    next
      case root
      have "key v c \<le> key v (parent root)"
        using h c d root rc unfolding heap_except_def by blast
      moreover have "parent root \<noteq> root" using parent_less d(1) root by (metis nat_neq_iff)
      ultimately show ?thesis using k [of d] k [of "parent d"] root root_c d pd by simp
    next
      case other
      then have "key v d \<le> key v (parent d)" using h d unfolding heap_except_def by blast
      then show ?thesis using k [of d] k [of "parent d"] other d pd by simp
    qed
  qed
  have 2: "key (swap v root c) d \<le> key (swap v root c) (parent c)"
    if d: "0 < d" "d < end" "parent d = c" for d
  proof -
    have "d \<noteq> c" "d \<noteq> root" using parent_less [OF d(1)] d(3) rc by auto
    moreover have "key v d \<le> key v c"
      using h d c lo rc unfolding heap_except_def by (metis less_imp_le le_trans nat_neq_iff)
    ultimately show ?thesis using k [of d] k [OF less_trans [OF rc(1) c(2)]] d c(3) rc root_c by simp
  qed
  show ?thesis unfolding heap_except_def using 1 2 by blast
qed

lemma sift_down_heap:
  "heap_except v lo end root \<Longrightarrow> lo \<le> root \<Longrightarrow> end \<le> length v \<Longrightarrow> heap (sift_down v root end) lo end"
proof (induction v root "end" rule: sift_down.induct)
  case (1 v root "end")
  let ?child = "2 * root + 1"
  let ?c = "if ?child + 1 < end \<and> rg_start (v ! (?child + 1)) > rg_start (v ! ?child) then ?child + 1 else ?child"
  have kids: "d = ?child \<or> d = ?child + 1" if "0 < d" "parent d = root" for d
    using parent_child [OF that(1), of root] that(2) by auto
  show ?case
  proof (cases "?child \<ge> end \<or> rg_start (v ! root) \<ge> rg_start (v ! ?c)")
    case True
    then have e: "sift_down v root end = v" by (subst sift_down.simps) (auto simp: Let_def)
    have "key v d \<le> key v (parent d)" if d: "0 < d" "d < end" "lo \<le> parent d" for d
    proof (cases "parent d = root")
      case p: True
      then have "key v d \<le> key v ?c" using kids [OF d(1) p] d(2) by auto
      then show ?thesis using True p kids [OF d(1) p] d(2) by auto
    next
      case False
      then show ?thesis using 1(2) d unfolding heap_except_def by blast
    qed
    then show ?thesis unfolding e heap_def by blast
  next
    case False
    then have c: "\<not> ?child \<ge> end" "\<not> rg_start (v ! root) \<ge> rg_start (v ! ?c)" by blast+
    then have e: "sift_down v root end = sift_down (swap v root ?c) ?c end"
      by (subst sift_down.simps) (auto simp: Let_def)
    have "heap_except (swap v root ?c) lo end ?c"
    proof (rule heap_except_swap [OF 1(2,3,4)])
      show "key v d \<le> key v ?c" if "0 < d" "d < end" "parent d = root" for d
        using kids [OF that(1,3)] that(2) by auto
    qed (use c in \<open>auto simp: parent_def\<close>)
    then show ?thesis unfolding e by (rule 1(1) [OF refl c(1) refl c(2)]) (use 1(3,4) in auto)
  qed
qed

lemma heapify_heap:
  assumes "heap v i (length v)"
  shows "heap (heapify v i) 0 (length v) \<and> mset (heapify v i) = mset v"
  using assms
proof (induction i arbitrary: v)
  case (Suc i)
  have "heap_except v i (length v) i"
    using Suc.prems unfolding heap_except_def heap_def
    by (auto simp: parent_def)
  then have "heap (sift_down v i (length v)) i (length v)" by (rule sift_down_heap) simp_all
  then show ?case using Suc.IH [of "sift_down v i (length v)"] sift_down_perm [of "length v" v i] by simp
qed simp

lemma heap_root_max: "heap v 0 end \<Longrightarrow> c < end \<Longrightarrow> key v c \<le> key v 0"
proof (induction c rule: less_induct)
  case (less c)
  show ?case
  proof (cases "c = 0")
    case False
    then have "key v c \<le> key v (parent c)" using less.prems unfolding heap_def by blast
    also have "\<dots> \<le> key v 0" using less parent_less [of c] False by simp
    finally show ?thesis .
  qed simp
qed

text \<open>What the second loop keeps: a heap in front, and behind it the larger entries in order.\<close>

definition tail_sorted :: "vrange list \<Rightarrow> nat \<Rightarrow> bool" where
  "tail_sorted v e \<longleftrightarrow> (\<forall>i j. e \<le> i \<and> i \<le> j \<and> j < length v \<longrightarrow> key v i \<le> key v j) \<and>
     (\<forall>i j. i < e \<and> e \<le> j \<and> j < length v \<longrightarrow> key v i \<le> key v j)"

lemma sort_heap_step:
  assumes "heap v 0 (Suc e)" "tail_sorted v (Suc e)" "0 < e" "e < length v"
  defines "v' \<equiv> sift_down (swap v 0 e) 0 e"
  shows "heap v' 0 e" "tail_sorted v' e" "mset v' = mset v" "length v' = length v"
proof -
  let ?w = "swap v 0 e"
  have len: "0 < length v" "e \<le> length ?w" using assms(3,4) by auto
  have k: "key ?w x = (if x = e then key v 0 else if x = 0 then key v e else key v x)" if "x < length v" for x
    using swap_nth [of 0 v e x] assms(4) len that by simp
  note perm = sift_down_perm [OF len(2), of 0]
  have "heap_except ?w 0 e 0"
    unfolding heap_except_def
  proof (intro conjI allI impI)
    fix c assume c: "0 < c \<and> c < e \<and> 0 \<le> parent c \<and> parent c \<noteq> 0"
    moreover have "parent c < c" using c parent_less by blast
    ultimately show "key ?w c \<le> key ?w (parent c)"
      using k [of c] k [of "parent c"] assms(1,4) unfolding heap_def by simp
  qed simp
  then show "heap v' 0 e" unfolding v'_def by (rule sift_down_heap) (use len in simp_all)
  show "mset v' = mset v" "length v' = length v" using perm assms(4) len by (simp_all add: v'_def)
  have above: "key v' j = key ?w j" if "e \<le> j" "j < length v" for j using perm that by (simp add: v'_def)
  have max: "key v i \<le> key v 0" if "i < Suc e" for i using heap_root_max [OF assms(1) that] .
  have below: "\<exists>i' < Suc e. key v' i = key v i'" if i: "i < e" for i
  proof -
    have t: "mset (take e v') = mset (take e ?w)"
    proof -
      have "drop e v' = drop e ?w" using perm by (intro nth_equalityI) (auto simp: v'_def)
      moreover have "mset (take e v') + mset (drop e v') = mset (take e ?w) + mset (drop e ?w)"
        using perm by (metis append_take_drop_id mset_append v'_def)
      ultimately show ?thesis by simp
    qed
    have "v' ! i \<in> set (take e v')" using i assms(4) perm by (auto simp: v'_def in_set_conv_nth intro!: exI [of _ i])
    then have "v' ! i \<in> set (take e ?w)" using mset_eq_setD [OF t] by simp
    then obtain j where "j < e" "v' ! i = ?w ! j" using assms(4) by (auto simp: in_set_conv_nth)
    then have "key v' i = key v (if j = 0 then e else j)" using k [of j] assms(4) by (auto intro: less_trans)
    then show ?thesis using \<open>j < e\<close> by (intro exI [of _ "if j = 0 then e else j"]) auto
  qed
  show "tail_sorted v' e"
    unfolding tail_sorted_def
  proof (intro conjI allI impI)
    fix i j assume ij: "e \<le> i \<and> i \<le> j \<and> j < length v'"
    then have j: "j < length v" "i < length v" using \<open>length v' = length v\<close> by simp_all
    show "key v' i \<le> key v' j"
    proof (cases "i = e")
      case True
      then show ?thesis using above [of i] above [of j] k [of i] k [of j] ij j assms(2,3) unfolding tail_sorted_def by fastforce
    next
      case False
      then show ?thesis using above [of i] above [of j] k [of i] k [of j] ij j assms(2,3) unfolding tail_sorted_def by simp
    qed
  next
    fix i j assume ij: "i < e \<and> e \<le> j \<and> j < length v'"
    then have j: "j < length v" using \<open>length v' = length v\<close> by simp
    obtain i' where i': "i' < Suc e" "key v' i = key v i'" using below ij by blast
    show "key v' i \<le> key v' j"
    proof (cases "j = e")
      case True
      then show ?thesis using above [of j] k [of j] j max [OF i'(1)] i'(2) assms(3) by simp
    next
      case False
      then have "key v i' \<le> key v j" using assms(2) i'(1) ij j unfolding tail_sorted_def by simp
      then show ?thesis using above [of j] k [of j] j i'(2) ij False assms(3) by simp
    qed
  qed
qed

lemma sort_heap_sorted:
  "heap v 0 e \<Longrightarrow> tail_sorted v e \<Longrightarrow> e \<le> length v \<Longrightarrow>
   mset (sort_heap v e) = mset v \<and> sorted (map rg_start (sort_heap v e))"
proof (induction v e rule: sort_heap.induct)
  case (1 v)
  then show ?case by (auto simp: tail_sorted_def sorted_iff_nth_mono)
next
  case (2 v)
  have "key v i \<le> key v j" if "i \<le> j" "j < length v" for i j
    using 2(2) that unfolding tail_sorted_def by (cases "i = 0"; cases "j = 0") auto
  then show ?case by (auto simp: sorted_iff_nth_mono)
next
  case (3 v e)
  have "Suc e < length v" using 3(4) by simp
  from sort_heap_step [OF 3(2,3) _ this] 3(1) 3(4) show ?case by simp
qed

lemma sort_by_start_perm: "mset (sort_by_start v) = mset v"
  and sort_by_start_sorted: "sorted (map rg_start (sort_by_start v))"
proof -
  have "heap v (length v div 2) (length v)" by (auto simp: heap_def parent_def)
  from heapify_heap [OF this] have h: "heap (heapify v (length v div 2)) 0 (length v)"
    "mset (heapify v (length v div 2)) = mset v" by blast+
  then have l: "length (heapify v (length v div 2)) = length v" by (metis size_mset)
  from sort_heap_sorted [OF h(1)] have "mset (sort_by_start v) = mset v \<and> sorted (map rg_start (sort_by_start v))"
    unfolding sort_by_start_def Let_def using h(2) l by (simp add: tail_sorted_def)
  then show "mset (sort_by_start v) = mset v" "sorted (map rg_start (sort_by_start v))" by blast+
qed

end
