(* ===== verification/Kva.thy ===== *)
theory Kva
  imports Kva_Sort
begin

text \<open>
  The allocator of kernel virtual address ranges, \<open>Kva\<close> of
  \<open>crates/core/src/mm/kva.rs\<close>: a pool of nodes, some of them linked into the free list, the
  others on a stack of spare nodes. Allocation is first fit; a freed range goes to
  the tail; and when no spare node is left the list is sorted and adjacent ranges are merged. The
  bounds of the window keep every address sum below \<open>2 ^ 64\<close>, which the invariant includes,
  so the sums are checked. The walk along the list has the number of nodes as fuel, and running out of
  it, which stands for a cycle, is \<open>None\<close>.
\<close>

definition PAGE_SIZE :: nat where "PAGE_SIZE = 4096"

definition KVA_START :: nat where "KVA_START = 0xFFFFD00000000000"

definition KVA_SIZE :: nat where "KVA_SIZE = 64 * 1024 * 1024 * 1024"

text \<open>\<open>MAX_THREADS + 8 * MAX_CPUS + 64\<close>.\<close>

definition MAX_RANGES :: nat where "MAX_RANGES = 1024 + 8 * 64 + 64"

definition LIVE_CAP :: nat where "LIVE_CAP = MAX_RANGES - 2"

datatype kva_error = Exhausted | BadSize | NoVa | NoFrames | MapFailed

record kva =
  kv_nodes :: "vrange list"
  kv_next :: "nat option list"
  kv_head :: "nat option"
  kv_tail :: "nat option"
  kv_slots :: "nat list"
  kv_nslots :: nat
  kv_live :: nat
  kv_used :: nat
  kv_capacity :: nat

definition NO_RANGE :: vrange where
  "NO_RANGE = \<lparr>rg_start = 0, rg_len = 0\<rparr>"

definition kv_empty :: kva where
  "kv_empty = \<lparr>kv_nodes = replicate MAX_RANGES NO_RANGE, kv_next = replicate MAX_RANGES None,
     kv_head = None, kv_tail = None, kv_slots = replicate MAX_RANGES 0, kv_nslots = 0, kv_live = 0,
     kv_used = 0, kv_capacity = 0\<rparr>"

definition kv_alloc_slot :: "kva \<Rightarrow> (nat option \<times> kva) option" where
  "kv_alloc_slot k =
     (if kv_nslots k = 0 then Some (None, k)
      else do {
        i \<leftarrow> idx (kv_slots k) (kv_nslots k - 1);
        Some (Some i, k\<lparr>kv_nslots := kv_nslots k - 1\<rparr>) })"

definition kv_free_slot :: "kva \<Rightarrow> nat \<Rightarrow> kva option" where
  "kv_free_slot k i = do {
     slots \<leftarrow> upd (kv_slots k) (kv_nslots k) i;
     nodes \<leftarrow> upd (kv_nodes k) i NO_RANGE;
     Some (k\<lparr>kv_slots := slots, kv_nslots := kv_nslots k + 1, kv_nodes := nodes\<rparr>) }"

definition kv_init :: "kva \<Rightarrow> nat \<Rightarrow> nat \<Rightarrow> ((kva_error + unit) \<times> kva) option" where
  "kv_init k start sz = do {
     rassert (sz mod PAGE_SIZE = 0);
     rassert (start mod PAGE_SIZE = 0);
     let k1 = k\<lparr>kv_nodes := replicate (length (kv_nodes k)) NO_RANGE,
       kv_next := replicate (length (kv_next k)) None, kv_head := None, kv_tail := None,
       kv_slots := [0..<length (kv_slots k)], kv_nslots := MAX_RANGES, kv_live := 0, kv_used := 0,
       kv_capacity := sz\<rparr>;
     (r, k2) \<leftarrow> kv_alloc_slot k1;
     (case r of
        None \<Rightarrow> Some (Inl Exhausted, k2)
      | Some i \<Rightarrow> do {
          nodes \<leftarrow> upd (kv_nodes k2) i \<lparr>rg_start = start, rg_len = sz\<rparr>;
          next \<leftarrow> upd (kv_next k2) i None;
          Some (Inr (), k2\<lparr>kv_nodes := nodes, kv_next := next, kv_head := Some i, kv_tail := Some i\<rparr>) }) }"

definition kv_unlink :: "kva \<Rightarrow> nat option \<Rightarrow> nat \<Rightarrow> kva option" where
  "kv_unlink k prev i = do {
     nxt \<leftarrow> idx (kv_next k) i;
     k1 \<leftarrow> (case prev of
         Some p \<Rightarrow> do { next \<leftarrow> upd (kv_next k) p nxt; Some (k\<lparr>kv_next := next\<rparr>) }
       | None \<Rightarrow> Some (k\<lparr>kv_head := nxt\<rparr>));
     let k2 = (if kv_tail k1 = Some i then k1\<lparr>kv_tail := prev\<rparr> else k1);
     next \<leftarrow> upd (kv_next k2) i None;
     Some (k2\<lparr>kv_next := next\<rparr>) }"

text \<open>
  Taking \<open>len\<close> from the front of the range \<open>r\<close> at the node \<open>i\<close>, and the walk of \<open>alloc\<close> that finds it, at the node
  \<open>cur\<close> with the node \<open>prev\<close> before it.
\<close>

definition kv_take :: "kva \<Rightarrow> nat \<Rightarrow> nat option \<Rightarrow> nat \<Rightarrow> vrange \<Rightarrow> (nat option \<times> kva) option" where
  "kv_take k len prev i r = do {
     k1 \<leftarrow> (if rg_len r = len then do { k' \<leftarrow> kv_unlink k prev i; kv_free_slot k' i }
       else do {
         s \<leftarrow> add64 (rg_start r) len;
         nodes \<leftarrow> upd (kv_nodes k) i \<lparr>rg_start = s, rg_len = rg_len r - len\<rparr>;
         Some (k\<lparr>kv_nodes := nodes\<rparr>) });
     used \<leftarrow> add64 (kv_used k1) len;
     Some (Some (rg_start r), k1\<lparr>kv_used := used, kv_live := kv_live k1 + 1\<rparr>) }"

primrec kv_walk :: "nat \<Rightarrow> kva \<Rightarrow> nat \<Rightarrow> nat option \<Rightarrow> nat option \<Rightarrow> (nat option \<times> kva) option" where
  "kv_walk 0 k len prev cur = (case cur of None \<Rightarrow> Some (None, k) | Some _ \<Rightarrow> None)"
| "kv_walk (Suc n) k len prev cur =
     (case cur of
        None \<Rightarrow> Some (None, k)
      | Some i \<Rightarrow> do {
          r \<leftarrow> idx (kv_nodes k) i;
          if rg_len r \<ge> len then kv_take k len prev i r
          else do {
            nxt \<leftarrow> idx (kv_next k) i;
            kv_walk n k len cur nxt } })"

definition kv_alloc :: "kva \<Rightarrow> nat \<Rightarrow> (nat option \<times> kva) option" where
  "kv_alloc k len =
     (if len = 0 \<or> len mod PAGE_SIZE \<noteq> 0 \<or> kv_live k \<ge> LIVE_CAP then Some (None, k)
      else kv_walk MAX_RANGES k len None (kv_head k))"

definition kv_alloc_guarded :: "kva \<Rightarrow> nat \<Rightarrow> (nat option \<times> kva) option" where
  "kv_alloc_guarded k pages =
     (if pages = 0 then Some (None, k)
      else do {
        p \<leftarrow> add64 pages 1;
        rassert (p * PAGE_SIZE < 2 ^ 64);
        kv_alloc k (p * PAGE_SIZE) })"

text \<open>
  The in-place passes of \<open>coalesce_all\<close>: the index \<open>r\<close> runs over the ranges, \<open>n\<close> and \<open>w\<close>
  count what is kept.
\<close>

primrec kv_compact :: "nat list \<Rightarrow> vrange list \<Rightarrow> nat \<Rightarrow> (vrange list \<times> nat) option" where
  "kv_compact [] nodes n = Some (nodes, n)"
| "kv_compact (r # rs) nodes n = do {
     x \<leftarrow> idx nodes r;
     if rg_len x > 0 then do { nodes' \<leftarrow> upd nodes n x; kv_compact rs nodes' (n + 1) }
     else kv_compact rs nodes n }"

definition kv_merge_step :: "nat \<Rightarrow> vrange list \<Rightarrow> nat \<Rightarrow> (vrange list \<times> nat) option" where
  "kv_merge_step r nodes w = do {
     x \<leftarrow> idx nodes r;
     joins \<leftarrow> (if w > 0 then do {
         prev \<leftarrow> idx nodes (w - 1);
         e \<leftarrow> add64 (rg_start prev) (rg_len prev);
         Some (e = rg_start x) }
       else Some False);
     if joins then do {
       prev \<leftarrow> idx nodes (w - 1);
       l \<leftarrow> add64 (rg_len prev) (rg_len x);
       nodes' \<leftarrow> upd nodes (w - 1) (prev\<lparr>rg_len := l\<rparr>);
       Some (nodes', w) }
     else do {
       nodes' \<leftarrow> upd nodes w x;
       Some (nodes', w + 1) } }"

primrec kv_merge :: "nat list \<Rightarrow> vrange list \<Rightarrow> nat \<Rightarrow> (vrange list \<times> nat) option" where
  "kv_merge [] nodes w = Some (nodes, w)"
| "kv_merge (r # rs) nodes w = do {
     (nodes', w') \<leftarrow> kv_merge_step r nodes w;
     kv_merge rs nodes' w' }"

definition kv_coalesce_all :: "kva \<Rightarrow> kva option" where
  "kv_coalesce_all k = do {
     (nodes1, n) \<leftarrow> kv_compact [0..<MAX_RANGES] (kv_nodes k) 0;
     let nodes2 = sort_by_start (take n nodes1) @ drop n nodes1;
     (nodes3, w) \<leftarrow> kv_merge [0..<n] nodes2 0;
     Some (k\<lparr>kv_nodes := take w nodes3 @ replicate (length nodes3 - w) NO_RANGE,
           kv_next := map (\<lambda>i. if i + 1 < w then Some (i + 1) else None) [0..<length (kv_next k)],
           kv_head := (if w > 0 then Some 0 else None),
           kv_tail := (if w > 0 then Some (w - 1) else None),
           kv_slots := [w..<MAX_RANGES] @ drop (MAX_RANGES - w) (kv_slots k),
           kv_nslots := MAX_RANGES - w\<rparr>) }"

definition kv_free :: "kva \<Rightarrow> nat \<Rightarrow> nat \<Rightarrow> kva option" where
  "kv_free k start len = do {
     rassert (len mod PAGE_SIZE = 0 \<and> start mod PAGE_SIZE = 0);
     rassert (len > 0);
     rassert (kv_used k \<ge> len \<and> kv_live k > 0);
     k1 \<leftarrow> (if kv_nslots k = 0 then kv_coalesce_all k else Some k);
     rassert (kv_nslots k1 > 0);
     i \<leftarrow> idx (kv_slots k1) (kv_nslots k1 - 1);
     nodes \<leftarrow> upd (kv_nodes k1) i \<lparr>rg_start = start, rg_len = len\<rparr>;
     next \<leftarrow> upd (kv_next k1) i None;
     k2 \<leftarrow> (case kv_tail k1 of
         Some t \<Rightarrow> do {
           next' \<leftarrow> upd next t (Some i);
           Some (k1\<lparr>kv_next := next'\<rparr>) }
       | None \<Rightarrow> Some (k1\<lparr>kv_next := next, kv_head := Some i\<rparr>));
     Some (k2\<lparr>kv_nodes := nodes, kv_nslots := kv_nslots k1 - 1, kv_tail := Some i,
              kv_used := kv_used k - len, kv_live := kv_live k - 1\<rparr>) }"

text \<open>The free list, as \<open>free_list\<close> walks it, and its length as \<open>stats\<close> counts it.\<close>

primrec kv_chain :: "nat \<Rightarrow> kva \<Rightarrow> nat option \<Rightarrow> vrange list option" where
  "kv_chain 0 k cur = (case cur of None \<Rightarrow> Some [] | Some _ \<Rightarrow> None)"
| "kv_chain (Suc n) k cur =
     (case cur of
        None \<Rightarrow> Some []
      | Some i \<Rightarrow> do {
          r \<leftarrow> idx (kv_nodes k) i;
          nxt \<leftarrow> idx (kv_next k) i;
          rs \<leftarrow> kv_chain n k nxt;
          Some (r # rs) })"

definition kv_free_list :: "kva \<Rightarrow> vrange list option" where
  "kv_free_list k = kv_chain MAX_RANGES k (kv_head k)"

primrec kv_count :: "nat \<Rightarrow> kva \<Rightarrow> nat option \<Rightarrow> nat option" where
  "kv_count 0 k cur = (case cur of None \<Rightarrow> Some 0 | Some _ \<Rightarrow> None)"
| "kv_count (Suc m) k cur =
     (case cur of
        None \<Rightarrow> Some 0
      | Some i \<Rightarrow> do {
          nxt \<leftarrow> idx (kv_next k) i;
          n \<leftarrow> kv_count m k nxt;
          Some (n + 1) })"

record kva_stats =
  ks_used :: nat
  ks_capacity :: nat
  ks_free_ranges :: nat

definition kv_stats :: "kva \<Rightarrow> kva_stats option" where
  "kv_stats k = do {
     n \<leftarrow> kv_count MAX_RANGES k (kv_head k);
     Some \<lparr>ks_used = kv_used k, ks_capacity = kv_capacity k, ks_free_ranges = n\<rparr> }"

section \<open>Tilings of the window\<close>

text \<open>
  The abstract state of the allocator is a tiling: the free ranges and the live ones are non-empty, page aligned and
  disjoint, and together they are the window.
\<close>

definition iv :: "vrange \<Rightarrow> nat set" where
  "iv r = {rg_start r..<rg_start r + rg_len r}"

definition rg_ok :: "vrange \<Rightarrow> bool" where
  "rg_ok r \<longleftrightarrow> 0 < rg_len r \<and> rg_len r mod PAGE_SIZE = 0 \<and> rg_start r mod PAGE_SIZE = 0"

definition tiles :: "nat \<Rightarrow> nat \<Rightarrow> vrange list \<Rightarrow> bool" where
  "tiles base cap ps \<longleftrightarrow> distinct ps \<and> (\<forall>p \<in> set ps. rg_ok p) \<and>
     (\<forall>p \<in> set ps. \<forall>q \<in> set ps. p \<noteq> q \<longrightarrow> iv p \<inter> iv q = {}) \<and> (\<Union>p \<in> set ps. iv p) = {base..<base + cap}"

lemma tilesD:
  assumes "tiles base cap ps"
  shows "distinct ps" "p \<in> set ps \<Longrightarrow> rg_ok p"
    "p \<in> set ps \<Longrightarrow> q \<in> set ps \<Longrightarrow> p \<noteq> q \<Longrightarrow> iv p \<inter> iv q = {}" "(\<Union>p \<in> set ps. iv p) = {base..<base + cap}"
  using assms unfolding tiles_def by blast+

lemma tiles_mset:
  assumes "mset ps = mset qs"
  shows "tiles base cap ps \<longleftrightarrow> tiles base cap qs"
  unfolding tiles_def mset_eq_setD [OF assms] mset_eq_imp_distinct_iff [OF assms] ..

lemma vrange_eta [simp]: "\<lparr>rg_start = rg_start r, rg_len = rg_len r\<rparr> = (r :: vrange)"
  by simp

lemma iv_nonempty: "rg_ok r \<Longrightarrow> rg_start r \<in> iv r"
  by (simp add: rg_ok_def iv_def)

lemma tiles_within:
  assumes "tiles base cap ps" "p \<in> set ps"
  shows "base \<le> rg_start p" "rg_start p + rg_len p \<le> base + cap"
proof -
  have "iv p \<subseteq> {base..<base + cap}" using tilesD(4) [OF assms(1)] assms(2) by blast
  moreover have "0 < rg_len p" using tilesD(2) [OF assms] by (simp add: rg_ok_def)
  ultimately show "base \<le> rg_start p" "rg_start p + rg_len p \<le> base + cap"
    unfolding iv_def by (simp_all add: atLeastLessThan_subset_iff)
qed

lemma tiles_sum:
  assumes "tiles base cap ps"
  shows "sum_list (map rg_len ps) = cap"
proof -
  have "card (\<Union>p \<in> set ps. iv p) = (\<Sum>p \<in> set ps. card (iv p))"
    using tilesD(3) [OF assms] by (intro card_UN_disjoint) (auto simp: iv_def)
  also have "\<dots> = sum_list (map rg_len ps)"
    using tilesD(1) [OF assms] by (simp add: iv_def sum_list_distinct_conv_sum_set)
  finally show ?thesis using tilesD(4) [OF assms] by simp
qed

lemma iv_split: "iv \<lparr>rg_start = s, rg_len = a + b\<rparr> = iv \<lparr>rg_start = s, rg_len = a\<rparr> \<union> iv \<lparr>rg_start = s + a, rg_len = b\<rparr>"
  by (auto simp: iv_def)

text \<open>Cutting a range in two, and joining two that touch.\<close>

lemma tiles_cut:
  assumes "0 < a" "0 < b" "a mod PAGE_SIZE = 0"
  shows "tiles base cap (\<lparr>rg_start = s, rg_len = a + b\<rparr> # ps) \<longleftrightarrow>
    tiles base cap (\<lparr>rg_start = s, rg_len = a\<rparr> # \<lparr>rg_start = s + a, rg_len = b\<rparr> # ps)" (is "?L \<longleftrightarrow> ?R")
proof -
  let ?r = "\<lparr>rg_start = s, rg_len = a + b\<rparr>" and ?x = "\<lparr>rg_start = s, rg_len = a\<rparr>" and ?y = "\<lparr>rg_start = s + a, rg_len = b\<rparr>"
  have iv: "iv ?r = iv ?x \<union> iv ?y" "iv ?x \<inter> iv ?y = {}" by (auto simp: iv_def)
  have "PAGE_SIZE dvd a" using assms(3) by (simp add: mod_eq_0_iff_dvd)
  then have ok: "rg_ok ?r \<longleftrightarrow> rg_ok ?x \<and> rg_ok ?y"
    unfolding rg_ok_def mod_eq_0_iff_dvd using assms(1,2) by (auto simp: dvd_add_right_iff dvd_add_left_iff)
  have ne: "iv ?x \<noteq> {}" "iv ?y \<noteq> {}" using assms by (auto simp: iv_def)
  have xy: "?x \<noteq> ?y" using assms by simp
  have notin: "q \<notin> set ps" if "iv q \<noteq> {}" "iv q \<subseteq> A" "\<And>p. p \<in> set ps \<Longrightarrow> iv p \<inter> A = {}" for q A
    using that by blast
  show ?thesis
  proof
    assume L: ?L
    have d: "iv p \<inter> iv ?r = {}" if "p \<in> set ps" for p
      using tilesD(1) [OF L] tilesD(3) [OF L, of p ?r] that by auto
    have "?x \<notin> set ps" "?y \<notin> set ps" using notin [OF ne(1) _ d] notin [OF ne(2) _ d] iv(1) by auto
    then show ?R using L d xy iv ok unfolding tiles_def by (auto simp: Un_assoc)
  next
    assume R: ?R
    have d: "iv p \<inter> iv ?r = {}" if p: "p \<in> set ps" for p
    proof -
      have "p \<noteq> ?x" "p \<noteq> ?y" using tilesD(1) [OF R] p by auto
      then have "iv p \<inter> iv ?x = {}" "iv p \<inter> iv ?y = {}" using tilesD(3) [OF R, of p] p by auto
      then show ?thesis using iv(1) by blast
    qed
    have "iv ?r \<noteq> {}" using ne iv(1) by blast
    then have "?r \<notin> set ps" using notin [of ?r, OF _ order_refl d] by blast
    then show ?L using R d iv ok unfolding tiles_def by (auto simp: Un_assoc)
  qed
qed

text \<open>
  Free ranges that do not touch are at most one more than the live ones, since a live range lies
  between any two of them.
\<close>

lemma tiles_gaps:
  assumes "tiles base cap (F @ L)" "sorted_wrt (\<lambda>p q. rg_start p + rg_len p < rg_start q) F"
  shows "length F \<le> length L + 1"
proof -
  let ?fin = "\<lambda>i. rg_start (F ! i) + rg_len (F ! i)"
  have gap: "?fin i < rg_start (F ! j)" if "i < j" "j < length F" for i j
    using sorted_wrt_nth_less [OF assms(2) that] .
  have ok: "rg_ok (F ! i)" if "i < length F" for i using tilesD(2) [OF assms(1)] that by simp
  have ex: "\<exists>q \<in> set L. ?fin i \<in> iv q" if i: "i < length F - 1" for i
  proof -
    have il: "i < length F" using i by linarith
    have lt: "?fin i < rg_start (F ! (i + 1))" using gap [of i "i + 1"] i by simp
    have "base \<le> rg_start (F ! i)" "rg_start (F ! (i + 1)) \<le> base + cap"
      using tiles_within [OF assms(1), of "F ! i"] tiles_within [OF assms(1), of "F ! (i + 1)"] i by auto
    then have "?fin i \<in> (\<Union>p \<in> set (F @ L). iv p)" using lt tilesD(4) [OF assms(1)] by simp
    then obtain q where q: "q \<in> set (F @ L)" "?fin i \<in> iv q" by blast
    have "q \<notin> set F"
    proof
      assume "q \<in> set F"
      then obtain j where j: "j < length F" "q = F ! j" by (auto simp: in_set_conv_nth)
      consider "j < i" | "j = i" | "i < j" by linarith
      then show False
      proof cases
        case 1
        then show False using gap [OF _ il, of j] q(2) j by (simp add: iv_def)
      next
        case 2
        then show False using q(2) j by (simp add: iv_def)
      next
        case 3
        then show False using gap [of i j] q(2) j by (simp add: iv_def)
      qed
    qed
    then show ?thesis using q by auto
  qed
  then have "\<forall>i \<in> {..<length F - 1}. \<exists>q. q \<in> set L \<and> ?fin i \<in> iv q" by auto
  then obtain f where "\<forall>i \<in> {..<length F - 1}. f i \<in> set L \<and> ?fin i \<in> iv (f i)"
    by (rule bchoice [elim_format]) blast
  then have f: "f i \<in> set L" "?fin i \<in> iv (f i)" if "i < length F - 1" for i using that by auto
  have no: False if ij: "i < j" "j < length F - 1" "f i = f j" for i j
  proof -
    have "?fin i \<in> iv (f i)" "?fin j \<in> iv (f i)" "f i \<in> set L" using f [of i] f [of j] ij by (simp_all add: less_trans [OF ij(1,2)])
    moreover have "?fin i < rg_start (F ! j)" using gap ij by simp
    ultimately have "rg_start (F ! j) \<in> iv (f i)" by (auto simp: iv_def)
    moreover have "rg_start (F ! j) \<in> iv (F ! j)" using ok [of j] ij iv_nonempty by simp
    moreover have m: "F ! j \<in> set F" using ij(2) by (intro nth_mem) linarith
    moreover from m have "F ! j \<noteq> f i" using tilesD(1) [OF assms(1)] \<open>f i \<in> set L\<close> by auto
    ultimately show False using tilesD(3) [OF assms(1), of "F ! j" "f i"] \<open>f i \<in> set L\<close> by auto
  qed
  have "inj_on f {..<length F - 1}"
  proof (rule inj_onI)
    fix i j assume "i \<in> {..<length F - 1}" "j \<in> {..<length F - 1}" "f i = f j"
    then show "i = j" using no [of i j] no [of j i] by (metis lessThan_iff linorder_neqE_nat)
  qed
  moreover have "f ` {..<length F - 1} \<subseteq> set L" by (auto intro: f(1))
  ultimately have "card {..<length F - 1} \<le> card (set L)" by (rule card_inj_on_le) simp
  then show ?thesis using card_length [of L] by simp
qed

section \<open>Representation\<close>

text \<open>\<open>linked nx cur xs fin\<close>: following \<open>nx\<close> from \<open>cur\<close> visits \<open>xs\<close> and arrives at \<open>fin\<close>.\<close>

fun linked :: "nat option list \<Rightarrow> nat option \<Rightarrow> nat list \<Rightarrow> nat option \<Rightarrow> bool" where
  "linked nx cur [] fin \<longleftrightarrow> cur = fin"
| "linked nx cur (x # xs) fin \<longleftrightarrow> cur = Some x \<and> x < length nx \<and> linked nx (nx ! x) xs fin"

definition last_opt :: "'a list \<Rightarrow> 'a option" where
  "last_opt xs = (if xs = [] then None else Some (last xs))"

lemma last_opt_simps [simp]: "last_opt [] = None" "last_opt (xs @ [x]) = Some x"
  by (simp_all add: last_opt_def)

lemma last_opt_append: "ys \<noteq> [] \<Longrightarrow> last_opt (xs @ ys) = last_opt ys"
  by (simp add: last_opt_def)

lemma linked_append:
  "linked nx cur (xs @ ys) fin \<longleftrightarrow> (\<exists>m. linked nx cur xs m \<and> linked nx m ys fin)"
  by (induction xs arbitrary: cur) auto

lemma linked_update: "i \<notin> set xs \<Longrightarrow> linked (nx[i := v]) cur xs fin \<longleftrightarrow> linked nx cur xs fin"
  by (induction xs arbitrary: cur) auto

lemma linked_in: "linked nx cur xs fin \<Longrightarrow> x \<in> set xs \<Longrightarrow> x < length nx"
  by (induction xs arbitrary: cur) auto

definition kv_rep :: "kva \<Rightarrow> nat list \<Rightarrow> bool" where
  "kv_rep k xs \<longleftrightarrow>
     length (kv_nodes k) = MAX_RANGES \<and> length (kv_next k) = MAX_RANGES \<and>
     length (kv_slots k) = MAX_RANGES \<and> kv_nslots k \<le> MAX_RANGES \<and>
     linked (kv_next k) (kv_head k) xs None \<and> kv_tail k = last_opt xs \<and>
     distinct (xs @ take (kv_nslots k) (kv_slots k)) \<and>
     set (xs @ take (kv_nslots k) (kv_slots k)) = {..<MAX_RANGES} \<and>
     (\<forall>i \<in> set (take (kv_nslots k) (kv_slots k)). kv_nodes k ! i = NO_RANGE)"

abbreviation kv_ranges :: "kva \<Rightarrow> nat list \<Rightarrow> vrange list" where
  "kv_ranges k xs \<equiv> map ((!) (kv_nodes k)) xs"

text \<open>
  The invariant, for the window at \<open>base\<close> and the list \<open>L\<close> of the ranges handed out and not taken back.
\<close>

definition kv_inv :: "kva \<Rightarrow> nat \<Rightarrow> vrange list \<Rightarrow> bool" where
  "kv_inv k base L \<longleftrightarrow> (\<exists>xs. kv_rep k xs \<and> tiles base (kv_capacity k) (kv_ranges k xs @ L)) \<and>
     kv_live k = length L \<and> kv_used k = sum_list (map rg_len L) \<and> length L \<le> LIVE_CAP \<and>
     base + kv_capacity k < 2 ^ 64"

lemma kv_repD:
  assumes "kv_rep k xs"
  shows "length (kv_nodes k) = MAX_RANGES" "length (kv_next k) = MAX_RANGES" "length (kv_slots k) = MAX_RANGES"
    "kv_nslots k \<le> MAX_RANGES" "linked (kv_next k) (kv_head k) xs None" "kv_tail k = last_opt xs"
    "distinct (xs @ take (kv_nslots k) (kv_slots k))"
    "set (xs @ take (kv_nslots k) (kv_slots k)) = {..<MAX_RANGES}"
    "\<forall>i \<in> set (take (kv_nslots k) (kv_slots k)). kv_nodes k ! i = NO_RANGE"
  using assms unfolding kv_rep_def by blast+

lemma kv_rep_length:
  assumes "kv_rep k xs"
  shows "length xs + kv_nslots k = MAX_RANGES"
proof -
  have "length (xs @ take (kv_nslots k) (kv_slots k)) = card {..<MAX_RANGES}"
    using distinct_card [OF kv_repD(7) [OF assms]] kv_repD(8) [OF assms] by simp
  then show ?thesis using kv_repD(3,4) [OF assms] by simp
qed

lemma kv_chain_linked:
  "linked (kv_next k) cur xs None \<Longrightarrow> length xs \<le> n \<Longrightarrow> length (kv_nodes k) = length (kv_next k) \<Longrightarrow>
   kv_chain n k cur = Some (kv_ranges k xs)"
proof (induction xs arbitrary: cur n)
  case Nil
  then show ?case by (cases n) simp_all
next
  case (Cons x xs)
  then show ?case by (cases n) simp_all
qed

lemma kv_count_linked:
  "linked (kv_next k) cur xs None \<Longrightarrow> length xs \<le> n \<Longrightarrow> kv_count n k cur = Some (length xs)"
proof (induction xs arbitrary: cur n)
  case Nil
  then show ?case by (cases n) simp_all
next
  case (Cons x xs)
  then show ?case by (cases n) simp_all
qed

lemma kv_rep_free_list:
  assumes "kv_rep k xs"
  shows "kv_free_list k = Some (kv_ranges k xs)"
  unfolding kv_free_list_def
  using kv_chain_linked [OF kv_repD(5) [OF assms]] kv_rep_length [OF assms] kv_repD(1,2) [OF assms] by simp

section \<open>Allocation\<close>

text \<open>Removing a node from the list, and putting it on the stack of spare ones.\<close>

lemma linked_unlink:
  assumes "linked nx h (as @ [p] @ i # ds) None" "distinct (as @ [p] @ i # ds)"
  shows "linked (nx[p := nx ! i, i := None]) h (as @ [p] @ ds) None"
proof -
  have *: "linked nx h as (Some p)" "p < length nx" "linked nx (nx ! i) ds None" "p \<noteq> i"
    "i \<notin> set as" "p \<notin> set as" "i \<notin> set ds" "p \<notin> set ds"
    using assms by (auto simp: linked_append)
  then show ?thesis by (auto simp: linked_append linked_update)
qed

lemma kv_unlink_rep:
  assumes "linked (kv_next k) (kv_head k) (as @ i # ds) None" "distinct (as @ i # ds)"
    "kv_tail k = last_opt (as @ i # ds)"
  shows "\<exists>nx h. kv_unlink k (last_opt as) i =
      Some (k\<lparr>kv_next := nx, kv_head := h, kv_tail := last_opt (as @ ds)\<rparr>) \<and>
    length nx = length (kv_next k) \<and> linked nx h (as @ ds) None"
proof -
  have i: "i < length (kv_next k)" using linked_in [OF assms(1)] by simp
  have tl: "(if kv_tail k = Some i then last_opt as else kv_tail k) = last_opt (as @ ds)"
    using assms(2,3) by (auto simp: last_opt_def)
  show ?thesis
  proof (cases as rule: rev_cases)
    case Nil
    have "linked ((kv_next k)[i := None]) (kv_next k ! i) ds None"
      using assms(1,2) Nil by (simp add: linked_update)
    moreover have "kv_unlink k (last_opt as) i =
      Some (k\<lparr>kv_next := (kv_next k)[i := None], kv_head := kv_next k ! i, kv_tail := last_opt (as @ ds)\<rparr>)"
      unfolding kv_unlink_def using i tl Nil by (auto simp: Let_def)
    ultimately show ?thesis using Nil by (intro exI conjI) simp_all
  next
    case (snoc as' p)
    have p: "p < length (kv_next k)" using linked_in [OF assms(1)] snoc by simp
    have "linked ((kv_next k)[p := kv_next k ! i, i := None]) (kv_head k) (as @ ds) None"
      using linked_unlink [of "kv_next k" "kv_head k" as' p i ds] assms(1,2) snoc by simp
    moreover have "kv_unlink k (last_opt as) i =
      Some (k\<lparr>kv_next := (kv_next k)[p := kv_next k ! i, i := None], kv_head := kv_head k, kv_tail := last_opt (as @ ds)\<rparr>)"
      unfolding kv_unlink_def using i p tl snoc by (auto simp: Let_def)
    ultimately show ?thesis by (intro exI conjI) simp_all
  qed
qed

lemma kv_drop_node_rep:
  assumes "kv_rep k (as @ i # ds)"
  shows "\<exists>k'. (kv_unlink k (last_opt as) i \<bind> (\<lambda>k'. kv_free_slot k' i)) = Some k' \<and> kv_rep k' (as @ ds) \<and>
    (\<forall>j. j \<noteq> i \<longrightarrow> kv_nodes k' ! j = kv_nodes k ! j) \<and>
    kv_used k' = kv_used k \<and> kv_live k' = kv_live k \<and> kv_capacity k' = kv_capacity k"
proof -
  note R = kv_repD [OF assms]
  obtain nx h where u: "kv_unlink k (last_opt as) i =
      Some (k\<lparr>kv_next := nx, kv_head := h, kv_tail := last_opt (as @ ds)\<rparr>)"
    and nx: "length nx = length (kv_next k)" "linked nx h (as @ ds) None"
    using kv_unlink_rep [OF R(5) _ R(6)] R(7) by auto
  have ns: "kv_nslots k < MAX_RANGES" using kv_rep_length [OF assms] by simp
  have i: "i < MAX_RANGES" using R(8) by auto
  let ?k = "k\<lparr>kv_next := nx, kv_head := h, kv_tail := last_opt (as @ ds),
    kv_slots := (kv_slots k)[kv_nslots k := i], kv_nslots := kv_nslots k + 1, kv_nodes := (kv_nodes k)[i := NO_RANGE]\<rparr>"
  have sl: "take (kv_nslots k + 1) ((kv_slots k)[kv_nslots k := i]) = take (kv_nslots k) (kv_slots k) @ [i]"
    using ns R(3) by simp
  have sp: "\<forall>j \<in> set (take (kv_nslots k) (kv_slots k) @ [i]). (kv_nodes k)[i := NO_RANGE] ! j = NO_RANGE"
    using R(1,9) i by (auto simp: nth_list_update)
  have "(kv_unlink k (last_opt as) i \<bind> (\<lambda>k'. kv_free_slot k' i)) = Some ?k"
    using u ns i R(1,3) by (simp add: kv_free_slot_def)
  moreover have "kv_rep ?k (as @ ds)"
    unfolding kv_rep_def using R(1-8) ns nx sl sp by auto
  ultimately show ?thesis by (intro exI [of _ ?k]) simp
qed

lemma nth_update_other:
  assumes "i \<notin> A" "\<forall>j \<in> A. xs ! j = v"
  shows "\<forall>j \<in> A. xs[i := w] ! j = v"
proof
  fix j assume "j \<in> A"
  then have "i \<noteq> j" using assms(1) by blast
  then show "xs[i := w] ! j = v" using assms(2) \<open>j \<in> A\<close> by simp
qed

text \<open>Taking the front of a node's range, when the range fits.\<close>

lemma kv_take_spec:
  assumes "kv_rep k (as @ i # ds)" "tiles base (kv_capacity k) (kv_ranges k (as @ i # ds) @ L)"
    "0 < len" "len mod PAGE_SIZE = 0" "len \<le> rg_len (kv_nodes k ! i)"
    "base + kv_capacity k < 2 ^ 64" "kv_used k = sum_list (map rg_len L)"
  shows "\<exists>k' xs. kv_take k len (last_opt as) i (kv_nodes k ! i) = Some (Some (rg_start (kv_nodes k ! i)), k') \<and>
    kv_rep k' xs \<and>
    tiles base (kv_capacity k) (kv_ranges k' xs @ \<lparr>rg_start = rg_start (kv_nodes k ! i), rg_len = len\<rparr> # L) \<and>
    kv_used k' = kv_used k + len \<and> kv_live k' = kv_live k + 1 \<and> kv_capacity k' = kv_capacity k"
proof -
  note R = kv_repD [OF assms(1)]
  let ?r = "kv_nodes k ! i" and ?g = "\<lparr>rg_start = rg_start (kv_nodes k ! i), rg_len = len\<rparr>"
  have i: "i < MAX_RANGES" using R(8) by auto
  have ids: "i \<notin> set as" "i \<notin> set ds" using R(7) by auto
  have win: "rg_start ?r + rg_len ?r \<le> base + kv_capacity k"
    using tiles_within(2) [OF assms(2), of ?r] by simp
  have "sum_list (map rg_len (kv_ranges k (as @ i # ds) @ L)) = kv_capacity k" by (rule tiles_sum [OF assms(2)])
  then have used: "kv_used k + len < 2 ^ 64" using assms(5,6,7) by simp
  have t: "tiles base (kv_capacity k) (?r # kv_ranges k (as @ ds) @ L)"
    using assms(2) tiles_mset [of "kv_ranges k (as @ i # ds) @ L" "?r # kv_ranges k (as @ ds) @ L"] by simp
  show ?thesis
  proof (cases "rg_len ?r = len")
    case True
    obtain k1 where k1: "(kv_unlink k (last_opt as) i \<bind> (\<lambda>k'. kv_free_slot k' i)) = Some k1" "kv_rep k1 (as @ ds)"
      "\<forall>j. j \<noteq> i \<longrightarrow> kv_nodes k1 ! j = kv_nodes k ! j"
      "kv_used k1 = kv_used k" "kv_live k1 = kv_live k" "kv_capacity k1 = kv_capacity k"
      using kv_drop_node_rep [OF assms(1)] by blast
    let ?k = "k1\<lparr>kv_used := kv_used k + len, kv_live := kv_live k + 1\<rparr>"
    have g: "?g = ?r" using True by simp
    have m: "kv_ranges ?k (as @ ds) = kv_ranges k (as @ ds)" using k1(3) ids by (intro map_cong) auto
    have "tiles base (kv_capacity k) (kv_ranges ?k (as @ ds) @ ?g # L)"
      using t tiles_mset [of "?r # kv_ranges k (as @ ds) @ L" "kv_ranges k (as @ ds) @ ?r # L"] unfolding m g by simp
    moreover have "kv_rep ?k (as @ ds)" using k1(2) by (simp add: kv_rep_def)
    ultimately show ?thesis using True k1 used
      by (intro exI [of _ ?k] exI [of _ "as @ ds"]) (simp add: kv_take_def)
  next
    case False
    let ?b = "\<lparr>rg_start = rg_start ?r + len, rg_len = rg_len ?r - len\<rparr>"
    let ?k = "k\<lparr>kv_nodes := (kv_nodes k)[i := ?b], kv_used := kv_used k + len, kv_live := kv_live k + 1\<rparr>"
    have rr: "kv_nodes k ! i = \<lparr>rg_start = rg_start ?r, rg_len = len + (rg_len ?r - len)\<rparr>" using assms(5) by simp
    have c: "tiles base (kv_capacity k) (?g # ?b # kv_ranges k (as @ ds) @ L)"
      using t tiles_cut [of len "rg_len ?r - len" base "kv_capacity k" "rg_start ?r"] assms(3,4,5) False
      by (subst (asm) (1) rr) simp
    have m: "kv_ranges ?k (as @ i # ds) = kv_ranges k as @ ?b # kv_ranges k ds"
      using ids i R(1) by (auto simp: nth_list_update)
    have "tiles base (kv_capacity k) (kv_ranges ?k (as @ i # ds) @ ?g # L)"
      using c tiles_mset [of "(kv_ranges k as @ ?b # kv_ranges k ds) @ ?g # L" "?g # ?b # kv_ranges k (as @ ds) @ L"]
      unfolding m by simp
    moreover have "i \<notin> set (take (kv_nslots k) (kv_slots k))" using R(7) by simp
    from nth_update_other [OF this R(9)] have "kv_rep ?k (as @ i # ds)"
      unfolding kv_rep_def using R(1-8) by simp
    ultimately show ?thesis using False used win i assms(5,6) R(1)
      by (intro exI [of _ ?k] exI [of _ "as @ i # ds"]) (simp add: kv_take_def)
  qed
qed

text \<open>The walk stops at the first node whose range is long enough.\<close>

lemma kv_walk_first_fit:
  "linked (kv_next k) cur xs None \<Longrightarrow> length xs \<le> n \<Longrightarrow> length (kv_nodes k) = length (kv_next k) \<Longrightarrow> cur = None \<or> prev = last_opt as \<Longrightarrow>
   kv_walk n k len prev cur =
     (if \<forall>x \<in> set xs. rg_len (kv_nodes k ! x) < len then Some (None, k)
      else let i = dropWhile (\<lambda>x. rg_len (kv_nodes k ! x) < len) xs ! 0
        in kv_take k len (last_opt (as @ takeWhile (\<lambda>x. rg_len (kv_nodes k ! x) < len) xs)) i (kv_nodes k ! i))"
proof (induction xs arbitrary: cur prev as n)
  case Nil
  then show ?case by (cases n) simp_all
next
  case (Cons x xs)
  then obtain m where m: "n = Suc m" by (cases n) auto
  have x: "cur = Some x" "x < length (kv_next k)" "linked (kv_next k) (kv_next k ! x) xs None" using Cons.prems by simp_all
  have IH: "kv_walk m k len cur (kv_next k ! x) =
     (if \<forall>x \<in> set xs. rg_len (kv_nodes k ! x) < len then Some (None, k)
      else let i = dropWhile (\<lambda>x. rg_len (kv_nodes k ! x) < len) xs ! 0
        in kv_take k len (last_opt ((as @ [x]) @ takeWhile (\<lambda>x. rg_len (kv_nodes k ! x) < len) xs)) i (kv_nodes k ! i))"
    using Cons.prems m x by (intro Cons.IH) auto
  show ?case
  proof (cases "len \<le> rg_len (kv_nodes k ! x)")
    case True
    then show ?thesis using x m Cons.prems by auto
  next
    case False
    then show ?thesis using x m Cons.prems IH by auto
  qed
qed

lemma find_dropWhile: "find P xs = (if \<forall>x \<in> set xs. \<not> P x then None else Some (dropWhile (\<lambda>x. \<not> P x) xs ! 0))"
  by (induction xs) auto

lemma kv_alloc_spec:
  assumes "kv_inv k base L" "kv_free_list k = Some F"
  shows "\<exists>k'. kv_alloc k len = Some (if len = 0 \<or> len mod PAGE_SIZE \<noteq> 0 \<or> length L = LIVE_CAP then None
        else map_option rg_start (find (\<lambda>r. len \<le> rg_len r) F), k') \<and>
    (\<forall>s. fst (the (kv_alloc k len)) = Some s \<longrightarrow> kv_inv k' base (\<lparr>rg_start = s, rg_len = len\<rparr> # L)) \<and>
    (fst (the (kv_alloc k len)) = None \<longrightarrow> k' = k) \<and> kv_capacity k' = kv_capacity k"
proof -
  obtain xs where r: "kv_rep k xs" and t: "tiles base (kv_capacity k) (kv_ranges k xs @ L)"
    and c: "kv_live k = length L" "kv_used k = sum_list (map rg_len L)" "length L \<le> LIVE_CAP" "base + kv_capacity k < 2 ^ 64"
    using assms(1) unfolding kv_inv_def by blast
  have F: "F = kv_ranges k xs" using kv_rep_free_list [OF r] assms(2) by simp
  show ?thesis
  proof (cases "len = 0 \<or> len mod PAGE_SIZE \<noteq> 0 \<or> length L = LIVE_CAP")
    case True
    then show ?thesis using c by (intro exI [of _ k]) (auto simp: kv_alloc_def)
  next
    case False
    have a: "kv_alloc k len = kv_walk MAX_RANGES k len None (kv_head k)" using False c(1,3) by (simp add: kv_alloc_def)
    note W = kv_walk_first_fit [OF kv_repD(5) [OF r], of MAX_RANGES None "[]" len, folded a]
    have W: "kv_alloc k len =
     (if \<forall>x \<in> set xs. rg_len (kv_nodes k ! x) < len then Some (None, k)
      else let i = dropWhile (\<lambda>x. rg_len (kv_nodes k ! x) < len) xs ! 0
        in kv_take k len (last_opt (takeWhile (\<lambda>x. rg_len (kv_nodes k ! x) < len) xs)) i (kv_nodes k ! i))"
      using W kv_rep_length [OF r] kv_repD(1,2) [OF r] by simp
    show ?thesis
    proof (cases "\<forall>x \<in> set xs. rg_len (kv_nodes k ! x) < len")
      case True
      then have "find (\<lambda>r. len \<le> rg_len r) F = None" by (auto simp: F find_dropWhile)
      then show ?thesis using W True False by (intro exI [of _ k]) auto
    next
      case no: False
      define as where "as = takeWhile (\<lambda>x. rg_len (kv_nodes k ! x) < len) xs"
      obtain i ds where d: "dropWhile (\<lambda>x. rg_len (kv_nodes k ! x) < len) xs = i # ds" "len \<le> rg_len (kv_nodes k ! i)"
        using no by (cases "dropWhile (\<lambda>x. rg_len (kv_nodes k ! x) < len) xs") (auto simp: dropWhile_eq_Cons_conv)
      have xs: "xs = as @ i # ds" using takeWhile_dropWhile_id [of "\<lambda>x. rg_len (kv_nodes k ! x) < len" xs] d by (simp add: as_def)
      have f: "find (\<lambda>r. len \<le> rg_len r) F = Some (kv_nodes k ! i)"
        using no d unfolding F find_dropWhile by (auto simp: dropWhile_map comp_def not_le)
      obtain k' ys where k': "kv_take k len (last_opt as) i (kv_nodes k ! i) = Some (Some (rg_start (kv_nodes k ! i)), k')"
        "kv_rep k' ys" "tiles base (kv_capacity k) (kv_ranges k' ys @ \<lparr>rg_start = rg_start (kv_nodes k ! i), rg_len = len\<rparr> # L)"
        "kv_used k' = kv_used k + len" "kv_live k' = kv_live k + 1" "kv_capacity k' = kv_capacity k"
        using kv_take_spec [of k as i ds base L len] r t xs False d(2) c by blast
      have "kv_inv k' base (\<lparr>rg_start = rg_start (kv_nodes k ! i), rg_len = len\<rparr> # L)"
        unfolding kv_inv_def using k' c False by auto
      moreover have "kv_alloc k len = Some (Some (rg_start (kv_nodes k ! i)), k')"
        using W no d k'(1) by (simp add: as_def)
      ultimately show ?thesis using f False k'(6) by (intro exI [of _ k']) auto
    qed
  qed
qed

section \<open>Coalescing\<close>

lemma kv_compact_spec:
  "r \<le> length nodes \<Longrightarrow> n \<le> r \<Longrightarrow> \<exists>nodes' n'. kv_compact [r..<length nodes] nodes n = Some (nodes', n') \<and>
     take n' nodes' = take n nodes @ filter (\<lambda>x. 0 < rg_len x) (drop r nodes) \<and>
     n' \<le> length nodes \<and> length nodes' = length nodes"
proof (induction "length nodes - r" arbitrary: r n nodes)
  case 0
  then show ?case by simp
next
  case (Suc m)
  then have r: "r < length nodes" by simp
  then have u: "[r..<length nodes] = r # [Suc r..<length nodes]" "drop r nodes = nodes ! r # drop (Suc r) nodes"
    by (simp_all add: upt_rec Cons_nth_drop_Suc)
  show ?case
  proof (cases "0 < rg_len (nodes ! r)")
    case True
    let ?ns = "nodes[n := nodes ! r]"
    have "\<exists>nodes' n'. kv_compact [Suc r..<length ?ns] ?ns (n + 1) = Some (nodes', n') \<and>
     take n' nodes' = take (n + 1) ?ns @ filter (\<lambda>x. 0 < rg_len x) (drop (Suc r) ?ns) \<and>
     n' \<le> length ?ns \<and> length nodes' = length ?ns"
      using Suc.hyps(2) Suc.prems r by (intro Suc.hyps(1)) simp_all
    then show ?thesis using True r u Suc.prems by simp
  next
    case False
    have "\<exists>nodes' n'. kv_compact [Suc r..<length nodes] nodes n = Some (nodes', n') \<and>
     take n' nodes' = take n nodes @ filter (\<lambda>x. 0 < rg_len x) (drop (Suc r) nodes) \<and>
     n' \<le> length nodes \<and> length nodes' = length nodes"
      using Suc.hyps(2) Suc.prems r by (intro Suc.hyps(1)) simp_all
    then show ?thesis using False r u by simp
  qed
qed

text \<open>One range onto a merged list: joined to the last one when they touch.\<close>

definition merge_snoc :: "vrange list \<Rightarrow> vrange \<Rightarrow> vrange list" where
  "merge_snoc M x = (if M \<noteq> [] \<and> rg_start (last M) + rg_len (last M) = rg_start x
     then butlast M @ [(last M)\<lparr>rg_len := rg_len (last M) + rg_len x\<rparr>] else M @ [x])"

lemma kv_merge_step_spec:
  assumes "w \<le> r" "r < length nodes"
    "\<And>y. y \<in> set (take w nodes) \<Longrightarrow> rg_start y + rg_len y < 2 ^ 64"
    "\<And>y. y \<in> set (take w nodes) \<Longrightarrow> rg_len y + rg_len (nodes ! r) < 2 ^ 64"
  shows "\<exists>nodes' w'. kv_merge_step r nodes w = Some (nodes', w') \<and> w' \<le> Suc r \<and> length nodes' = length nodes \<and>
    take w' nodes' = merge_snoc (take w nodes) (nodes ! r) \<and> drop (Suc r) nodes' = drop (Suc r) nodes"
proof (cases "w > 0")
  case False
  have u: "upd nodes 0 (nodes ! r) = Some (nodes[0 := nodes ! r])" using assms(2) by (intro upd_Some) linarith
  have "take 1 (nodes[0 := nodes ! r]) = [nodes ! r]" using assms(2) by (cases nodes) auto
  then show ?thesis using False assms(1,2) u by (simp add: kv_merge_step_def merge_snoc_def)
next
  case True
  then obtain v where v: "w = Suc v" by (cases w) auto
  have tk: "take w nodes = take v nodes @ [nodes ! v]" using v assms by (simp add: take_Suc_conv_app_nth)
  have b: "rg_start (nodes ! v) + rg_len (nodes ! v) < 2 ^ 64" "rg_len (nodes ! v) + rg_len (nodes ! r) < 2 ^ 64"
    using assms(3,4) [of "nodes ! v"] by (simp_all add: tk)
  show ?thesis
  proof (cases "rg_start (nodes ! v) + rg_len (nodes ! v) = rg_start (nodes ! r)")
    case True
    let ?ns = "nodes[v := (nodes ! v)\<lparr>rg_len := rg_len (nodes ! v) + rg_len (nodes ! r)\<rparr>]"
    have "kv_merge_step r nodes w = Some (?ns, w)"
      using True b v assms(1,2) by (simp add: kv_merge_step_def)
    moreover have "take w ?ns = merge_snoc (take w nodes) (nodes ! r)"
      using True v assms(1,2) unfolding tk merge_snoc_def by simp
    ultimately show ?thesis using v assms(1,2) by (intro exI [of _ ?ns] exI [of _ w]) simp
  next
    case False
    let ?ns = "nodes[w := nodes ! r]"
    have "kv_merge_step r nodes w = Some (?ns, w + 1)"
      using False b v assms(1,2) by (simp add: kv_merge_step_def)
    moreover have "take (w + 1) ?ns = merge_snoc (take w nodes) (nodes ! r)"
    proof -
      have "last (take w nodes) = nodes ! v" unfolding tk by simp
      then show ?thesis using False assms(1,2) by (simp add: merge_snoc_def)
    qed
    ultimately show ?thesis using assms(1,2) by (intro exI [of _ ?ns] exI [of _ "w + 1"]) simp
  qed
qed

lemma tiles_join:
  assumes "tiles base cap (M @ x # R)"
  shows "tiles base cap (merge_snoc M x @ R)"
proof (cases "M \<noteq> [] \<and> rg_start (last M) + rg_len (last M) = rg_start x")
  case True
  let ?l = "last M" and ?j = "\<lparr>rg_start = rg_start (last M), rg_len = rg_len (last M) + rg_len x\<rparr>"
  have M: "M = butlast M @ [?l]" using True by simp
  have ok: "rg_ok ?l" "rg_ok x" using tilesD(2) [OF assms] True by auto
  have x: "x = \<lparr>rg_start = rg_start ?l + rg_len ?l, rg_len = rg_len x\<rparr>" using True by simp
  have "mset (M @ x # R) = mset (?l # x # butlast M @ R)" by (subst M) simp
  then have "tiles base cap (?l # x # butlast M @ R)" using assms tiles_mset by blast
  moreover have "\<lparr>rg_start = rg_start ?l, rg_len = rg_len ?l\<rparr> = ?l" by simp
  ultimately have "tiles base cap (?j # butlast M @ R)"
    using tiles_cut [of "rg_len ?l" "rg_len x" base cap "rg_start ?l" "butlast M @ R"] ok
    unfolding x [symmetric] rg_ok_def by metis
  moreover have "mset (?j # butlast M @ R) = mset (butlast M @ ?j # R)" by simp
  ultimately have "tiles base cap (butlast M @ ?j # R)" using tiles_mset by blast
  moreover have e: "merge_snoc M x = butlast M @ [?j]" using True by (simp add: merge_snoc_def)
  ultimately show ?thesis unfolding e by simp
next
  case False
  then show ?thesis using assms by (auto simp: merge_snoc_def)
qed

text \<open>Ranges in order with a gap between any two.\<close>

definition apart :: "vrange list \<Rightarrow> bool" where
  "apart M \<longleftrightarrow> sorted_wrt (\<lambda>p q. rg_start p + rg_len p < rg_start q) M"

definition ends_by :: "vrange list \<Rightarrow> nat \<Rightarrow> bool" where
  "ends_by M a \<longleftrightarrow> (\<forall>p \<in> set M. rg_start p + rg_len p \<le> a)"

lemma apart_merge_snoc:
  assumes "apart M" "ends_by M (rg_start x)" "\<forall>p \<in> set M. 0 < rg_len p"
  shows "apart (merge_snoc M x)" "ends_by (merge_snoc M x) (rg_start x + rg_len x)"
proof -
  have "apart (merge_snoc M x) \<and> ends_by (merge_snoc M x) (rg_start x + rg_len x)"
  proof (cases M rule: rev_cases)
    case Nil
    then show ?thesis by (simp add: merge_snoc_def apart_def ends_by_def)
  next
    case (snoc N l)
    have lt: "\<forall>p \<in> set N. rg_start p + rg_len p < rg_start l" "rg_start l + rg_len l \<le> rg_start x" "0 < rg_len l"
      using assms snoc by (auto simp: apart_def ends_by_def sorted_wrt_append)
    show ?thesis
      using assms(1) snoc lt unfolding merge_snoc_def apart_def ends_by_def
      by (auto simp: sorted_wrt_append)
  qed
  then show "apart (merge_snoc M x)" "ends_by (merge_snoc M x) (rg_start x + rg_len x)" by simp_all
qed

text \<open>The merging pass over ranges in order keeps the tiling and leaves ranges that do not touch.\<close>

lemma tiles_ordered:
  assumes "tiles base cap (M @ x # R)" "\<forall>y \<in> set R0. rg_start x \<le> rg_start y" "set R0 \<subseteq> set R" "ends_by M (rg_start x)"
  shows "y \<in> set R0 \<Longrightarrow> rg_start x + rg_len x \<le> rg_start y"
proof (rule ccontr)
  assume y: "y \<in> set R0" and "\<not> rg_start x + rg_len x \<le> rg_start y"
  then have "rg_start y \<in> iv x" using assms(2) by (simp add: iv_def)
  moreover have yR: "y \<in> set (M @ x # R)" "y \<noteq> x" using y assms(1,3) tilesD(1) [OF assms(1)] by auto
  moreover have "rg_start y \<in> iv y" using tilesD(2) [OF assms(1) yR(1)] by (rule iv_nonempty)
  ultimately show False using tilesD(3) [OF assms(1), of y x] by auto
qed

lemma kv_merge_spec:
  assumes "tiles base cap (take w nodes @ drop r (take n nodes) @ L)" "w \<le> r" "r \<le> n" "n \<le> length nodes"
    "sorted (map rg_start (drop r (take n nodes)))" "apart (take w nodes)"
    "\<And>y. y \<in> set (drop r (take n nodes)) \<Longrightarrow> ends_by (take w nodes) (rg_start y)" "base + cap < 2 ^ 64"
  shows "\<exists>nodes' w'. kv_merge [r..<n] nodes w = Some (nodes', w') \<and> w' \<le> n \<and> length nodes' = length nodes \<and>
    apart (take w' nodes') \<and> tiles base cap (take w' nodes' @ L)"
  using assms
proof (induction "n - r" arbitrary: r w nodes)
  case 0
  then show ?case by simp
next
  case (Suc m)
  let ?x = "nodes ! r" and ?M = "take w nodes" and ?R = "drop (Suc r) (take n nodes)"
  have r: "r < n" using Suc.hyps(2) by simp
  have d: "drop r (take n nodes) = ?x # ?R" using r Suc.prems(4) Cons_nth_drop_Suc [of r "take n nodes"] by simp
  have u: "[r..<n] = r # [Suc r..<n]" using r by (simp add: upt_rec)
  have t: "tiles base cap (?M @ ?x # (?R @ L))" using Suc.prems(1) d by simp
  have eb: "ends_by ?M (rg_start ?x)" using Suc.prems(7) d by simp
  have in1: "y \<in> set (?M @ ?x # (?R @ L))" if "y \<in> set ?M" for y using that by simp
  have w1: "rg_start ?x + rg_len ?x < 2 ^ 64" using tiles_within(2) [OF t, of ?x] Suc.prems(8) by simp
  have b: "rg_start y + rg_len y < 2 ^ 64" "rg_len y + rg_len ?x < 2 ^ 64" if "y \<in> set ?M" for y
    using tiles_within(2) [OF t in1 [OF that]] Suc.prems(8) w1 eb that unfolding ends_by_def by force+
  obtain ns w' where s: "kv_merge_step r nodes w = Some (ns, w')" "w' \<le> Suc r" "length ns = length nodes"
    "take w' ns = merge_snoc ?M ?x" "drop (Suc r) ns = drop (Suc r) nodes"
    using kv_merge_step_spec [OF Suc.prems(2) _ b] r Suc.prems(4) by (metis less_le_trans)
  have R: "drop (Suc r) (take n ns) = ?R" using s(5) by (simp add: drop_take)
  have pos: "\<forall>p \<in> set ?M. 0 < rg_len p" using tilesD(2) [OF t in1] by (simp add: rg_ok_def)
  have ord: "\<forall>y \<in> set ?R. rg_start ?x \<le> rg_start y" using Suc.prems(5) d by simp
  have "\<exists>nodes' w''. kv_merge [Suc r..<n] ns w' = Some (nodes', w'') \<and> w'' \<le> n \<and> length nodes' = length ns \<and>
    apart (take w'' nodes') \<and> tiles base cap (take w'' nodes' @ L)"
  proof (rule Suc.hyps(1))
    show "tiles base cap (take w' ns @ drop (Suc r) (take n ns) @ L)" unfolding s(4) R by (rule tiles_join [OF t])
    show "sorted (map rg_start (drop (Suc r) (take n ns)))" using Suc.prems(5) d R by simp
    show "apart (take w' ns)" unfolding s(4) by (rule apart_merge_snoc [OF Suc.prems(6) eb pos])
    show "ends_by (take w' ns) (rg_start y)" if "y \<in> set (drop (Suc r) (take n ns))" for y
      using apart_merge_snoc(2) [OF Suc.prems(6) eb pos] tiles_ordered [OF t ord _ eb, of y] that
      unfolding s(4) R ends_by_def by fastforce
  qed (use Suc.hyps(2) Suc.prems r s in auto)
  then show ?case using s u by simp
qed

text \<open>The ranges with a length are the listed ones.\<close>

lemma kv_listed:
  assumes "kv_rep k xs" "tiles base cap (kv_ranges k xs @ L)"
  shows "mset (filter (\<lambda>x. 0 < rg_len x) (kv_nodes k)) = mset (kv_ranges k xs)"
proof -
  let ?sp = "take (kv_nslots k) (kv_slots k)" and ?P = "\<lambda>x. 0 < rg_len x"
  note R = kv_repD [OF assms(1)]
  have "mset [0..<MAX_RANGES] = mset (xs @ ?sp)"
    using R(7,8) by (intro set_eq_iff_mset_eq_distinct [THEN iffD1]) (auto simp: atLeast0LessThan)
  then have "mset (map ((!) (kv_nodes k)) [0..<MAX_RANGES]) = mset (map ((!) (kv_nodes k)) (xs @ ?sp))"
    by (simp only: mset_map)
  then have "mset (kv_nodes k) = mset (kv_ranges k xs) + mset (kv_ranges k ?sp)"
    using map_nth [of "kv_nodes k"] R(1) by (simp only: map_append mset_append)
  then have "mset (filter ?P (kv_nodes k)) = mset (filter ?P (kv_ranges k xs)) + mset (filter ?P (kv_ranges k ?sp))"
    by (simp only: mset_filter filter_union_mset)
  moreover have "filter ?P (kv_ranges k ?sp) = []" using R(9) by (auto simp: filter_empty_conv NO_RANGE_def)
  moreover have "filter ?P (kv_ranges k xs) = kv_ranges k xs"
    using tilesD(2) [OF assms(2)] by (auto simp: filter_id_conv rg_ok_def)
  ultimately show ?thesis by simp
qed

lemma linked_upt:
  assumes "a \<le> w" "w \<le> n"
  shows "linked (map (\<lambda>i. if i + 1 < w then Some (i + 1) else None) [0..<n]) (if a < w then Some a else None) [a..<w] None"
  using assms
proof (induction "w - a" arbitrary: a)
  case 0
  then show ?case by simp
next
  case (Suc m)
  then have "a < w" by simp
  then have "[a..<w] = a # [Suc a..<w]" by (simp add: upt_rec)
  moreover have "linked (map (\<lambda>i. if i + 1 < w then Some (i + 1) else None) [0..<n])
      (if Suc a < w then Some (Suc a) else None) [Suc a..<w] None"
    using Suc by (intro Suc.hyps(1)) simp_all
  ultimately show ?case using \<open>a < w\<close> Suc.prems by (cases "Suc a < w") simp_all
qed

lemma kv_coalesce_all_spec:
  assumes "kv_rep k xs" "tiles base (kv_capacity k) (kv_ranges k xs @ L)" "base + kv_capacity k < 2 ^ 64"
  shows "\<exists>k' ys. kv_coalesce_all k = Some k' \<and> kv_rep k' ys \<and> apart (kv_ranges k' ys) \<and>
    tiles base (kv_capacity k) (kv_ranges k' ys @ L) \<and>
    kv_capacity k' = kv_capacity k \<and> kv_used k' = kv_used k \<and> kv_live k' = kv_live k"
proof -
  note R = kv_repD [OF assms(1)]
  obtain ns n where c: "kv_compact [0..<MAX_RANGES] (kv_nodes k) 0 = Some (ns, n)"
    "take n ns = filter (\<lambda>x. 0 < rg_len x) (kv_nodes k)" "n \<le> MAX_RANGES" "length ns = MAX_RANGES"
    using kv_compact_spec [of 0 "kv_nodes k" 0] R(1) by auto
  let ?s = "sort_by_start (take n ns)"
  have ls: "length ?s = n" using mset_eq_length [OF sort_by_start_perm, of "take n ns"] c(3,4) by simp
  have "mset (kv_ranges k xs @ L) = mset (?s @ L)"
    using kv_listed [OF assms(1,2)] sort_by_start_perm [of "take n ns"] c(2) by simp
  then have t: "tiles base (kv_capacity k) (?s @ L)" using assms(2) tiles_mset by blast
  obtain ns' w where m: "kv_merge [0..<n] (?s @ drop n ns) 0 = Some (ns', w)" "w \<le> n"
    "length ns' = length (?s @ drop n ns)" "apart (take w ns')" "tiles base (kv_capacity k) (take w ns' @ L)"
    using kv_merge_spec [of base "kv_capacity k" 0 "?s @ drop n ns" 0 n L] t ls c sort_by_start_sorted [of "take n ns"] assms(3)
    by (auto simp: apart_def ends_by_def)
  define k' where "k' = k\<lparr>kv_nodes := take w ns' @ replicate (length ns' - w) NO_RANGE,
           kv_next := map (\<lambda>i. if i + 1 < w then Some (i + 1) else None) [0..<length (kv_next k)],
           kv_head := (if w > 0 then Some 0 else None),
           kv_tail := (if w > 0 then Some (w - 1) else None),
           kv_slots := [w..<MAX_RANGES] @ drop (MAX_RANGES - w) (kv_slots k),
           kv_nslots := MAX_RANGES - w\<rparr>"
  have ln: "length ns' = MAX_RANGES" "w \<le> MAX_RANGES" using m ls c by simp_all
  have rg: "kv_ranges k' [0..<w] = take w ns'"
    using ln by (intro nth_equalityI) (simp_all add: k'_def nth_append)
  have "kv_rep k' [0..<w]"
    unfolding kv_rep_def using ln R(2,3) linked_upt [of 0 w MAX_RANGES]
    by (auto simp: k'_def last_opt_def nth_append)
  moreover have "kv_coalesce_all k = Some k'"
    using c m by (simp add: kv_coalesce_all_def k'_def Let_def)
  ultimately show ?thesis using m(4,5) unfolding rg [symmetric] by (intro exI [of _ k'] exI [of _ "[0..<w]"]) (simp add: k'_def)
qed

section \<open>Giving a range back\<close>

text \<open>A node is found even when the pool is empty.\<close>

lemma kv_room:
  assumes "kv_inv k base L" "L \<noteq> []"
  shows "\<exists>k1 xs. (if kv_nslots k = 0 then kv_coalesce_all k else Some k) = Some k1 \<and> kv_nslots k1 > 0 \<and> kv_rep k1 xs \<and>
    tiles base (kv_capacity k) (kv_ranges k1 xs @ L) \<and>
    kv_capacity k1 = kv_capacity k \<and> kv_used k1 = kv_used k \<and> kv_live k1 = kv_live k"
proof -
  obtain xs where r: "kv_rep k xs" and t: "tiles base (kv_capacity k) (kv_ranges k xs @ L)"
    and c: "length L \<le> LIVE_CAP" "base + kv_capacity k < 2 ^ 64"
    using assms(1) unfolding kv_inv_def by blast
  show ?thesis
  proof (cases "kv_nslots k = 0")
    case False
    then show ?thesis using r t by auto
  next
    case True
    obtain k1 ys where k1: "kv_coalesce_all k = Some k1" "kv_rep k1 ys" "apart (kv_ranges k1 ys)"
      "tiles base (kv_capacity k) (kv_ranges k1 ys @ L)" "kv_capacity k1 = kv_capacity k" "kv_used k1 = kv_used k" "kv_live k1 = kv_live k"
      using kv_coalesce_all_spec [OF r t c(2)] by blast
    have "length ys \<le> length L + 1" using tiles_gaps [OF k1(4)] k1(3) by (simp add: apart_def)
    also have "\<dots> < MAX_RANGES" using c(1) by (simp add: LIVE_CAP_def MAX_RANGES_def)
    finally have "kv_nslots k1 > 0" using kv_rep_length [OF k1(2)] by simp
    then show ?thesis using True k1 by auto
  qed
qed

text \<open>Linking a node at the tail.\<close>

lemma linked_snoc:
  assumes "linked nx h (as @ [t]) None" "i < length nx" "i \<notin> set (as @ [t])" "t \<notin> set as"
  shows "linked (nx[i := None, t := Some i]) h (as @ [t, i]) None"
  using assms by (auto simp: linked_append linked_update)

lemma kv_push_tail:
  assumes "kv_rep k xs" "0 < kv_nslots k" "i = kv_slots k ! (kv_nslots k - 1)"
    "nx = (case kv_tail k of Some t \<Rightarrow> (kv_next k)[i := None, t := Some i] | None \<Rightarrow> (kv_next k)[i := None])"
    "h = (case kv_tail k of Some t \<Rightarrow> kv_head k | None \<Rightarrow> Some i)"
  shows "i < MAX_RANGES" "i \<notin> set xs"
    "kv_rep (k\<lparr>kv_next := nx, kv_head := h, kv_nodes := (kv_nodes k)[i := g], kv_nslots := kv_nslots k - 1, kv_tail := Some i\<rparr>) (xs @ [i])"
proof -
  note R = kv_repD [OF assms(1)]
  obtain m where m: "kv_nslots k = Suc m" using assms(2) by (cases "kv_nslots k") auto
  have sl: "take (kv_nslots k) (kv_slots k) = take m (kv_slots k) @ [i]"
    using assms(3) m R(3,4) by (simp add: take_Suc_conv_app_nth)
  show i: "i < MAX_RANGES" "i \<notin> set xs" using R(7,8) unfolding sl by auto
  have ni: "i \<notin> set (take m (kv_slots k))" using R(7) unfolding sl by simp
  have lk: "linked nx h (xs @ [i]) None \<and> length nx = MAX_RANGES"
  proof (cases xs rule: rev_cases)
    case Nil
    then show ?thesis using R(2,6) i assms(4,5) by simp
  next
    case (snoc as t)
    then show ?thesis using R(2,5,6,7) i assms(4,5) linked_snoc [of "kv_next k" "kv_head k" as t i] by simp
  qed
  have "\<forall>j \<in> set (take m (kv_slots k)). kv_nodes k ! j = NO_RANGE" using R(9) unfolding sl by simp
  from nth_update_other [OF ni this]
  show "kv_rep (k\<lparr>kv_next := nx, kv_head := h, kv_nodes := (kv_nodes k)[i := g], kv_nslots := kv_nslots k - 1, kv_tail := Some i\<rparr>) (xs @ [i])"
    using R(1-4,7,8) lk m unfolding kv_rep_def sl by auto
qed

lemma kv_free_spec:
  assumes "kv_inv k base L" "g \<in> set L"
  shows "\<exists>k'. kv_free k (rg_start g) (rg_len g) = Some k' \<and> kv_inv k' base (remove1 g L) \<and>
    kv_capacity k' = kv_capacity k \<and> kv_tail k' \<noteq> None \<and> kv_nodes k' ! the (kv_tail k') = g"
proof -
  have ne: "L \<noteq> []" using assms(2) by auto
  obtain k1 xs where k1: "(if kv_nslots k = 0 then kv_coalesce_all k else Some k) = Some k1" "kv_nslots k1 > 0" "kv_rep k1 xs"
    "tiles base (kv_capacity k) (kv_ranges k1 xs @ L)" "kv_capacity k1 = kv_capacity k" "kv_used k1 = kv_used k" "kv_live k1 = kv_live k"
    using kv_room [OF assms(1) ne] by blast
  have c: "kv_live k = length L" "kv_used k = sum_list (map rg_len L)" "length L \<le> LIVE_CAP" "base + kv_capacity k < 2 ^ 64"
    using assms(1) unfolding kv_inv_def by blast+
  have ok: "rg_ok g" using tilesD(2) [OF k1(4)] assms(2) by simp
  have u: "sum_list (map rg_len L) = rg_len g + sum_list (map rg_len (remove1 g L))"
    by (rule sum_list_map_remove1 [OF assms(2)])
  note R = kv_repD [OF k1(3)]
  define i nx h where "i = kv_slots k1 ! (kv_nslots k1 - 1)"
    and "nx = (case kv_tail k1 of Some t \<Rightarrow> (kv_next k1)[i := None, t := Some i] | None \<Rightarrow> (kv_next k1)[i := None])"
    and "h = (case kv_tail k1 of Some t \<Rightarrow> kv_head k1 | None \<Rightarrow> Some i)"
  note P = kv_push_tail [OF k1(3,2) i_def nx_def h_def]
  define k' where "k' = k1\<lparr>kv_next := nx, kv_head := h, kv_nodes := (kv_nodes k1)[i := g], kv_nslots := kv_nslots k1 - 1,
    kv_tail := Some i, kv_used := kv_used k - rg_len g, kv_live := kv_live k - 1\<rparr>"
  have rep: "kv_rep k' (xs @ [i])" using P(3) [of g] by (simp add: kv_rep_def k'_def)
  have rg: "kv_ranges k' (xs @ [i]) = kv_ranges k1 xs @ [g]"
    using P(1,2) R(1) by (auto simp: k'_def nth_list_update)
  have "mset (kv_ranges k1 xs @ L) = mset ((kv_ranges k1 xs @ [g]) @ remove1 g L)" using assms(2) by simp
  then have "tiles base (kv_capacity k') (kv_ranges k' (xs @ [i]) @ remove1 g L)"
    using k1(4,5) tiles_mset unfolding rg by (fastforce simp: k'_def)
  then have inv: "kv_inv k' base (remove1 g L)"
    unfolding kv_inv_def using rep c u k1(5) assms(2)
    by (intro conjI exI [of _ "xs @ [i]"]) (simp_all add: k'_def length_remove1)
  have tl: "t < MAX_RANGES" if "kv_tail k1 = Some t" for t
  proof -
    have "t \<in> set xs" using that R(6) by (auto simp: last_opt_def split: if_splits)
    then show ?thesis using R(8) by auto
  qed
  have g: "rg_len g mod PAGE_SIZE = 0" "rg_start g mod PAGE_SIZE = 0" "0 < rg_len g" "rg_len g \<le> kv_used k" "0 < kv_live k"
    using ok c(1,2) u ne by (simp_all add: rg_ok_def)
  have i: "idx (kv_slots k1) (kv_nslots k1 - 1) = Some i" "i < length (kv_nodes k1)" "i < length (kv_next k1)"
    using R(1-4) k1(2) P(1) by (simp_all add: i_def)
  have "kv_free k (rg_start g) (rg_len g) = Some k'"
    unfolding kv_free_def k1(1) using g i k1(2) R(2) tl
    by (cases "kv_tail k1") (simp_all add: k'_def nx_def h_def)
  then show ?thesis using inv P(1) R(1) k1(5) by (intro exI [of _ k']) (simp add: k'_def)
qed

lemma kv_init_spec:
  assumes "start mod PAGE_SIZE = 0" "sz mod PAGE_SIZE = 0" "0 < sz" "start + sz < 2 ^ 64"
    "length (kv_nodes k) = MAX_RANGES" "length (kv_next k) = MAX_RANGES" "length (kv_slots k) = MAX_RANGES"
  shows "\<exists>k'. kv_init k start sz = Some (Inr (), k') \<and> kv_inv k' start [] \<and> kv_capacity k' = sz \<and>
    kv_free_list k' = Some [\<lparr>rg_start = start, rg_len = sz\<rparr>]"
proof -
  obtain m where m: "MAX_RANGES = Suc m" by (simp add: MAX_RANGES_def)
  define k' where "k' = k\<lparr>kv_nodes := (replicate MAX_RANGES NO_RANGE)[m := \<lparr>rg_start = start, rg_len = sz\<rparr>],
    kv_next := (replicate MAX_RANGES None)[m := None], kv_head := Some m, kv_tail := Some m,
    kv_slots := [0..<MAX_RANGES], kv_nslots := m, kv_live := 0, kv_used := 0, kv_capacity := sz\<rparr>"
  have "kv_init k start sz = Some (Inr (), k')"
    using assms by (simp add: kv_init_def kv_alloc_slot_def Let_def k'_def nth_append m)
  moreover have "insert m {0..<m} = {..<MAX_RANGES}" "m < MAX_RANGES" "take m [0..<MAX_RANGES] = [0..<m]"
    unfolding m by auto
  then have r: "kv_rep k' [m]" unfolding kv_rep_def k'_def by (auto simp: last_opt_def)
  moreover have "kv_free_list k' = Some [\<lparr>rg_start = start, rg_len = sz\<rparr>]"
    using kv_rep_free_list [OF r] m by (simp add: k'_def)
  moreover have "tiles start sz (kv_ranges k' [m])" using assms(1-3) m by (simp add: k'_def tiles_def rg_ok_def iv_def)
  ultimately show ?thesis using assms(4) unfolding kv_inv_def
    by (intro exI [of _ k'] conjI exI [of _ "[m]"]) (simp_all add: k'_def)
qed

end
