(* ===== verification/Kva_Props.thy ===== *)
theory Kva_Props
  imports Kva
begin

text \<open>
  The properties of the kernel virtual address allocator \<open>Kva\<close>: what \<open>alloc\<close> and
  \<open>free\<close> do to the tiling of the window, the histories of both from \<open>init\<close> on, and the
  in-place heapsort of \<open>coalesce_all\<close> against the library's sort.
\<close>

text \<open>A history: \<open>init\<close> and then any calls of \<open>alloc\<close>, and of \<open>free\<close> with a range handed out and not taken back.\<close>

inductive kv_history :: "nat \<Rightarrow> nat \<Rightarrow> kva \<Rightarrow> vrange list \<Rightarrow> bool" for base cap where
  start: "kv_init kv_empty base cap = Some (Inr (), k) \<Longrightarrow> kv_history base cap k []"
| alloc: "kv_history base cap k L \<Longrightarrow> kv_alloc k len = Some (Some s, k') \<Longrightarrow>
    kv_history base cap k' (\<lparr>rg_start = s, rg_len = len\<rparr> # L)"
| refuse: "kv_history base cap k L \<Longrightarrow> kv_alloc k len = Some (None, k') \<Longrightarrow> kv_history base cap k' L"
| free: "kv_history base cap k L \<Longrightarrow> g \<in> set L \<Longrightarrow> kv_free k (rg_start g) (rg_len g) = Some k' \<Longrightarrow>
    kv_history base cap k' (remove1 g L)"

definition kv_window :: "nat \<Rightarrow> nat \<Rightarrow> bool" where
  "kv_window base cap \<longleftrightarrow> base mod PAGE_SIZE = 0 \<and> cap mod PAGE_SIZE = 0 \<and> 0 < cap \<and> base + cap < 2 ^ 64"

lemma kv_empty_lengths [simp]:
  "length (kv_nodes kv_empty) = MAX_RANGES" "length (kv_next kv_empty) = MAX_RANGES" "length (kv_slots kv_empty) = MAX_RANGES"
  by (simp_all add: kv_empty_def)

lemma kv_history_inv:
  assumes "kv_window base cap" "kv_history base cap k L"
  shows "kv_inv k base L \<and> kv_capacity k = cap"
  using assms(2)
proof induction
  case (start k)
  then show ?case using kv_init_spec [of base cap kv_empty] assms(1) by (auto simp: kv_window_def)
next
  case (alloc k L len s k')
  have "\<exists>F. kv_free_list k = Some F" using alloc.IH kv_rep_free_list unfolding kv_inv_def by blast
  then obtain F where "kv_free_list k = Some F" by blast
  then show ?case using kv_alloc_spec [of k base L F len] alloc by auto
next
  case (refuse k L len k')
  have "\<exists>F. kv_free_list k = Some F" using refuse.IH kv_rep_free_list unfolding kv_inv_def by blast
  then obtain F where "kv_free_list k = Some F" by blast
  then show ?case using kv_alloc_spec [of k base L F len] refuse by auto
next
  case (free k L g k')
  then show ?case using kv_free_spec [of k base L g] by auto
qed

text \<open>
  C17: An allocation never panics and is first fit. It is refused for a length that is zero or not a whole number of pages, when
  \<open>LIVE_CAP\<close> ranges are live, and when no free range is long enough; then nothing changes. Otherwise it
  returns the start of the first range of the free list that is long enough, and the free ranges, the ranges live before
  and the new one still tile the window: the new range overlaps nothing that is live or free.
\<close>

theorem kv_alloc_first_fit:
  assumes "kv_inv k base L"
  shows "\<exists>F k' r. kv_free_list k = Some F \<and> kv_alloc k len = Some (r, k') \<and>
    r = (if len = 0 \<or> len mod PAGE_SIZE \<noteq> 0 \<or> length L = LIVE_CAP then None
      else map_option rg_start (find (\<lambda>g. len \<le> rg_len g) F)) \<and>
    (case r of None \<Rightarrow> k' = k | Some s \<Rightarrow> kv_inv k' base (\<lparr>rg_start = s, rg_len = len\<rparr> # L))"
proof -
  obtain F where F: "kv_free_list k = Some F"
    using assms kv_rep_free_list unfolding kv_inv_def by blast
  then show ?thesis using kv_alloc_spec [OF assms F, of len] by (fastforce split: option.split)
qed

theorem kv_alloc_first_fit_witness:
  "\<exists>k k'. kv_init kv_empty 8192 16384 = Some (Inr (), k) \<and> kv_alloc k 4096 = Some (Some 8192, k') \<and>
     kv_inv k' 8192 [\<lparr>rg_start = 8192, rg_len = 4096\<rparr>]"
proof -
  obtain k where k: "kv_init kv_empty 8192 16384 = Some (Inr (), k)" "kv_inv k 8192 []"
    "kv_free_list k = Some [\<lparr>rg_start = 8192, rg_len = 16384\<rparr>]"
    using kv_init_spec [of 8192 16384 kv_empty] by (auto simp: PAGE_SIZE_def)
  then show ?thesis using kv_alloc_first_fit [OF k(2), of 4096]
    by (auto simp: PAGE_SIZE_def LIVE_CAP_def MAX_RANGES_def)
qed

text \<open>
  C15: Giving back a live range never panics: when no spare node is left, sorting and merging the free list always
  yields one, because free ranges that do not touch are at most one more than the live ranges, which \<open>LIVE_CAP\<close> bounds.
  The range is no longer live, it is the last range of the free list, and the tiling of the window is kept.
\<close>

theorem kv_free_never_stuck:
  assumes "kv_inv k base L" "g \<in> set L"
  shows "\<exists>k'. kv_free k (rg_start g) (rg_len g) = Some k' \<and> kv_inv k' base (remove1 g L) \<and>
    kv_tail k' \<noteq> None \<and> kv_nodes k' ! the (kv_tail k') = g"
  using kv_free_spec [OF assms] by blast

theorem kv_free_never_stuck_witness:
  "\<exists>k k' k''. kv_init kv_empty 8192 16384 = Some (Inr (), k) \<and> kv_alloc k 4096 = Some (Some 8192, k') \<and>
     kv_free k' 8192 4096 = Some k'' \<and> kv_inv k'' 8192 []"
proof -
  obtain k0 where k0: "kv_init kv_empty 8192 16384 = Some (Inr (), k0)" "kv_inv k0 8192 []"
    "kv_free_list k0 = Some [\<lparr>rg_start = 8192, rg_len = 16384\<rparr>]"
    using kv_init_spec [of 8192 16384 kv_empty] by (auto simp: PAGE_SIZE_def)
  then obtain k k' where k: "kv_init kv_empty 8192 16384 = Some (Inr (), k)" "kv_alloc k 4096 = Some (Some 8192, k')"
    "kv_inv k' 8192 [\<lparr>rg_start = 8192, rg_len = 4096\<rparr>]"
    using kv_alloc_spec [OF k0(2,3), of 4096] by (auto simp: PAGE_SIZE_def LIVE_CAP_def MAX_RANGES_def)
  show ?thesis using kv_free_never_stuck [OF k(3), of "\<lparr>rg_start = 8192, rg_len = 4096\<rparr>"] k(1,2) by auto
qed

text \<open>
  C16: Over any history of allocations and frees from \<open>init\<close> on, the ranges handed out are page aligned,
  not empty, within the window and pairwise disjoint; the bytes counted as used are theirs; and the next allocation or free
  of a live range does not panic.
\<close>

theorem kv_history_disjoint:
  assumes "kv_window base cap" "kv_history base cap k L"
  shows "(\<forall>i < length L. rg_ok (L ! i) \<and> base \<le> rg_start (L ! i) \<and> rg_start (L ! i) + rg_len (L ! i) \<le> base + cap \<and>
      (\<forall>j < length L. i \<noteq> j \<longrightarrow> iv (L ! i) \<inter> iv (L ! j) = {})) \<and>
    (\<exists>n. kv_stats k = Some \<lparr>ks_used = sum_list (map rg_len L), ks_capacity = cap, ks_free_ranges = n\<rparr>) \<and>
    (\<forall>len. kv_alloc k len \<noteq> None) \<and> (\<forall>g \<in> set L. kv_free k (rg_start g) (rg_len g) \<noteq> None)"
proof -
  have inv: "kv_inv k base L" and cap: "kv_capacity k = cap" using kv_history_inv [OF assms] by auto
  obtain xs where r: "kv_rep k xs" and t: "tiles base cap (kv_ranges k xs @ L)" and u: "kv_used k = sum_list (map rg_len L)"
    using inv cap unfolding kv_inv_def by blast
  have F: "kv_free_list k = Some (kv_ranges k xs)" by (rule kv_rep_free_list [OF r])
  have st: "kv_stats k = Some \<lparr>ks_used = sum_list (map rg_len L), ks_capacity = cap, ks_free_ranges = length xs\<rparr>"
    using kv_count_linked [OF kv_repD(5) [OF r], of MAX_RANGES] kv_rep_length [OF r] u cap by (simp add: kv_stats_def)
  have d: "iv (L ! i) \<inter> iv (L ! j) = {}" if "i < length L" "j < length L" "i \<noteq> j" for i j
  proof -
    have "distinct L" using tilesD(1) [OF t] by simp
    then have "L ! i \<noteq> L ! j" using that by (simp add: nth_eq_iff_index_eq)
    then show ?thesis using tilesD(3) [OF t, of "L ! i" "L ! j"] that by simp
  qed
  have w: "rg_ok (L ! i)" "base \<le> rg_start (L ! i)" "rg_start (L ! i) + rg_len (L ! i) \<le> base + cap" if "i < length L" for i
    using tilesD(2) [OF t, of "L ! i"] tiles_within [OF t, of "L ! i"] that by auto
  have "kv_alloc k len \<noteq> None" for len using kv_alloc_spec [OF inv F, of len] by auto
  moreover have "kv_free k (rg_start g) (rg_len g) \<noteq> None" if "g \<in> set L" for g using kv_free_spec [OF inv that] by auto
  ultimately show ?thesis using d w st by blast
qed

theorem kv_history_disjoint_witness:
  "\<exists>k. kv_history KVA_START KVA_SIZE k [] \<and> kv_alloc k 4096 \<noteq> None"
proof -
  have w: "kv_window KVA_START KVA_SIZE" by (simp add: kv_window_def PAGE_SIZE_def KVA_START_def KVA_SIZE_def)
  then obtain k where "kv_init kv_empty KVA_START KVA_SIZE = Some (Inr (), k)"
    using kv_init_spec [of KVA_START KVA_SIZE kv_empty] by (auto simp: kv_window_def)
  then have h: "kv_history KVA_START KVA_SIZE k []" by (rule kv_history.start)
  then show ?thesis using kv_history_disjoint [OF w h] by blast
qed

text \<open>
  C18: The in-place heapsort that \<open>coalesce_all\<close> runs on the free ranges agrees with the library's sort by the start address: the
  starts come out as \<open>sort\<close> gives them, and the ranges are a permutation of those it was given, whatever the ranges are.
\<close>

theorem sort_by_start_is_sort:
  "map rg_start (sort_by_start v) = sort (map rg_start v) \<and> mset (sort_by_start v) = mset v"
proof
  show "mset (sort_by_start v) = mset v" by (rule sort_by_start_perm)
  then have "mset (map rg_start (sort_by_start v)) = mset (map rg_start v)" by (simp only: mset_map)
  then show "map rg_start (sort_by_start v) = sort (map rg_start v)"
    using sort_by_start_sorted [of v] by (metis properties_for_sort)
qed

end
