(* ===== verification/Bytes.thy ===== *)
theory Bytes
  imports Prelude
begin

text \<open>
  What the parsers and the on-disk formats share: Rust's \<open>Result\<close> and its \<open>?\<close> operator, slices,
  little-endian integers, and the bit masks of \<open>u64\<close> alignment. A \<open>Result\<close> is a sum with the error
  on the left, and \<open>bindE m f\<close> is \<open>let x = m?; f(x)\<close>. The integers of these components are natural
  numbers below \<open>2 ^ 64\<close>, so that a checked operation (\<open>checked_add\<close> and its like) is \<open>None\<close> where
  the sum leaves the range.
\<close>

section \<open>Results\<close>

definition bindE :: "'e + 'a \<Rightarrow> ('a \<Rightarrow> 'e + 'b) \<Rightarrow> 'e + 'b" where
  "bindE m f = (case m of Inl e \<Rightarrow> Inl e | Inr x \<Rightarrow> f x)"

definition ok_or :: "'a option \<Rightarrow> 'e \<Rightarrow> 'e + 'a" where
  "ok_or x e = (case x of None \<Rightarrow> Inl e | Some v \<Rightarrow> Inr v)"

lemma bindE_simps [simp]: "bindE (Inl e) f = Inl e" "bindE (Inr x) f = f x"
  by (simp_all add: bindE_def)

lemma ok_or_simps [simp]: "ok_or None e = Inl e" "ok_or (Some v) e = Inr v"
  by (simp_all add: ok_or_def)

lemma bindE_eq_Inr: "bindE m f = Inr y \<longleftrightarrow> (\<exists>x. m = Inr x \<and> f x = Inr y)"
  by (cases m) simp_all

lemma bindE_InrE:
  assumes "bindE m f = Inr y"
  obtains x where "m = Inr x" "f x = Inr y"
  using assms by (auto simp: bindE_eq_Inr)

lemma ok_or_eq_Inr [simp]: "ok_or x e = Inr v \<longleftrightarrow> x = Some v"
  by (cases x) simp_all

lemma ok_or_eq_Inl [simp]: "ok_or x e = Inl e' \<longleftrightarrow> x = None \<and> e' = e"
  by (cases x) auto

section \<open>Checked and saturating arithmetic\<close>

text \<open>\<open>checked_add\<close> and \<open>checked_sub\<close> are \<open>add64\<close> and \<open>sub64\<close>: a natural number or \<open>None\<close>.\<close>

definition mul64 :: "nat \<Rightarrow> nat \<Rightarrow> nat option" where
  "mul64 a b = (if a * b < 2 ^ 64 then Some (a * b) else None)"

definition sat_add64 :: "nat \<Rightarrow> nat \<Rightarrow> nat" where
  "sat_add64 a b = min (a + b) (2 ^ 64 - 1)"

definition sat_mul64 :: "nat \<Rightarrow> nat \<Rightarrow> nat" where
  "sat_mul64 a b = min (a * b) (2 ^ 64 - 1)"

text \<open>\<open>a & !m\<close>.\<close>

definition and_not64 :: "nat \<Rightarrow> nat \<Rightarrow> nat" where
  "and_not64 a m = unat ((of_nat a :: u64) AND NOT (of_nat m))"

text \<open>\<open>is_power_of_two\<close>: exactly one bit is set.\<close>

definition is_power_of_two :: "nat \<Rightarrow> bool" where
  "is_power_of_two x \<longleftrightarrow> length (filter (bit x) [0..<64]) = 1"

lemma mul64_eq_Some: "mul64 a b = Some c \<longleftrightarrow> a * b < 2 ^ 64 \<and> c = a * b"
  by (auto simp: mul64_def)

lemma sat_add64_eq: "a + b < 2 ^ 64 \<Longrightarrow> sat_add64 a b = a + b"
  by (simp add: sat_add64_def)

lemma and_not64_mask:
  assumes "a < 2 ^ 64" "k < 64"
  shows "and_not64 a (2 ^ k - 1) = a div 2 ^ k * 2 ^ k"
proof -
  have m: "of_nat (2 ^ k - 1) = (mask k :: u64)"
    by (simp add: mask_eq_exp_minus_1 of_nat_diff)
  have a: "unat (of_nat a :: u64) = a"
    using assms(1) by (simp add: unsigned_of_nat take_bit_nat_eq_self)
  have "(of_nat a :: u64) AND NOT (mask k) = push_bit k (drop_bit k (of_nat a))"
    by (rule bit_word_eqI) (auto simp: bit_simps)
  then have "and_not64 a (2 ^ k - 1) = unat (push_bit k (drop_bit k (of_nat a :: u64)))"
    unfolding and_not64_def m by simp
  also have "\<dots> = take_bit 64 (push_bit k (drop_bit k (unat (of_nat a :: u64))))"
    by (simp add: unsigned_push_bit_eq unsigned_drop_bit_eq take_bit_push_bit a take_bit_nat_eq_self [OF assms(1)])
  also have "\<dots> = take_bit 64 (a div 2 ^ k * 2 ^ k)"
    by (simp add: a push_bit_eq_mult drop_bit_eq_div)
  also have "\<dots> = a div 2 ^ k * 2 ^ k"
    by (rule take_bit_nat_eq_self) (rule le_less_trans [OF div_times_less_eq_dividend assms(1)])
  finally show ?thesis .
qed

lemma is_power_of_two_exp:
  assumes "is_power_of_two x" "x < 2 ^ 64"
  obtains k where "k < 64" "x = 2 ^ k"
proof -
  obtain k where f: "filter (bit x) [0..<64] = [k]"
    using assms(1) unfolding is_power_of_two_def by (metis One_nat_def Suc_length_conv length_0_conv)
  have s: "i < 64 \<and> bit x i \<longleftrightarrow> i = k" for i
  proof -
    have "i \<in> set (filter (bit x) [0..<64]) \<longleftrightarrow> i = k" by (simp add: f)
    then show ?thesis by auto
  qed
  have hi: "\<not> bit x i" if "64 \<le> i" for i
  proof -
    have "x < 2 ^ i" using assms(2) power_increasing [OF that, of "2 :: nat"] by simp
    then show ?thesis by (simp add: bit_iff_odd)
  qed
  have "x = 2 ^ k"
  proof (rule bit_eqI)
    fix n
    show "bit x n \<longleftrightarrow> bit (2 ^ k :: nat) n"
      using s [of n] hi [of n] by (auto simp: bit_exp_iff not_less)
  qed
  moreover have "k < 64" using s [of k] by simp
  ultimately show thesis using that by blast
qed

text \<open>Rounding up to a multiple of \<open>2 ^ k\<close>, as the code does it with a mask.\<close>

lemma round_up_bounds:
  fixes a :: nat
  assumes "0 < p"
  shows "a \<le> (a + (p - 1)) div p * p" "(a + (p - 1)) div p * p < a + p"
proof -
  have "(a + (p - 1)) div p * p + (a + (p - 1)) mod p = a + (p - 1)" by simp
  moreover have "(a + (p - 1)) mod p < p" using assms by simp
  ultimately show "a \<le> (a + (p - 1)) div p * p" "(a + (p - 1)) div p * p < a + p"
    using assms by linarith+
qed

section \<open>Slices and little-endian integers\<close>

text \<open>\<open>xs.get(lo..hi)\<close>.\<close>

definition get_range :: "'a list \<Rightarrow> nat \<Rightarrow> nat \<Rightarrow> 'a list option" where
  "get_range xs lo hi = (if lo \<le> hi \<and> hi \<le> length xs then Some (take (hi - lo) (drop lo xs)) else None)"

text \<open>\<open>xs[lo..].copy_from_slice(ys)\<close> where it fits.\<close>

definition put_range :: "'a list \<Rightarrow> nat \<Rightarrow> 'a list \<Rightarrow> 'a list option" where
  "put_range xs lo ys = (if lo + length ys \<le> length xs
     then Some (take lo xs @ ys @ drop (lo + length ys) xs) else None)"

text \<open>\<open>as_chunks\<close>: the whole chunks of \<open>n\<close> bytes.\<close>

definition as_chunks :: "nat \<Rightarrow> 'a list \<Rightarrow> 'a list list" where
  "as_chunks n xs = map (\<lambda>i. take n (drop (i * n) xs)) [0..<length xs div n]"

fun le_nat :: "u8 list \<Rightarrow> nat" where
  "le_nat [] = 0"
| "le_nat (b # bs) = unat b + 256 * le_nat bs"

primrec to_le :: "nat \<Rightarrow> nat \<Rightarrow> u8 list" where
  "to_le 0 x = []"
| "to_le (Suc n) x = of_nat x # to_le n (x div 256)"

lemma length_to_le [simp]: "length (to_le n x) = n"
  by (induction n arbitrary: x) simp_all

lemma unat_u8_less: "unat (b :: u8) < 256"
  using unsigned_less [of b] by simp

lemma le_nat_less: "le_nat bs < 256 ^ length bs"
proof (induction bs)
  case (Cons b bs)
  then have "unat b + 256 * le_nat bs < 256 * (le_nat bs + 1)" using unat_u8_less [of b] by simp
  also have "\<dots> \<le> 256 * 256 ^ length bs" using Cons by (intro mult_le_mono2) simp
  finally show ?case by simp
qed simp

lemma le_nat_to_le: "le_nat (to_le n x) = x mod 256 ^ n"
proof (induction n arbitrary: x)
  case (Suc n)
  have "unat (of_nat x :: u8) = x mod 256" by (simp add: unsigned_of_nat take_bit_eq_mod)
  then show ?case using Suc by (simp add: mod_mult2_eq mult.commute)
qed simp

lemma le_nat_to_le_id: "x < 256 ^ n \<Longrightarrow> le_nat (to_le n x) = x"
  by (simp add: le_nat_to_le)

lemma to_le_le_nat: "to_le (length bs) (le_nat bs) = bs"
proof (induction bs)
  case (Cons b bs)
  have b: "unat b < 256" by (rule unat_u8_less)
  have "unat (of_nat (unat b + 256 * le_nat bs) :: u8) = (unat b + 256 * le_nat bs) mod 256"
    unfolding unsigned_of_nat take_bit_eq_mod by simp
  then have "of_nat (unat b + 256 * le_nat bs) = b"
    using b by (simp only: word_unat_eq_iff mod_mult_self2 mod_less)
  moreover have "(unat b + 256 * le_nat bs) div 256 = le_nat bs" using b by simp
  ultimately show ?case using Cons by simp
qed simp

lemma get_range_Some: "get_range xs lo hi = Some ys \<longleftrightarrow> lo \<le> hi \<and> hi \<le> length xs \<and> ys = take (hi - lo) (drop lo xs)"
  by (auto simp: get_range_def)

lemma put_range_Some:
  "put_range xs lo ys = Some zs \<longleftrightarrow> lo + length ys \<le> length xs \<and> zs = take lo xs @ ys @ drop (lo + length ys) xs"
  by (auto simp: put_range_def)

lemma put_range_length: "put_range xs lo ys = Some zs \<Longrightarrow> length zs = length xs"
  by (auto simp: put_range_Some)

text \<open>Reading what was put, and reading elsewhere.\<close>

lemma get_put_same: "put_range xs lo ys = Some zs \<Longrightarrow> hi = lo + length ys \<Longrightarrow> get_range zs lo hi = Some ys"
  by (auto simp: put_range_Some get_range_def)

lemma nth_put_range:
  "put_range xs lo ys = Some zs \<Longrightarrow> i < length xs \<Longrightarrow>
   zs ! i = (if lo \<le> i \<and> i < lo + length ys then ys ! (i - lo) else xs ! i)"
  by (auto simp: put_range_Some nth_append)

lemma get_range_eqI:
  assumes "length xs = length zs" "\<And>i. lo \<le> i \<Longrightarrow> i < hi \<Longrightarrow> xs ! i = zs ! i"
  shows "get_range xs lo hi = get_range zs lo hi"
proof (cases "lo \<le> hi \<and> hi \<le> length zs")
  case True
  then have "take (hi - lo) (drop lo xs) = take (hi - lo) (drop lo zs)"
    using assms by (intro nth_equalityI) auto
  then show ?thesis using assms(1) by (simp add: get_range_def)
next
  case False
  then show ?thesis using assms(1) unfolding get_range_def by auto
qed

lemma get_put_other:
  assumes "put_range xs lo ys = Some zs" "b \<le> lo \<or> lo + length ys \<le> a"
  shows "get_range zs a b = get_range xs a b"
proof (cases "b \<le> length xs")
  case True
  then show ?thesis
    using assms put_range_length [OF assms(1)]
    by (intro get_range_eqI) (auto simp: nth_put_range [OF assms(1)])
next
  case False
  then show ?thesis using put_range_length [OF assms(1)] by (simp add: get_range_def)
qed

end
