(* ===== verification/Va.thy ===== *)
theory Va
  imports Bytes
begin

text \<open>
  The user half of the address space, from \<open>crates/core/src/mm/paging.rs\<close>: the constants that bound it
  and the test for a canonical address, and the page rounding of \<open>crates/core/src/proc/elf.rs\<close>.
\<close>

definition PAGE_SHIFT :: nat where "PAGE_SHIFT = 12"

definition PAGE_SIZE_4K :: nat where "PAGE_SIZE_4K = push_bit PAGE_SHIFT 1"

definition USER_END :: nat where "USER_END = 0x0000800000000000"

definition USER_MAP_END :: nat where "USER_MAP_END = USER_END - PAGE_SIZE_4K"

definition NULL_GUARD_LEN :: nat where "NULL_GUARD_LEN = PAGE_SIZE_4K"

definition is_canonical :: "nat \<Rightarrow> bool" where
  "is_canonical va = (let hi = drop_bit 47 va in hi = 0 \<or> hi = 0x1FFFF)"

definition page_down :: "nat \<Rightarrow> nat" where
  "page_down x = and_not64 x (PAGE_SIZE_4K - 1)"

definition page_up :: "nat \<Rightarrow> nat" where
  "page_up x = and_not64 (sat_add64 x (PAGE_SIZE_4K - 1)) (PAGE_SIZE_4K - 1)"

lemma PAGE_SIZE_4K_eq: "PAGE_SIZE_4K = 4096"
  by (simp add: PAGE_SIZE_4K_def PAGE_SHIFT_def push_bit_eq_mult)

lemma USER_MAP_END_eq: "USER_MAP_END = 0x7FFFFFFFF000"
  by (simp add: USER_MAP_END_def USER_END_def PAGE_SIZE_4K_eq)

lemma NULL_GUARD_LEN_eq: "NULL_GUARD_LEN = 4096"
  by (simp add: NULL_GUARD_LEN_def PAGE_SIZE_4K_eq)

lemmas va_consts = PAGE_SIZE_4K_eq USER_MAP_END_eq NULL_GUARD_LEN_eq

lemma is_canonical_user: "va < 2 ^ 47 \<Longrightarrow> is_canonical va"
  by (simp add: is_canonical_def drop_bit_eq_div)

lemma and_not64_page: "x < 2 ^ 64 \<Longrightarrow> and_not64 x (PAGE_SIZE_4K - 1) = x div 4096 * 4096"
  using and_not64_mask [of x 12] by (simp add: PAGE_SIZE_4K_eq)

lemma page_down_eq: "x < 2 ^ 64 \<Longrightarrow> page_down x = x div 4096 * 4096"
  unfolding page_down_def by (rule and_not64_page)

lemma page_up_eq: "x + 4095 < 2 ^ 64 \<Longrightarrow> page_up x = (x + 4095) div 4096 * 4096"
  using and_not64_page [of "x + 4095"] by (simp add: page_up_def sat_add64_eq PAGE_SIZE_4K_eq)

lemma page_down_bounds:
  assumes "x < 2 ^ 64"
  shows "page_down x \<le> x" "x < page_down x + 4096" "page_down x mod 4096 = 0"
  using assms by (simp_all add: page_down_eq)

lemma page_up_bounds:
  assumes "x + 4095 < 2 ^ 64"
  shows "x \<le> page_up x" "page_up x < x + 4096" "page_up x mod 4096 = 0"
  using round_up_bounds [of 4096 x] assms by (simp_all add: page_up_eq)

end
