(* ===== verification/Elf.thy ===== *)
theory Elf
  imports Va
begin

text \<open>
  The ELF64 parser of \<open>crates/core/src/proc/elf.rs\<close>: the header, the program headers pushed one record at
  a time into a \<open>Builder\<close>, and the image that comes out. A parse error is the left of a sum, and a caller
  drops the builder on one, so \<open>bd_push\<close> returns the updated builder on the right only. The file is a list of
  bytes and addresses, offsets and lengths are natural numbers whose sums the code checks.
\<close>

definition ELFMAG0 :: u8 where "ELFMAG0 = 0x7F"
definition ELFCLASS64 :: u8 where "ELFCLASS64 = 2"
definition ELFDATA2LSB :: u8 where "ELFDATA2LSB = 1"
definition EV_CURRENT :: u8 where "EV_CURRENT = 1"
definition ET_EXEC :: nat where "ET_EXEC = 2"
definition EM_X86_64 :: nat where "EM_X86_64 = 62"
definition PT_LOAD :: nat where "PT_LOAD = 1"
definition PT_INTERP :: nat where "PT_INTERP = 3"
definition PT_PHDR :: nat where "PT_PHDR = 6"
definition PT_TLS :: nat where "PT_TLS = 7"
definition PT_GNU_STACK :: nat where "PT_GNU_STACK = 0x6474E551"
definition PF_X :: nat where "PF_X = 1"
definition PF_W :: nat where "PF_W = 2"
definition EI_NIDENT :: nat where "EI_NIDENT = 16"
definition EHDR_SIZE :: nat where "EHDR_SIZE = 64"
definition PHDR_SIZE :: nat where "PHDR_SIZE = 56"
definition MAX_LOADS :: nat where "MAX_LOADS = 8"
definition EXEC_IMAGE_MAX :: nat where "EXEC_IMAGE_MAX = push_bit 30 1"

datatype elf_error = Truncated | BadMagic | BadClass | BadEndian | BadVersion | BadMachine | BadType
  | BadPhentsize | HasInterp | FileszGtMemsz | BadAlign | KernelVa | NullGuard | TooManyLoads | NoLoad
  | Overlap | Stack | ImageTooBig

record load_seg =
  ls_vaddr :: nat
  ls_memsz :: nat
  ls_offset :: nat
  ls_filesz :: nat
  ls_write :: bool
  ls_exec :: bool

record tls_seg =
  ts_vaddr :: nat
  ts_offset :: nat
  ts_filesz :: nat
  ts_memsz :: nat
  ts_align :: nat

section \<open>The thread-local block\<close>

definition tls_block_len :: "tls_seg \<Rightarrow> nat option" where
  "tls_block_len t =
     (if ts_align t \<le> 1 then Some (ts_memsz t)
      else do {
        mask \<leftarrow> sub64 (ts_align t) 1;
        s \<leftarrow> add64 (ts_memsz t) mask;
        Some (and_not64 s mask) })"

definition tls_map_len :: "tls_seg \<Rightarrow> nat option" where
  "tls_map_len t = do {
     b \<leftarrow> tls_block_len t;
     b8 \<leftarrow> add64 b 8;
     s \<leftarrow> add64 (max b8 PAGE_SIZE_4K) (PAGE_SIZE_4K - 1);
     Some (and_not64 s (PAGE_SIZE_4K - 1)) }"

definition tls_map_align :: "tls_seg \<Rightarrow> nat" where
  "tls_map_align t = max (ts_align t) PAGE_SIZE_4K"

definition tls_thread_pointer :: "tls_seg \<Rightarrow> nat \<Rightarrow> (nat \<times> nat) option" where
  "tls_thread_pointer t base = do {
     m \<leftarrow> sub64 (tls_map_align t) 1;
     if base AND m \<noteq> 0 then None
     else do {
       let a = max (ts_align t) 8;
       len \<leftarrow> tls_map_len t;
       e \<leftarrow> add64 base len;
       e8 \<leftarrow> sub64 e 8;
       a1 \<leftarrow> sub64 a 1;
       let tp = and_not64 e8 a1;
       b \<leftarrow> tls_block_len t;
       start \<leftarrow> sub64 tp b;
       if start \<ge> base then Some (tp, start) else None } }"

section \<open>Reading and checking\<close>

record image =
  im_file_len :: nat
  im_entry :: nat
  im_loads :: "load_seg list"
  im_nload :: nat
  im_stack_exec :: bool
  im_tls :: "tls_seg option"
  im_phoff :: nat
  im_phentsize :: nat
  im_phnum :: nat
  im_phdr_va :: "nat option"

definition bytes_at :: "nat \<Rightarrow> u8 list \<Rightarrow> nat \<Rightarrow> elf_error + u8 list" where
  "bytes_at n b off = bindE (ok_or (add64 off n) Truncated) (\<lambda>e. ok_or (get_range b off e) Truncated)"

definition le16 :: "u8 list \<Rightarrow> nat \<Rightarrow> elf_error + nat" where
  "le16 b off = bindE (bytes_at 2 b off) (\<lambda>s. Inr (le_nat s))"

definition le32 :: "u8 list \<Rightarrow> nat \<Rightarrow> elf_error + nat" where
  "le32 b off = bindE (bytes_at 4 b off) (\<lambda>s. Inr (le_nat s))"

definition le64 :: "u8 list \<Rightarrow> nat \<Rightarrow> elf_error + nat" where
  "le64 b off = bindE (bytes_at 8 b off) (\<lambda>s. Inr (le_nat s))"

definition check_user_va :: "nat \<Rightarrow> nat \<Rightarrow> elf_error + unit" where
  "check_user_va va len =
     (if len = 0 then Inr ()
      else bindE (ok_or (add64 va len) KernelVa) (\<lambda>e.
        if \<not> is_canonical va \<or> \<not> is_canonical (wrapping_sub64 e 1) then Inl KernelVa
        else if va \<ge> USER_MAP_END \<or> e > USER_MAP_END then Inl KernelVa
        else if va < NULL_GUARD_LEN then Inl NullGuard
        else Inr ()))"

definition ranges_overlap :: "nat \<Rightarrow> nat \<Rightarrow> nat \<Rightarrow> nat \<Rightarrow> bool" where
  "ranges_overlap a alen b blen =
     (let ae = sat_add64 a alen; be = sat_add64 b blen in a < be \<and> b < ae)"

record ehdr =
  eh_entry :: nat
  eh_phoff :: nat
  eh_phnum :: nat

definition ph_end :: "ehdr \<Rightarrow> nat option" where
  "ph_end eh = do {
     bytes \<leftarrow> mul64 (eh_phnum eh) PHDR_SIZE;
     add64 (eh_phoff eh) bytes }"

definition parse_ehdr :: "u8 list \<Rightarrow> nat \<Rightarrow> elf_error + ehdr" where
  "parse_ehdr b file_len =
     (if length b < EHDR_SIZE \<or> file_len < EHDR_SIZE then Inl Truncated
      else bindE (bytes_at EI_NIDENT b 0) (\<lambda>ident.
        if take 4 ident \<noteq> [ELFMAG0, 0x45, 0x4C, 0x46] then Inl BadMagic
        else if ident ! 4 \<noteq> ELFCLASS64 then Inl BadClass
        else if ident ! 5 \<noteq> ELFDATA2LSB then Inl BadEndian
        else if ident ! 6 \<noteq> EV_CURRENT then Inl BadVersion
        else bindE (le16 b 16) (\<lambda>typ.
        if typ \<noteq> ET_EXEC then Inl BadType
        else bindE (le16 b 18) (\<lambda>machine.
        if machine \<noteq> EM_X86_64 then Inl BadMachine
        else bindE (le32 b 20) (\<lambda>version.
        if version \<noteq> 1 then Inl BadVersion
        else bindE (le64 b 24) (\<lambda>entry.
        bindE (le64 b 32) (\<lambda>phoff.
        bindE (le16 b 52) (\<lambda>ehsize.
        if ehsize \<noteq> EHDR_SIZE then Inl Truncated
        else bindE (le16 b 54) (\<lambda>phentsize.
        if phentsize \<noteq> PHDR_SIZE then Inl BadPhentsize
        else bindE (le16 b 56) (\<lambda>phnum.
        if phnum = 0 then Inl NoLoad
        else let eh = \<lparr>eh_entry = entry, eh_phoff = phoff, eh_phnum = phnum\<rparr> in
          bindE (ok_or (ph_end eh) Truncated) (\<lambda>e.
          if e > file_len then Inl Truncated else Inr eh)))))))))))"

section \<open>The builder\<close>

record builder =
  bd_eh :: ehdr
  bd_file_len :: nat
  bd_pushed :: nat
  bd_loads :: "load_seg list"
  bd_nload :: nat
  bd_stack_exec :: bool
  bd_saw_gnu_stack :: bool
  bd_tls :: "tls_seg option"
  bd_phdr_va :: "nat option"

definition NO_SEG :: load_seg where
  "NO_SEG = \<lparr>ls_vaddr = 0, ls_memsz = 0, ls_offset = 0, ls_filesz = 0, ls_write = False, ls_exec = False\<rparr>"

definition bd_new :: "ehdr \<Rightarrow> nat \<Rightarrow> builder" where
  "bd_new eh file_len = \<lparr>bd_eh = eh, bd_file_len = file_len, bd_pushed = 0, bd_loads = replicate MAX_LOADS NO_SEG,
     bd_nload = 0, bd_stack_exec = False, bd_saw_gnu_stack = False, bd_tls = None, bd_phdr_va = None\<rparr>"

definition check_file_bytes :: "builder \<Rightarrow> nat \<Rightarrow> nat \<Rightarrow> elf_error + unit" where
  "check_file_bytes b off filesz =
     bindE (ok_or (add64 off filesz) Truncated) (\<lambda>e. if e > bd_file_len b then Inl Truncated else Inr ())"

text \<open>A program header record, its fields read from the bytes.\<close>

record phdr =
  p_type :: nat
  p_flags :: nat
  p_offset :: nat
  p_vaddr :: nat
  p_filesz :: nat
  p_memsz :: nat
  p_align :: nat

definition read_phdr :: "u8 list \<Rightarrow> elf_error + phdr" where
  "read_phdr ph =
     bindE (le32 ph 0) (\<lambda>t. bindE (le32 ph 4) (\<lambda>f. bindE (le64 ph 8) (\<lambda>off. bindE (le64 ph 16) (\<lambda>v.
     bindE (le64 ph 32) (\<lambda>fs. bindE (le64 ph 40) (\<lambda>ms. bindE (le64 ph 48) (\<lambda>al.
     Inr \<lparr>p_type = t, p_flags = f, p_offset = off, p_vaddr = v, p_filesz = fs, p_memsz = ms, p_align = al\<rparr>)))))))"

text \<open>The arm of a \<open>PT_LOAD\<close>. \<open>checked_rem\<close> is \<open>None\<close> for a zero divisor, which the guard excludes.\<close>

definition push_load :: "builder \<Rightarrow> phdr \<Rightarrow> elf_error + builder" where
  "push_load b p =
     (if p_filesz p > p_memsz p then Inl FileszGtMemsz
      else if p_align p \<noteq> 0 \<and> \<not> is_power_of_two (p_align p) then Inl BadAlign
      else bindE (check_user_va (p_vaddr p) (max (p_memsz p) 1)) (\<lambda>_.
        if p_align p > 1 \<and> p_vaddr p mod p_align p \<noteq> p_offset p mod p_align p then Inl BadAlign
        else bindE (check_file_bytes b (p_offset p) (p_filesz p)) (\<lambda>_.
        if list_ex (\<lambda>l. ranges_overlap (ls_vaddr l) (ls_memsz l) (p_vaddr p) (p_memsz p)) (take (bd_nload b) (bd_loads b))
        then Inl Overlap
        else if bd_nload b \<ge> length (bd_loads b) then Inl TooManyLoads
        else Inr (b\<lparr>bd_loads := (bd_loads b)[bd_nload b :=
            \<lparr>ls_vaddr = p_vaddr p, ls_memsz = p_memsz p, ls_offset = p_offset p, ls_filesz = p_filesz p,
             ls_write = (p_flags p AND PF_W \<noteq> 0), ls_exec = (p_flags p AND PF_X \<noteq> 0)\<rparr>],
            bd_nload := bd_nload b + 1\<rparr>))))"

definition push_tls :: "builder \<Rightarrow> phdr \<Rightarrow> elf_error + builder" where
  "push_tls b p =
     (if p_filesz p > p_memsz p then Inl FileszGtMemsz
      else if p_align p \<noteq> 0 \<and> \<not> is_power_of_two (p_align p) then Inl BadAlign
      else bindE (check_file_bytes b (p_offset p) (p_filesz p)) (\<lambda>_.
        Inr (b\<lparr>bd_tls := Some \<lparr>ts_vaddr = p_vaddr p, ts_offset = p_offset p, ts_filesz = p_filesz p,
          ts_memsz = p_memsz p, ts_align = (if p_align p = 0 then 1 else p_align p)\<rparr>\<rparr>)))"

definition bd_push :: "builder \<Rightarrow> u8 list \<Rightarrow> elf_error + builder" where
  "bd_push b ph =
     (if bd_pushed b \<ge> eh_phnum (bd_eh b) \<or> length ph < PHDR_SIZE then Inl Truncated
      else if bd_pushed b + 1 \<ge> 2 ^ 16 then Inl Truncated
      else let b = b\<lparr>bd_pushed := bd_pushed b + 1\<rparr> in
        bindE (read_phdr ph) (\<lambda>p.
          if p_type p = PT_INTERP then Inl HasInterp
          else if p_type p = PT_LOAD then push_load b p
          else if p_type p = PT_GNU_STACK then
            Inr (b\<lparr>bd_saw_gnu_stack := True, bd_stack_exec := (p_flags p AND PF_X \<noteq> 0)\<rparr>)
          else if p_type p = PT_TLS then push_tls b p
          else if p_type p = PT_PHDR then Inr (b\<lparr>bd_phdr_va := Some (p_vaddr p)\<rparr>)
          else Inr b))"

primrec image_total :: "load_seg list \<Rightarrow> nat \<Rightarrow> elf_error + nat" where
  "image_total [] acc = Inr acc"
| "image_total (s # ss) acc =
     (if ls_memsz s = 0 then image_total ss acc
      else bindE (ok_or (add64 (ls_vaddr s) (ls_memsz s)) ImageTooBig) (\<lambda>e.
        bindE (ok_or (add64 e (PAGE_SIZE_4K - 1)) ImageTooBig) (\<lambda>e1.
        bindE (ok_or (sub64 (and_not64 e1 (PAGE_SIZE_4K - 1)) (page_down (ls_vaddr s))) ImageTooBig) (\<lambda>span.
        bindE (ok_or (add64 acc span) ImageTooBig) (\<lambda>acc'.
        image_total ss acc')))))"

definition image_bytes :: "load_seg list \<Rightarrow> tls_seg option \<Rightarrow> elf_error + nat" where
  "image_bytes loads tls =
     bindE (image_total loads 0) (\<lambda>sz.
     bindE (case tls of None \<Rightarrow> Inr sz
       | Some t \<Rightarrow> bindE (ok_or (tls_map_len t) ImageTooBig) (\<lambda>len. ok_or (add64 sz len) ImageTooBig)) (\<lambda>sz.
     if sz > EXEC_IMAGE_MAX then Inl ImageTooBig else Inr sz))"

text \<open>\<open>iter().find_map(f)\<close>.\<close>

fun find_map :: "('a \<Rightarrow> 'b option) \<Rightarrow> 'a list \<Rightarrow> 'b option" where
  "find_map f [] = None"
| "find_map f (x # xs) = (case f x of None \<Rightarrow> find_map f xs | Some y \<Rightarrow> Some y)"

definition phdr_in :: "ehdr \<Rightarrow> nat \<Rightarrow> load_seg \<Rightarrow> nat option" where
  "phdr_in eh pe s = do {
     delta \<leftarrow> sub64 (eh_phoff eh) (ls_offset s);
     e \<leftarrow> add64 (ls_offset s) (ls_filesz s);
     if pe \<le> e then add64 (ls_vaddr s) delta else None }"

definition bd_finish :: "builder \<Rightarrow> elf_error + image" where
  "bd_finish b =
     (if bd_pushed b \<noteq> eh_phnum (bd_eh b) then Inl Truncated
      else if bd_nload b = 0 then Inl NoLoad
      else bindE (ok_or (get_range (bd_loads b) 0 (bd_nload b)) TooManyLoads) (\<lambda>ls.
        bindE (image_bytes ls (bd_tls b)) (\<lambda>_.
        bindE (check_user_va (eh_entry (bd_eh b)) 1) (\<lambda>_.
        bindE (ok_or (ph_end (bd_eh b)) Truncated) (\<lambda>pe.
        let phdr_va = (case bd_phdr_va b of
              None \<Rightarrow> find_map (phdr_in (bd_eh b) pe) (take (bd_nload b) (bd_loads b))
            | Some va \<Rightarrow> Some va) in
        bindE (case phdr_va of None \<Rightarrow> Inr ()
          | Some va \<Rightarrow> check_user_va va (max (sat_mul64 (eh_phnum (bd_eh b)) PHDR_SIZE) 1)) (\<lambda>_.
        Inr \<lparr>im_file_len = bd_file_len b, im_entry = eh_entry (bd_eh b), im_loads = bd_loads b,
             im_nload = bd_nload b, im_stack_exec = (bd_saw_gnu_stack b \<and> bd_stack_exec b), im_tls = bd_tls b,
             im_phoff = eh_phoff (bd_eh b), im_phentsize = PHDR_SIZE, im_phnum = eh_phnum (bd_eh b),
             im_phdr_va = phdr_va\<rparr>))))))"

primrec push_all :: "u8 list list \<Rightarrow> builder \<Rightarrow> elf_error + builder" where
  "push_all [] b = Inr b"
| "push_all (ph # phs) b = bindE (bd_push b ph) (push_all phs)"

definition parse :: "u8 list \<Rightarrow> elf_error + image" where
  "parse data =
     bindE (parse_ehdr data (length data)) (\<lambda>eh.
     bindE (ok_or (ph_end eh) Truncated) (\<lambda>e.
     bindE (ok_or (get_range data (eh_phoff eh) e) Truncated) (\<lambda>table.
     bindE (push_all (as_chunks PHDR_SIZE table) (bd_new eh (length data))) bd_finish)))"

definition image_loads :: "image \<Rightarrow> load_seg list" where
  "image_loads img = (case get_range (im_loads img) 0 (im_nload img) of Some ls \<Rightarrow> ls | None \<Rightarrow> [])"

section \<open>What the checks establish\<close>

text \<open>
  \<open>seg_ok n s\<close>: the segment lies in the user half above the null guard, and its file bytes lie in the first
  \<open>n\<close> bytes of the file.
\<close>

definition seg_ok :: "nat \<Rightarrow> load_seg \<Rightarrow> bool" where
  "seg_ok n s \<longleftrightarrow> NULL_GUARD_LEN \<le> ls_vaddr s \<and> ls_vaddr s + max (ls_memsz s) 1 \<le> USER_MAP_END \<and>
     ls_filesz s \<le> ls_memsz s \<and> ls_offset s + ls_filesz s \<le> n"

definition seg_bytes :: "load_seg \<Rightarrow> nat set" where
  "seg_bytes s = {ls_vaddr s..<ls_vaddr s + ls_memsz s}"

definition tls_ok :: "nat \<Rightarrow> tls_seg \<Rightarrow> bool" where
  "tls_ok n t \<longleftrightarrow> ts_filesz t \<le> ts_memsz t \<and> ts_offset t + ts_filesz t \<le> n \<and> (\<exists>k<64. ts_align t = 2 ^ k) \<and> ts_memsz t < 2 ^ 64"

definition seg_span :: "load_seg \<Rightarrow> nat" where
  "seg_span s = (if ls_memsz s = 0 then 0 else page_up (ls_vaddr s + ls_memsz s) - page_down (ls_vaddr s))"

abbreviation bd_segs :: "builder \<Rightarrow> load_seg list" where
  "bd_segs b \<equiv> take (bd_nload b) (bd_loads b)"

definition bd_inv :: "builder \<Rightarrow> bool" where
  "bd_inv b \<longleftrightarrow> length (bd_loads b) = MAX_LOADS \<and> bd_nload b \<le> MAX_LOADS \<and>
     (\<forall>s \<in> set (bd_segs b). seg_ok (bd_file_len b) s) \<and>
     sorted_wrt (\<lambda>s t. seg_bytes s \<inter> seg_bytes t = {}) (bd_segs b) \<and>
     (\<forall>t. bd_tls b = Some t \<longrightarrow> tls_ok (bd_file_len b) t)"

lemma wrapping_sub64_less: "1 \<le> e \<Longrightarrow> e < 2 ^ 64 \<Longrightarrow> wrapping_sub64 e 1 = e - 1"
  by (cases e) (simp_all add: wrapping_sub64_def)

lemma check_user_va_iff:
  "check_user_va va len = Inr () \<longleftrightarrow> len = 0 \<or> NULL_GUARD_LEN \<le> va \<and> va + len \<le> USER_MAP_END"
proof (cases "len = 0")
  case False
  show ?thesis
  proof (cases "va + len < 2 ^ 64")
    case True
    have "is_canonical va \<and> is_canonical (wrapping_sub64 (va + len) 1)" if "va + len \<le> USER_MAP_END"
      using that False True wrapping_sub64_less [of "va + len"] by (auto simp: va_consts intro!: is_canonical_user)
    then show ?thesis using True False by (auto simp: check_user_va_def va_consts)
  next
    case nf: False
    then have "add64 va len = None" by (simp add: add64_def)
    then show ?thesis using False nf by (auto simp: check_user_va_def va_consts)
  qed
qed (simp add: check_user_va_def)

lemma check_file_bytes_iff:
  "check_file_bytes b off fs = Inr () \<longleftrightarrow> off + fs < 2 ^ 64 \<and> off + fs \<le> bd_file_len b"
  by (simp add: check_file_bytes_def add64_def)

lemma ranges_disjoint:
  assumes "\<not> ranges_overlap a al b bl" "a + al < 2 ^ 64" "b + bl < 2 ^ 64"
  shows "{a..<a + al} \<inter> {b..<b + bl} = {}"
  using assms by (auto simp: ranges_overlap_def sat_add64_eq Let_def)

lemma le64_less: "le64 b off = Inr x \<Longrightarrow> x < 2 ^ 64"
  unfolding le64_def bytes_at_def
  by (auto simp: bindE_eq_Inr get_range_Some rust_Some intro: less_le_trans [OF le_nat_less])

lemma read_phdr_align:
  assumes "read_phdr ph = Inr p"
  shows "p_align p < 2 ^ 64" "p_memsz p < 2 ^ 64"
proof -
  have "p_align p < 2 ^ 64 \<and> p_memsz p < 2 ^ 64"
    using assms unfolding read_phdr_def by (elim bindE_InrE) (auto dest: le64_less)
  then show "p_align p < 2 ^ 64" "p_memsz p < 2 ^ 64" by simp_all
qed

lemma push_load_inv:
  assumes "push_load b p = Inr b'" "bd_inv b"
  shows "bd_inv b'" "bd_file_len b' = bd_file_len b" "bd_eh b' = bd_eh b"
proof -
  let ?s = "\<lparr>ls_vaddr = p_vaddr p, ls_memsz = p_memsz p, ls_offset = p_offset p, ls_filesz = p_filesz p,
             ls_write = (p_flags p AND PF_W \<noteq> 0), ls_exec = (p_flags p AND PF_X \<noteq> 0)\<rparr>"
  from assms(1) have c: "p_filesz p \<le> p_memsz p" "check_user_va (p_vaddr p) (max (p_memsz p) 1) = Inr ()"
    "check_file_bytes b (p_offset p) (p_filesz p) = Inr ()"
    "\<forall>l \<in> set (bd_segs b). \<not> ranges_overlap (ls_vaddr l) (ls_memsz l) (p_vaddr p) (p_memsz p)"
    "bd_nload b < length (bd_loads b)"
    "b' = b\<lparr>bd_loads := (bd_loads b)[bd_nload b := ?s], bd_nload := bd_nload b + 1\<rparr>"
    unfolding push_load_def by (auto simp: bindE_eq_Inr list_ex_iff split: if_splits)
  have ok: "seg_ok (bd_file_len b) ?s"
    using c(1,2,3) by (simp add: seg_ok_def check_user_va_iff check_file_bytes_iff)
  have old: "\<forall>s \<in> set (bd_segs b). seg_ok (bd_file_len b) s" using assms(2) by (simp add: bd_inv_def)
  have d: "seg_bytes l \<inter> seg_bytes ?s = {}" if l: "l \<in> set (bd_segs b)" for l
  proof -
    have "ls_vaddr l + max (ls_memsz l) 1 \<le> USER_MAP_END" using old l by (simp add: seg_ok_def)
    moreover have "p_vaddr p + max (p_memsz p) 1 \<le> USER_MAP_END" using ok by (simp add: seg_ok_def)
    ultimately show ?thesis
      using ranges_disjoint [of "ls_vaddr l" "ls_memsz l" "p_vaddr p" "p_memsz p"] c(4) l
      by (simp add: seg_bytes_def va_consts)
  qed
  have sg: "bd_segs b' = bd_segs b @ [?s]" using c(5,6) by simp
  show "bd_inv b'"
    unfolding bd_inv_def sg using assms(2) c(5,6) ok old d by (auto simp: bd_inv_def sorted_wrt_append)
  show "bd_file_len b' = bd_file_len b" "bd_eh b' = bd_eh b" using c(6) by simp_all
qed

lemma push_tls_inv:
  assumes "push_tls b p = Inr b'" "bd_inv b" "p_align p < 2 ^ 64" "p_memsz p < 2 ^ 64"
  shows "bd_inv b'" "bd_file_len b' = bd_file_len b" "bd_eh b' = bd_eh b"
proof -
  let ?t = "\<lparr>ts_vaddr = p_vaddr p, ts_offset = p_offset p, ts_filesz = p_filesz p,
          ts_memsz = p_memsz p, ts_align = (if p_align p = 0 then 1 else p_align p)\<rparr>"
  from assms(1) have c: "p_filesz p \<le> p_memsz p" "p_align p \<noteq> 0 \<longrightarrow> is_power_of_two (p_align p)"
    "check_file_bytes b (p_offset p) (p_filesz p) = Inr ()" "b' = b\<lparr>bd_tls := Some ?t\<rparr>"
    unfolding push_tls_def by (auto simp: bindE_eq_Inr split: if_splits)
  have "\<exists>k<64. ts_align ?t = 2 ^ k"
  proof (cases "p_align p = 0")
    case True
    then show ?thesis by (intro exI [of _ 0]) simp
  next
    case False
    then obtain k where "k < 64" "p_align p = 2 ^ k" using is_power_of_two_exp c(2) assms(3) by blast
    then show ?thesis using False by auto
  qed
  then have "tls_ok (bd_file_len b) ?t" unfolding tls_ok_def using c(1,3) assms(4) by (simp add: check_file_bytes_iff)
  then show "bd_inv b'" using assms(2) unfolding c(4) bd_inv_def by auto
  show "bd_file_len b' = bd_file_len b" "bd_eh b' = bd_eh b" using c(4) by simp_all
qed

lemma bd_push_inv:
  assumes "bd_push b ph = Inr b'" "bd_inv b"
  shows "bd_inv b' \<and> bd_file_len b' = bd_file_len b \<and> bd_eh b' = bd_eh b"
proof -
  let ?b = "b\<lparr>bd_pushed := bd_pushed b + 1\<rparr>"
  have i: "bd_inv ?b" using assms(2) by (simp add: bd_inv_def)
  obtain p where p: "read_phdr ph = Inr p"
    using assms(1) unfolding bd_push_def by (auto simp: bindE_eq_Inr Let_def split: if_splits)
  then have e: "(if p_type p = PT_INTERP then Inl HasInterp
      else if p_type p = PT_LOAD then push_load ?b p
      else if p_type p = PT_GNU_STACK then
        Inr (?b\<lparr>bd_saw_gnu_stack := True, bd_stack_exec := (p_flags p AND PF_X \<noteq> 0)\<rparr>)
      else if p_type p = PT_TLS then push_tls ?b p
      else if p_type p = PT_PHDR then Inr (?b\<lparr>bd_phdr_va := Some (p_vaddr p)\<rparr>)
      else Inr ?b) = Inr b'"
    using assms(1) unfolding bd_push_def Let_def by (simp split: if_splits)
  consider "push_load ?b p = Inr b'" | "push_tls ?b p = Inr b'"
    | "b' = ?b\<lparr>bd_saw_gnu_stack := True, bd_stack_exec := (p_flags p AND PF_X \<noteq> 0)\<rparr>"
    | "b' = ?b\<lparr>bd_phdr_va := Some (p_vaddr p)\<rparr>" | "b' = ?b"
    using e by (metis Inl_Inr_False Inr_inject)
  then show ?thesis
  proof cases
    case 1
    then show ?thesis using push_load_inv [OF 1 i] by simp
  next
    case 2
    then show ?thesis using push_tls_inv [OF 2 i read_phdr_align [OF p]] by simp
  qed (use assms(2) in \<open>simp_all add: bd_inv_def\<close>)
qed

lemma push_all_inv:
  "push_all phs b = Inr b' \<Longrightarrow> bd_inv b \<Longrightarrow> bd_inv b' \<and> bd_file_len b' = bd_file_len b \<and> bd_eh b' = bd_eh b"
proof (induction phs arbitrary: b)
  case (Cons ph phs)
  then obtain b1 where "bd_push b ph = Inr b1" "push_all phs b1 = Inr b'" by (auto simp: bindE_eq_Inr)
  then show ?case using Cons bd_push_inv by metis
qed simp

lemma bd_new_inv: "bd_inv (bd_new eh n)"
  by (simp add: bd_inv_def bd_new_def)

text \<open>The size the loader maps.\<close>

lemma image_total_sum:
  "image_total ls acc = Inr t \<Longrightarrow> \<forall>s \<in> set ls. ls_vaddr s + ls_memsz s \<le> USER_MAP_END \<Longrightarrow>
   t = acc + sum_list (map seg_span ls)"
proof (induction ls arbitrary: acc)
  case (Cons s ss)
  have b: "ls_vaddr s + ls_memsz s + 4095 < 2 ^ 64" using Cons.prems(2) by (simp add: va_consts)
  have up: "and_not64 (ls_vaddr s + ls_memsz s + (PAGE_SIZE_4K - 1)) (PAGE_SIZE_4K - 1) = page_up (ls_vaddr s + ls_memsz s)"
    using b by (simp add: page_up_def sat_add64_eq PAGE_SIZE_4K_eq)
  show ?case
  proof (cases "ls_memsz s = 0")
    case True
    then show ?thesis using Cons by (simp add: seg_span_def)
  next
    case False
    then have "image_total ss (acc + seg_span s) = Inr t"
      using Cons.prems(1) up by (auto simp: bindE_eq_Inr rust_Some seg_span_def)
    then show ?thesis using Cons.IH Cons.prems(2) by fastforce
  qed
qed simp

definition tls_span :: "tls_seg option \<Rightarrow> nat" where
  "tls_span t = (case t of None \<Rightarrow> 0 | Some s \<Rightarrow> the (tls_map_len s))"

lemma image_bytes_bound:
  assumes "image_bytes ls tls = Inr t" "\<forall>s \<in> set ls. ls_vaddr s + ls_memsz s \<le> USER_MAP_END"
  shows "sum_list (map seg_span ls) + tls_span tls \<le> EXEC_IMAGE_MAX" "tls = Some s \<Longrightarrow> tls_map_len s \<noteq> None"
proof -
  obtain z where "image_total ls 0 = Inr z" using assms(1) by (auto simp: image_bytes_def bindE_eq_Inr)
  with image_total_sum [OF this assms(2)] assms(1)
  show "sum_list (map seg_span ls) + tls_span tls \<le> EXEC_IMAGE_MAX" "tls = Some s \<Longrightarrow> tls_map_len s \<noteq> None"
    by (auto simp: image_bytes_def bindE_eq_Inr tls_span_def rust_Some split: option.splits if_splits)
qed

text \<open>Everything an accepted image satisfies.\<close>

definition image_ok :: "image \<Rightarrow> bool" where
  "image_ok img \<longleftrightarrow> 1 \<le> length (image_loads img) \<and> length (image_loads img) \<le> MAX_LOADS \<and>
     (\<forall>s \<in> set (image_loads img). seg_ok (im_file_len img) s) \<and>
     sorted_wrt (\<lambda>s t. seg_bytes s \<inter> seg_bytes t = {}) (image_loads img) \<and>
     (\<forall>t. im_tls img = Some t \<longrightarrow> tls_ok (im_file_len img) t \<and> tls_map_len t \<noteq> None) \<and>
     sum_list (map seg_span (image_loads img)) + tls_span (im_tls img) \<le> EXEC_IMAGE_MAX \<and>
     NULL_GUARD_LEN \<le> im_entry img \<and> im_entry img < USER_MAP_END \<and>
     im_phoff img + im_phnum img * PHDR_SIZE \<le> im_file_len img \<and>
     (\<forall>va. im_phdr_va img = Some va \<longrightarrow> NULL_GUARD_LEN \<le> va \<and> va + im_phnum img * PHDR_SIZE \<le> USER_MAP_END)"

lemma ph_end_Some: "ph_end eh = Some e \<longleftrightarrow> eh_phoff eh + eh_phnum eh * PHDR_SIZE = e \<and> e < 2 ^ 64"
  by (auto simp: ph_end_def mul64_eq_Some rust_Some bind_eq_Some_conv)

lemma parse_ehdr_end:
  assumes "parse_ehdr b n = Inr eh"
  shows "eh_phoff eh + eh_phnum eh * PHDR_SIZE \<le> n"
  using assms unfolding parse_ehdr_def
  by (auto simp: bindE_eq_Inr ph_end_Some Let_def split: if_splits)

lemma bd_finish_ok:
  assumes "bd_finish b = Inr img" "bd_inv b" "eh_phoff (bd_eh b) + eh_phnum (bd_eh b) * PHDR_SIZE \<le> bd_file_len b"
  shows "image_ok img \<and> im_file_len img = bd_file_len b"
proof -
  let ?eh = "bd_eh b"
  let ?va = "\<lambda>pe. case bd_phdr_va b of
      None \<Rightarrow> find_map (phdr_in ?eh pe) (bd_segs b) | Some va \<Rightarrow> Some va"
  from assms(1) obtain pe t va where f: "bd_nload b \<noteq> 0" "bd_nload b \<le> length (bd_loads b)"
    "image_bytes (bd_segs b) (bd_tls b) = Inr t" "check_user_va (eh_entry ?eh) 1 = Inr ()" "ph_end ?eh = Some pe"
    "(case va of None \<Rightarrow> Inr () | Some a \<Rightarrow> check_user_va a (max (sat_mul64 (eh_phnum ?eh) PHDR_SIZE) 1)) = Inr ()"
    "img = \<lparr>im_file_len = bd_file_len b, im_entry = eh_entry ?eh, im_loads = bd_loads b,
             im_nload = bd_nload b, im_stack_exec = (bd_saw_gnu_stack b \<and> bd_stack_exec b), im_tls = bd_tls b,
             im_phoff = eh_phoff ?eh, im_phentsize = PHDR_SIZE, im_phnum = eh_phnum ?eh, im_phdr_va = va\<rparr>"
    unfolding bd_finish_def by (auto simp: bindE_eq_Inr get_range_Some Let_def split: if_splits)
  have I: "\<forall>s \<in> set (bd_segs b). seg_ok (bd_file_len b) s"
    "sorted_wrt (\<lambda>s t. seg_bytes s \<inter> seg_bytes t = {}) (bd_segs b)"
    "\<forall>t. bd_tls b = Some t \<longrightarrow> tls_ok (bd_file_len b) t" "length (bd_loads b) = MAX_LOADS"
    using assms(2) unfolding bd_inv_def by blast+
  have ls: "image_loads img = bd_segs b" using f(2,7) by (simp add: image_loads_def get_range_def)
  have "\<forall>s \<in> set (bd_segs b). ls_vaddr s + ls_memsz s \<le> USER_MAP_END" using I(1) by (force simp: seg_ok_def)
  note sz = image_bytes_bound [OF f(3) this]
  have m: "sat_mul64 (eh_phnum ?eh) PHDR_SIZE = eh_phnum ?eh * PHDR_SIZE"
    using f(5) by (auto simp: ph_end_Some sat_mul64_def)
  have va: "NULL_GUARD_LEN \<le> a \<and> a + eh_phnum ?eh * PHDR_SIZE \<le> USER_MAP_END" if "va = Some a" for a
    using f(6) that m by (auto simp: check_user_va_iff)
  have e: "NULL_GUARD_LEN \<le> eh_entry ?eh" "eh_entry ?eh < USER_MAP_END"
    using f(4) by (simp_all add: check_user_va_iff)
  show ?thesis unfolding image_ok_def ls using f(1,2,7) I sz e va assms(3) by auto
qed

lemma parse_ok:
  assumes "parse data = Inr img"
  shows "image_ok img \<and> im_file_len img = length data"
proof -
  from assms obtain eh b phs where p: "parse_ehdr data (length data) = Inr eh"
    "push_all phs (bd_new eh (length data)) = Inr b" "bd_finish b = Inr img"
    unfolding parse_def by (auto simp: bindE_eq_Inr)
  have b: "bd_inv b" "bd_file_len b = length data" "bd_eh b = eh"
    using push_all_inv [OF p(2) bd_new_inv] by (simp_all add: bd_new_def)
  then show ?thesis using bd_finish_ok [OF p(3) b(1)] parse_ehdr_end [OF p(1)] by simp
qed

end
