(* ===== verification/Elf_Plan.thy ===== *)
theory Elf_Plan
  imports Elf
begin

text \<open>
  How an image is mapped (\<open>load_plan\<close> and \<open>load_segments\<close> of \<open>crates/core/src/proc/elf.rs\<close>) and where
  its thread-local block goes (\<open>TlsSeg\<close>). The plan is the list of its runs, bounded as the array is. The target of the
  loader is the trait \<open>LoadTarget\<close>: its two methods are arguments here.
\<close>

record page_run =
  pr_start :: nat
  pr_len :: nat
  pr_write :: bool
  pr_exec :: bool

definition seg_pages :: "load_seg \<Rightarrow> nat \<times> nat" where
  "seg_pages s = (page_down (ls_vaddr s), page_up (sat_add64 (ls_vaddr s) (ls_memsz s)))"

definition add_edge :: "nat \<Rightarrow> nat list \<Rightarrow> nat list" where
  "add_edge e es = (if e \<in> set es then es else if length es < 2 * MAX_LOADS then es @ [e] else es)"

definition plan_edges :: "load_seg list \<Rightarrow> nat list" where
  "plan_edges loads = fold (\<lambda>s es. let (lo, hi) = seg_pages s in add_edge hi (add_edge lo es))
     (filter (\<lambda>s. ls_memsz s \<noteq> 0) loads) []"

definition plan_step :: "load_seg list \<Rightarrow> nat \<times> nat \<Rightarrow> page_run list \<Rightarrow> page_run list" where
  "plan_step loads = (\<lambda>(a, b) runs.
     (case find (\<lambda>s. let (lo, hi) = seg_pages s in lo \<le> a \<and> b \<le> hi) (filter (\<lambda>s. ls_memsz s \<noteq> 0) (rev loads)) of
        None \<Rightarrow> runs
      | Some seg \<Rightarrow>
          let len = b - a in
          if runs \<noteq> [] \<and> sat_add64 (pr_start (last runs)) (pr_len (last runs)) = a \<and>
            pr_write (last runs) = ls_write seg \<and> pr_exec (last runs) = ls_exec seg
          then butlast runs @ [(last runs)\<lparr>pr_len := sat_add64 (pr_len (last runs)) len\<rparr>]
          else if length runs < 2 * MAX_LOADS
          then runs @ [\<lparr>pr_start = a, pr_len = len, pr_write = ls_write seg, pr_exec = ls_exec seg\<rparr>]
          else runs))"

definition load_plan :: "image \<Rightarrow> page_run list" where
  "load_plan img =
     (let es = sort (plan_edges (image_loads img)) in fold (plan_step (image_loads img)) (zip es (tl es)) [])"

primrec map_runs :: "('t \<Rightarrow> page_run \<Rightarrow> 'e + 't) \<Rightarrow> page_run list \<Rightarrow> 't \<Rightarrow> 'e + 't" where
  "map_runs f [] t = Inr t"
| "map_runs f (r # rs) t = bindE (f t r) (map_runs f rs)"

primrec copy_segs :: "('t \<Rightarrow> load_seg \<Rightarrow> 'e + 't) \<Rightarrow> load_seg list \<Rightarrow> 't \<Rightarrow> 'e + 't" where
  "copy_segs g [] t = Inr t"
| "copy_segs g (s # ss) t = (if ls_filesz s \<noteq> 0 then bindE (g t s) (copy_segs g ss) else copy_segs g ss t)"

definition load_segments ::
  "('t \<Rightarrow> page_run \<Rightarrow> 'e + 't) \<Rightarrow> ('t \<Rightarrow> load_seg \<Rightarrow> 'e + 't) \<Rightarrow> image \<Rightarrow> 't \<Rightarrow> 'e + 't" where
  "load_segments map_zeroed copy img t =
     bindE (map_runs map_zeroed (load_plan img) t) (copy_segs copy (image_loads img))"

section \<open>The permissions of a page\<close>

text \<open>The reference: an address has the permissions of the last segment in header order whose pages hold it.\<close>

definition seg_perms :: "load_seg list \<Rightarrow> nat \<Rightarrow> (bool \<times> bool) option" where
  "seg_perms loads p = map_option (\<lambda>s. (ls_write s, ls_exec s))
     (find (\<lambda>s. ls_memsz s \<noteq> 0 \<and> fst (seg_pages s) \<le> p \<and> p < snd (seg_pages s)) (rev loads))"

definition run_perms :: "page_run list \<Rightarrow> nat \<Rightarrow> (bool \<times> bool) option" where
  "run_perms runs p = map_option (\<lambda>r. (pr_write r, pr_exec r)) (find (\<lambda>r. pr_start r \<le> p \<and> p < pr_start r + pr_len r) runs)"

definition run_ok :: "page_run \<Rightarrow> bool" where
  "run_ok r \<longleftrightarrow> 0 < pr_len r \<and> pr_start r mod 4096 = 0 \<and> pr_len r mod 4096 = 0 \<and> pr_start r + pr_len r \<le> USER_MAP_END"

definition runs_sorted :: "page_run list \<Rightarrow> bool" where
  "runs_sorted = sorted_wrt (\<lambda>r q. pr_start r + pr_len r \<le> pr_start q)"

definition user_segs :: "load_seg list \<Rightarrow> bool" where
  "user_segs loads \<longleftrightarrow> (\<forall>s \<in> set loads. ls_vaddr s + ls_memsz s \<le> USER_MAP_END)"

lemma find_append_last: "find P (xs @ [x]) = (case find P xs of None \<Rightarrow> if P x then Some x else None | Some y \<Rightarrow> Some y)"
  by (induction xs) auto

lemma find_cong': "(\<And>x. x \<in> set xs \<Longrightarrow> P x = Q x) \<Longrightarrow> find P xs = find Q xs"
  by (induction xs) auto

lemma find_filter: "find P (filter Q xs) = find (\<lambda>x. Q x \<and> P x) xs"
  by (induction xs) auto

lemma sorted_le_last: "x \<in> set xs \<Longrightarrow> sorted xs \<Longrightarrow> x \<le> last xs"
  by (induction xs) (auto split: if_splits)

lemma run_perms_snoc:
  "run_perms (rs @ [r]) p = (case run_perms rs p of
     None \<Rightarrow> if pr_start r \<le> p \<and> p < pr_start r + pr_len r then Some (pr_write r, pr_exec r) else None
   | Some x \<Rightarrow> Some x)"
  by (simp add: run_perms_def find_append_last split: option.splits)

lemma run_perms_past:
  assumes "\<forall>r \<in> set rs. pr_start r + pr_len r \<le> a" "a \<le> p"
  shows "run_perms rs p = None"
  using assms by (auto simp: run_perms_def find_None_iff)

section \<open>The edges\<close>

lemma seg_pages_bounds:
  assumes "user_segs loads" "s \<in> set loads" "ls_memsz s \<noteq> 0"
  shows "fst (seg_pages s) \<le> ls_vaddr s" "ls_vaddr s + ls_memsz s \<le> snd (seg_pages s)" "snd (seg_pages s) \<le> USER_MAP_END"
    "fst (seg_pages s) mod 4096 = 0" "snd (seg_pages s) mod 4096 = 0" "fst (seg_pages s) < snd (seg_pages s)"
proof -
  have b: "ls_vaddr s + ls_memsz s \<le> USER_MAP_END" using assms by (simp add: user_segs_def)
  then have lt: "ls_vaddr s < 2 ^ 64" "ls_vaddr s + ls_memsz s + 4095 < 2 ^ 64" "ls_vaddr s + ls_memsz s < 2 ^ 64"
    by (simp_all add: va_consts)
  have pg: "fst (seg_pages s) = page_down (ls_vaddr s)" "snd (seg_pages s) = page_up (ls_vaddr s + ls_memsz s)"
    using lt by (simp_all add: seg_pages_def sat_add64_eq)
  show c: "fst (seg_pages s) \<le> ls_vaddr s" "ls_vaddr s + ls_memsz s \<le> snd (seg_pages s)"
    "fst (seg_pages s) mod 4096 = 0" "snd (seg_pages s) mod 4096 = 0"
    unfolding pg using page_down_bounds [OF lt(1)] page_up_bounds [OF lt(2)] by simp_all
  show "fst (seg_pages s) < snd (seg_pages s)" using c assms(3) by simp
  have "page_up (ls_vaddr s + ls_memsz s) = (ls_vaddr s + ls_memsz s + 4095) div 4096 * 4096" by (rule page_up_eq [OF lt(2)])
  also have "\<dots> \<le> (USER_MAP_END + 4095) div 4096 * 4096" using b by (intro mult_le_mono1 div_le_mono) simp
  also have "\<dots> = USER_MAP_END" by (simp add: va_consts)
  finally show "snd (seg_pages s) \<le> USER_MAP_END" unfolding pg .
qed

lemma add_edge_set: "length es < 2 * MAX_LOADS \<Longrightarrow> set (add_edge e es) = insert e (set es)"
  by (auto simp: add_edge_def)

lemma add_edge_length: "length (add_edge e es) \<le> length es + 1" "distinct es \<Longrightarrow> distinct (add_edge e es)"
  by (auto simp: add_edge_def)

lemma plan_edges_fold:
  assumes "length es + 2 * length ss \<le> 2 * MAX_LOADS" "distinct es"
  shows "set (fold (\<lambda>s es. let (lo, hi) = seg_pages s in add_edge hi (add_edge lo es)) ss es) =
      set es \<union> (\<Union>s \<in> set ss. {fst (seg_pages s), snd (seg_pages s)}) \<and>
    distinct (fold (\<lambda>s es. let (lo, hi) = seg_pages s in add_edge hi (add_edge lo es)) ss es) \<and>
    length (fold (\<lambda>s es. let (lo, hi) = seg_pages s in add_edge hi (add_edge lo es)) ss es) \<le> length es + 2 * length ss"
  using assms
proof (induction ss arbitrary: es)
  case (Cons s ss)
  obtain lo hi where sp: "seg_pages s = (lo, hi)" by (cases "seg_pages s")
  let ?e1 = "add_edge lo es" and ?e2 = "add_edge hi (add_edge lo es)"
  have l: "length ?e1 \<le> length es + 1" "length ?e2 \<le> length es + 2"
    using add_edge_length(1) [of lo es] add_edge_length(1) [of hi ?e1] by simp_all
  have "set ?e2 = insert hi (insert lo (set es))"
    using add_edge_set [of ?e1 hi] add_edge_set [of es lo] Cons.prems l by simp
  moreover have "distinct ?e2" using Cons.prems add_edge_length(2) by simp
  ultimately show ?case using Cons.IH [of ?e2] Cons.prems(1) l(2) sp by auto
qed simp

lemma plan_edges_spec:
  assumes "length loads \<le> MAX_LOADS"
  shows "set (plan_edges loads) = (\<Union>s \<in> {s \<in> set loads. ls_memsz s \<noteq> 0}. {fst (seg_pages s), snd (seg_pages s)})"
    "distinct (plan_edges loads)" "length (plan_edges loads) \<le> 2 * MAX_LOADS"
proof -
  have "length (filter (\<lambda>s. ls_memsz s \<noteq> 0) loads) \<le> MAX_LOADS"
    using length_filter_le [of _ loads] assms by (rule le_trans)
  note f = plan_edges_fold [of "[]" "filter (\<lambda>s. ls_memsz s \<noteq> 0) loads", folded plan_edges_def]
  show "set (plan_edges loads) = (\<Union>s \<in> {s \<in> set loads. ls_memsz s \<noteq> 0}. {fst (seg_pages s), snd (seg_pages s)})"
    "distinct (plan_edges loads)" "length (plan_edges loads) \<le> 2 * MAX_LOADS"
    using f \<open>length (filter _ _) \<le> _\<close> by auto
qed

section \<open>The runs\<close>

text \<open>The runs up to the edge \<open>a\<close> give every address below \<open>a\<close> its permissions.\<close>

definition plan_inv :: "load_seg list \<Rightarrow> nat \<Rightarrow> page_run list \<Rightarrow> bool" where
  "plan_inv loads a runs \<longleftrightarrow> runs_sorted runs \<and> (\<forall>r \<in> set runs. run_ok r \<and> pr_start r + pr_len r \<le> a) \<and>
     (\<forall>p < a. run_perms runs p = seg_perms loads p)"

definition no_edge :: "load_seg list \<Rightarrow> nat \<Rightarrow> nat \<Rightarrow> bool" where
  "no_edge loads a b \<longleftrightarrow> (\<forall>s \<in> set loads. ls_memsz s \<noteq> 0 \<longrightarrow>
     (fst (seg_pages s) \<le> a \<or> b \<le> fst (seg_pages s)) \<and> (snd (seg_pages s) \<le> a \<or> b \<le> snd (seg_pages s)))"

lemma seg_perms_window:
  assumes "no_edge loads a b" "a \<le> p" "p < b"
  shows "seg_perms loads p = map_option (\<lambda>s. (ls_write s, ls_exec s))
    (find (\<lambda>s. let (lo, hi) = seg_pages s in lo \<le> a \<and> b \<le> hi) (filter (\<lambda>s. ls_memsz s \<noteq> 0) (rev loads)))"
proof -
  have "find (\<lambda>s. ls_memsz s \<noteq> 0 \<and> fst (seg_pages s) \<le> p \<and> p < snd (seg_pages s)) (rev loads) =
    find (\<lambda>s. ls_memsz s \<noteq> 0 \<and> (let (lo, hi) = seg_pages s in lo \<le> a \<and> b \<le> hi)) (rev loads)"
  proof (rule find_cong')
    fix s assume "s \<in> set (rev loads)"
    then show "(ls_memsz s \<noteq> 0 \<and> fst (seg_pages s) \<le> p \<and> p < snd (seg_pages s)) =
      (ls_memsz s \<noteq> 0 \<and> (let (lo, hi) = seg_pages s in lo \<le> a \<and> b \<le> hi))"
      using assms unfolding no_edge_def by (cases "seg_pages s") fastforce
  qed
  then show ?thesis by (simp only: seg_perms_def find_filter)
qed

lemma plan_step_inv:
  assumes "plan_inv loads a runs" "no_edge loads a b" "a < b" "b \<le> USER_MAP_END" "a mod 4096 = 0" "b mod 4096 = 0"
    "length runs < 2 * MAX_LOADS"
  shows "plan_inv loads b (plan_step loads (a, b) runs) \<and> length (plan_step loads (a, b) runs) \<le> length runs + 1"
proof -
  let ?f = "find (\<lambda>s. let (lo, hi) = seg_pages s in lo \<le> a \<and> b \<le> hi) (filter (\<lambda>s. ls_memsz s \<noteq> 0) (rev loads))"
  have I: "runs_sorted runs" "\<forall>r \<in> set runs. run_ok r \<and> pr_start r + pr_len r \<le> a" "\<forall>p < a. run_perms runs p = seg_perms loads p"
    using assms(1) unfolding plan_inv_def by blast+
  have past: "run_perms rs p = None" if "set rs \<subseteq> set runs" "a \<le> p" for rs p
    using run_perms_past [of rs a p] I(2) that by blast
  have win: "seg_perms loads p = map_option (\<lambda>s. (ls_write s, ls_exec s)) ?f" if "a \<le> p" "p < b" for p
    using seg_perms_window [OF assms(2) that] .
  have ba: "(b - a) mod 4096 = 0" using assms(3,5,6) by (simp add: mod_eq_0_iff_dvd)
  show ?thesis
  proof (cases ?f)
    case None
    have "run_perms runs p = seg_perms loads p" if "p < b" for p
      using I(3) past [of runs p] win [of p] None that by (cases "p < a") auto
    then have "plan_inv loads b runs" unfolding plan_inv_def using I(1,2) assms(3) by auto
    then show ?thesis using None by (simp add: plan_step_def)
  next
    case (Some seg)
    show ?thesis
    proof (cases "runs \<noteq> [] \<and> sat_add64 (pr_start (last runs)) (pr_len (last runs)) = a \<and>
            pr_write (last runs) = ls_write seg \<and> pr_exec (last runs) = ls_exec seg")
      case True
      obtain rs r where rs: "runs = rs @ [r]" using True by (cases runs rule: rev_cases) auto
      have r: "run_ok r" "pr_start r + pr_len r \<le> a" using I(2) rs by auto
      have e: "pr_start r + pr_len r = a" using True rs r assms(3,4) by (simp add: sat_add64_def va_consts)
      have l: "sat_add64 (pr_len r) (b - a) = pr_len r + (b - a)" using e assms(3,4) by (intro sat_add64_eq) (simp add: va_consts)
      let ?r = "r\<lparr>pr_len := pr_len r + (b - a)\<rparr>"
      have st: "plan_step loads (a, b) runs = rs @ [?r]" using True Some rs l by (simp add: plan_step_def Let_def)
      have eb: "pr_start ?r + pr_len ?r = b" using e assms(3) by simp
      have "run_ok ?r" using r(1) eb assms(4) ba unfolding run_ok_def by (simp add: mod_add_eq [symmetric])
      moreover have "runs_sorted (rs @ [?r])" using I(1) rs by (auto simp: runs_sorted_def sorted_wrt_append)
      moreover have "run_perms (rs @ [?r]) p = seg_perms loads p" if "p < b" for p
      proof (cases "p < a")
        case True
        have "run_perms (rs @ [?r]) p = run_perms (rs @ [r]) p" unfolding run_perms_snoc using True e eb by (auto split: option.split)
        then show ?thesis using I(3) True rs by simp
      next
        case False
        have "run_perms rs p = None" using past [of rs p] False rs by auto
        then show ?thesis using win [of p] False that Some True rs e eb unfolding run_perms_snoc by auto
      qed
      moreover have "\<forall>q \<in> set rs. run_ok q \<and> pr_start q + pr_len q \<le> b" using I(2) rs assms(3) by force
      ultimately show ?thesis unfolding st plan_inv_def using rs eb by simp
    next
      case False
      let ?r = "\<lparr>pr_start = a, pr_len = b - a, pr_write = ls_write seg, pr_exec = ls_exec seg\<rparr>"
      have st: "plan_step loads (a, b) runs = runs @ [?r]"
        using False Some assms(7) unfolding plan_step_def by (auto simp: Let_def)
      have "run_ok ?r" using assms(3,4,5) ba by (simp add: run_ok_def)
      moreover have "runs_sorted (runs @ [?r])" using I(1,2) by (auto simp: runs_sorted_def sorted_wrt_append)
      moreover have "run_perms (runs @ [?r]) p = seg_perms loads p" if "p < b" for p
      proof (cases "p < a")
        case True
        then show ?thesis using I(3) unfolding run_perms_snoc by (auto split: option.split)
      next
        case f: False
        then show ?thesis using past [of runs p] win [of p] that Some assms(3) unfolding run_perms_snoc by auto
      qed
      moreover have "\<forall>q \<in> set runs. run_ok q \<and> pr_start q + pr_len q \<le> b" using I(2) assms(3) by force
      ultimately show ?thesis unfolding st plan_inv_def using assms(3) by simp
    qed
  qed
qed

lemma plan_fold_inv:
  assumes "plan_inv loads a runs" "sorted_wrt (<) (a # es)" "length runs + length es < 2 * MAX_LOADS"
    "\<forall>e \<in> set (a # es). e \<le> USER_MAP_END \<and> e mod 4096 = 0"
    "\<forall>s \<in> set loads. ls_memsz s \<noteq> 0 \<longrightarrow> (fst (seg_pages s) \<le> a \<or> fst (seg_pages s) \<in> set es) \<and> (snd (seg_pages s) \<le> a \<or> snd (seg_pages s) \<in> set es)"
  shows "plan_inv loads (last (a # es)) (fold (plan_step loads) (zip (a # es) es) runs)"
  using assms
proof (induction es arbitrary: a runs)
  case (Cons b es)
  have ne: "no_edge loads a b"
    using Cons.prems(2,5) unfolding no_edge_def by (fastforce simp: less_imp_le)
  have st: "plan_inv loads b (plan_step loads (a, b) runs)" "length (plan_step loads (a, b) runs) \<le> length runs + 1"
    using plan_step_inv [OF Cons.prems(1) ne] Cons.prems(2,3,4) by auto
  have "plan_inv loads (last (b # es)) (fold (plan_step loads) (zip (b # es) es) (plan_step loads (a, b) runs))"
    using st Cons.prems by (intro Cons.IH) fastforce+
  then show ?case by simp
qed simp

lemma load_plan_spec:
  assumes "user_segs (image_loads img)" "length (image_loads img) \<le> MAX_LOADS"
  shows "runs_sorted (load_plan img)" "\<forall>r \<in> set (load_plan img). run_ok r"
    "run_perms (load_plan img) p = seg_perms (image_loads img) p"
proof -
  let ?L = "image_loads img"
  note E = plan_edges_spec [OF assms(2)]
  note B = seg_pages_bounds [OF assms(1)]
  define es where "es = sort (plan_edges ?L)"
  have es: "set es = (\<Union>s \<in> {s \<in> set ?L. ls_memsz s \<noteq> 0}. {fst (seg_pages s), snd (seg_pages s)})"
    "sorted_wrt (<) es" "length es \<le> 2 * MAX_LOADS"
    using E by (simp_all add: es_def strict_sorted_iff)
  have "runs_sorted (load_plan img) \<and> (\<forall>r \<in> set (load_plan img). run_ok r) \<and>
    run_perms (load_plan img) p = seg_perms ?L p"
  proof (cases es)
    case Nil
    then have no: "\<forall>s \<in> set ?L. ls_memsz s = 0" using es(1) by auto
    have "load_plan img = []" using Nil by (simp add: load_plan_def es_def [symmetric])
    then show ?thesis using no by (auto simp: runs_sorted_def run_perms_def seg_perms_def find_None_iff)
  next
    case (Cons a rest)
    have lo: "a \<le> fst (seg_pages s)" if "s \<in> set ?L" "ls_memsz s \<noteq> 0" for s
    proof -
      have "fst (seg_pages s) \<in> set es" using that es(1) by auto
      then show ?thesis using es(2) Cons by (auto simp: less_imp_le)
    qed
    have "plan_inv ?L a []"
      unfolding plan_inv_def using lo by (force simp: runs_sorted_def run_perms_def seg_perms_def find_None_iff)
    moreover have "\<forall>e \<in> set (a # rest). e \<le> USER_MAP_END \<and> e mod 4096 = 0"
    proof
      fix e assume "e \<in> set (a # rest)"
      then obtain s where "s \<in> set ?L" "ls_memsz s \<noteq> 0" "e = fst (seg_pages s) \<or> e = snd (seg_pages s)"
        using es(1) Cons by auto
      then show "e \<le> USER_MAP_END \<and> e mod 4096 = 0" using B(3-6) [of s] by auto
    qed
    moreover have "\<forall>s \<in> set ?L. ls_memsz s \<noteq> 0 \<longrightarrow> (fst (seg_pages s) \<le> a \<or> fst (seg_pages s) \<in> set rest) \<and>
      (snd (seg_pages s) \<le> a \<or> snd (seg_pages s) \<in> set rest)"
    proof (intro ballI impI)
      fix s assume "s \<in> set ?L" "ls_memsz s \<noteq> 0"
      then have "fst (seg_pages s) \<in> set (a # rest)" "snd (seg_pages s) \<in> set (a # rest)"
        using es(1) Cons by auto
      then show "(fst (seg_pages s) \<le> a \<or> fst (seg_pages s) \<in> set rest) \<and>
        (snd (seg_pages s) \<le> a \<or> snd (seg_pages s) \<in> set rest)" by auto
    qed
    ultimately have "plan_inv ?L (last (a # rest)) (fold (plan_step ?L) (zip (a # rest) rest) [])"
      using es(2,3) Cons by (intro plan_fold_inv) auto
    then have inv: "plan_inv ?L (last es) (load_plan img)"
      unfolding load_plan_def es_def [symmetric] using Cons by simp
    have hi: "snd (seg_pages s) \<le> last es" if "s \<in> set ?L" "ls_memsz s \<noteq> 0" for s
    proof -
      have "snd (seg_pages s) \<in> set es" using that es(1) by auto
      moreover have "sorted es" unfolding es_def by simp
      ultimately show ?thesis by (rule sorted_le_last)
    qed
    have "run_perms (load_plan img) p = seg_perms ?L p"
    proof (cases "p < last es")
      case True
      then show ?thesis using inv by (simp add: plan_inv_def)
    next
      case False
      have "run_perms (load_plan img) p = None"
        using run_perms_past [of "load_plan img" "last es" p] inv False by (simp add: plan_inv_def)
      moreover have "seg_perms ?L p = None"
        using hi False by (fastforce simp: seg_perms_def find_None_iff)
      ultimately show ?thesis by simp
    qed
    then show ?thesis using inv by (simp add: plan_inv_def)
  qed
  then show "runs_sorted (load_plan img)" "\<forall>r \<in> set (load_plan img). run_ok r"
    "run_perms (load_plan img) p = seg_perms (image_loads img) p" by simp_all
qed

section \<open>Loading\<close>

text \<open>Every byte a segment copies from the file is in a run that was mapped.\<close>

lemma seg_perms_covers:
  assumes "user_segs loads" "s \<in> set loads" "ls_vaddr s \<le> p" "p < ls_vaddr s + ls_memsz s"
  shows "seg_perms loads p \<noteq> None"
proof -
  have "ls_memsz s \<noteq> 0" using assms(3,4) by auto
  then have "fst (seg_pages s) \<le> p" "p < snd (seg_pages s)"
    using seg_pages_bounds(1,2) [OF assms(1,2)] assms(3,4) by auto
  then show ?thesis using assms(2) \<open>ls_memsz s \<noteq> 0\<close> by (auto simp: seg_perms_def find_None_iff)
qed

section \<open>The thread-local block\<close>

lemma and_mask_0: "x AND (2 ^ k - 1) = (0 :: nat) \<longleftrightarrow> x mod 2 ^ k = 0"
  unfolding mask_eq_exp_minus_1 [symmetric] take_bit_eq_mask [symmetric] take_bit_eq_mod ..

lemma tls_block_len_Some:
  assumes "ts_align t = 2 ^ k" "k < 64" "tls_block_len t = Some b" "ts_memsz t < 2 ^ 64"
  shows "ts_memsz t \<le> b" "b mod ts_align t = 0"
proof -
  have "ts_memsz t \<le> b \<and> b mod ts_align t = 0"
  proof (cases "ts_align t \<le> 1")
    case True
    then have "ts_align t = 1" using assms(1) by (simp add: le_less)
    then show ?thesis using assms(3) by (simp add: tls_block_len_def)
  next
    case False
    then have "ts_memsz t + (2 ^ k - 1) < 2 ^ 64" "b = and_not64 (ts_memsz t + (2 ^ k - 1)) (2 ^ k - 1)"
      using assms(1,3) by (auto simp: tls_block_len_def rust_Some bind_eq_Some_conv)
    then have "b = (ts_memsz t + (2 ^ k - 1)) div 2 ^ k * 2 ^ k" using and_not64_mask assms(2) by simp
    then show ?thesis using round_up_bounds(1) [of "2 ^ k" "ts_memsz t"] assms(1) by simp
  qed
  then show "ts_memsz t \<le> b" "b mod ts_align t = 0" by simp_all
qed

lemma tls_map_len_Some:
  assumes "tls_map_len t = Some m"
  obtains b where "tls_block_len t = Some b" "b + 8 \<le> m" "4096 \<le> m" "m mod 4096 = 0" "m < max (b + 8) 4096 + 4096"
proof -
  obtain b where b: "tls_block_len t = Some b" "max (b + 8) 4096 + 4095 < 2 ^ 64"
    "m = and_not64 (max (b + 8) 4096 + 4095) (PAGE_SIZE_4K - 1)"
    using assms by (auto simp: tls_map_len_def rust_Some bind_eq_Some_conv PAGE_SIZE_4K_eq)
  have "m = (max (b + 8) 4096 + (4096 - 1)) div 4096 * 4096" unfolding b(3) using and_not64_page [OF b(2)] by simp
  then show thesis using that [OF b(1)] round_up_bounds [of 4096 "max (b + 8) 4096"] by auto
qed

text \<open>
  A base with the alignment asked for always has room for the block: the thread pointer is aligned, the block ends at it
  and starts in the mapping, and the eight bytes of the self pointer fit behind it.
\<close>

lemma mult_le_round_down:
  fixes x :: nat
  assumes "x mod a = 0" "x \<le> y"
  shows "x \<le> y div a * a"
proof -
  have "x = x div a * a" using assms(1) by (simp add: mod_eq_0_iff_dvd)
  also have "\<dots> \<le> y div a * a" using assms(2) by (intro mult_le_mono1 div_le_mono)
  finally show ?thesis .
qed

lemma tls_thread_pointer_spec:
  assumes "ts_align t = 2 ^ k" "k < 64" "ts_memsz t < 2 ^ 64" "tls_map_len t = Some m" "tls_block_len t = Some b"
    "base mod tls_map_align t = 0" "base + m < 2 ^ 64"
  shows "\<exists>tp. tls_thread_pointer t base = Some (tp, tp - b) \<and> base + b \<le> tp \<and> tp + 8 \<le> base + m \<and> tp mod max (ts_align t) 8 = 0"
proof -
  obtain j where j: "max (ts_align t) 8 = 2 ^ j" "j < 64" "k \<le> j" "j = k \<or> k < 3 \<and> j = 3"
  proof (cases "k < 3")
    case True
    then have "(2 :: nat) ^ k < 2 ^ 3" by (intro power_strict_increasing) simp_all
    then show thesis using that [of 3] True assms(1) by simp
  next
    case False
    then have "(2 :: nat) ^ 3 \<le> 2 ^ k" by (intro power_increasing) simp_all
    then show thesis using that [of k] assms(1,2) by simp
  qed
  obtain i where i: "tls_map_align t = 2 ^ i" "i < 64" "12 \<le> i" "k \<le> i"
  proof (cases "k < 12")
    case True
    then have "(2 :: nat) ^ k < 2 ^ 12" by (intro power_strict_increasing) simp_all
    then show thesis using that [of 12] True assms(1) by (simp add: tls_map_align_def PAGE_SIZE_4K_eq)
  next
    case False
    then have "(2 :: nat) ^ 12 \<le> 2 ^ k" by (intro power_increasing) simp_all
    then show thesis using that [of k] False assms(1,2) by (simp add: tls_map_align_def PAGE_SIZE_4K_eq)
  qed
  obtain b' where "tls_block_len t = Some b'" "b' + 8 \<le> m" "4096 \<le> m" "m mod 4096 = 0" "m < max (b' + 8) 4096 + 4096"
    using tls_map_len_Some [OF assms(4)] by blast
  then have m: "b + 8 \<le> m" "m mod 4096 = 0" using assms(5) by simp_all
  have bk: "b mod 2 ^ k = 0" using tls_block_len_Some(2) [OF assms(1,2,5,3)] assms(1) by simp
  have dvd: "2 ^ l dvd base" if "l \<le> i" for l
    using assms(6) i(1) that by (metis dvd_trans le_imp_power_dvd mod_eq_0_iff_dvd)
  have m8: "8 dvd m" using dvd_trans [of 8 4096 m] m(2) by (simp add: mod_eq_0_iff_dvd)
  define e where "e = base + m - 8"
  define tp where "tp = e div 2 ^ j * 2 ^ j"
  have tp_le: "tp \<le> e" by (simp add: tp_def)
  have e: "base + b \<le> e" "e + 8 = base + m" using m(1) by (auto simp: e_def)
  have "base + b \<le> tp"
    using j(4)
  proof
    assume "j = k"
    have "(base + b) mod 2 ^ k = 0" using dvd [OF i(4)] bk by (simp add: mod_eq_0_iff_dvd)
    then show ?thesis using mult_le_round_down [OF _ e(1)] \<open>j = k\<close> by (simp add: tp_def)
  next
    assume "k < 3 \<and> j = 3"
    moreover have "8 dvd base" using dvd [of 3] i(3) by simp
    then have "8 dvd e" unfolding e_def using m8 by (intro dvd_diff_nat dvd_add) simp_all
    ultimately have "2 ^ j dvd e" by simp
    then show ?thesis using e(1) by (simp add: tp_def)
  qed
  moreover have "tls_thread_pointer t base = Some (tp, tp - b)"
  proof -
    have "base AND (2 ^ i - 1) = 0" using assms(6) i(1) and_mask_0 [of base i] by simp
    moreover have "and_not64 e (2 ^ j - 1) = tp" using and_not64_mask [of e j] j(2) e(2) assms(7) by (simp add: tp_def)
    moreover have "sub64 (2 ^ i) 1 = Some (2 ^ i - 1)" "sub64 (2 ^ j) 1 = Some (2 ^ j - 1)" by (simp_all add: sub64_def)
    ultimately show ?thesis
      unfolding tls_thread_pointer_def i(1) j(1)
      using assms(4,5,7) \<open>base + b \<le> tp\<close> m(1) by (simp add: e_def Let_def)
  qed
  moreover have "tp + 8 \<le> base + m" using tp_le e(2) by linarith
  moreover have "tp mod max (ts_align t) 8 = 0" unfolding j(1) tp_def by simp
  ultimately show ?thesis by (intro exI [of _ tp] conjI)
qed

end
