(* ===== verification/Exec_Stack.thy ===== *)
theory Exec_Stack
  imports Bytes
begin

text \<open>
  The arguments of one \<open>execve\<close> and the initial stack they go on, from
  \<open>crates/core/src/proc/elf/stack.rs\<close>. Whether the argument buffer can grow is decided by the kernel heap: the
  argument \<open>grow\<close> of the operations says whether a reservation of \<open>n\<close> more bytes on a buffer of \<open>len\<close>
  succeeds. An operation returns its result and the block it leaves. The \<open>debug_assert!\<close>s, which a release build leaves
  out, are not modelled.
\<close>

definition AT_NULL :: nat where "AT_NULL = 0"
definition AT_RANDOM :: nat where "AT_RANDOM = 25"
definition ARG_SPACE_MIN :: nat where "ARG_SPACE_MIN = push_bit 10 128"
definition ARG_SPACE_MAX :: nat where "ARG_SPACE_MAX = push_bit 20 6"
definition MAX_ARG_STRLEN :: nat where "MAX_ARG_STRLEN = 131072"

record auxv =
  ax_tag :: nat
  ax_val :: nat

datatype arg_error = TooBig | NoMem

text \<open>\<open>usize\<close> has 64 bits, so the conversion of the quarter cannot fail.\<close>

definition arg_space_limit :: "nat \<Rightarrow> nat" where
  "arg_space_limit rlimit_stack = (let quarter = rlimit_stack div 4 in
     if quarter < ARG_SPACE_MIN then ARG_SPACE_MIN else if quarter > ARG_SPACE_MAX then ARG_SPACE_MAX else quarter)"

record exec_args =
  ea_strings :: "u8 list"
  ea_argc :: nat
  ea_envc :: nat
  ea_used :: nat
  ea_limit :: nat
  ea_cur :: "nat option"
  ea_cur_env :: bool
  ea_argv_done :: bool

type_synonym arg_result = "(arg_error + unit) \<times> exec_args"

definition ea_new :: "nat \<Rightarrow> exec_args" where
  "ea_new limit = \<lparr>ea_strings = [], ea_argc = 0, ea_envc = 0, ea_used = 0, ea_limit = limit, ea_cur = None,
     ea_cur_env = False, ea_argv_done = False\<rparr>"

definition ea_charge :: "exec_args \<Rightarrow> nat \<Rightarrow> arg_error + nat" where
  "ea_charge a n = (case add64 (ea_used a) n of
     None \<Rightarrow> Inl TooBig | Some u \<Rightarrow> if u \<le> ea_limit a then Inr u else Inl TooBig)"

definition ea_begin :: "bool \<Rightarrow> exec_args \<Rightarrow> arg_result" where
  "ea_begin env a = (case ea_charge a 8 of
     Inl e \<Rightarrow> (Inl e, a)
   | Inr u \<Rightarrow> (Inr (), a\<lparr>ea_used := u, ea_cur := Some 0, ea_cur_env := env\<rparr>))"

definition ea_extend :: "(nat \<Rightarrow> nat \<Rightarrow> bool) \<Rightarrow> u8 list \<Rightarrow> exec_args \<Rightarrow> arg_result" where
  "ea_extend grow part a =
     (let cur = (case ea_cur a of None \<Rightarrow> 0 | Some n \<Rightarrow> n) in
      case add64 cur (length part) of
        None \<Rightarrow> (Inl TooBig, a)
      | Some len \<Rightarrow>
          if \<not> len < MAX_ARG_STRLEN then (Inl TooBig, a)
          else (case ea_charge a (length part) of
            Inl e \<Rightarrow> (Inl e, a)
          | Inr used \<Rightarrow>
              if \<not> grow (length (ea_strings a)) (length part) then (Inl NoMem, a)
              else (Inr (), a\<lparr>ea_strings := ea_strings a @ part, ea_used := used, ea_cur := Some len\<rparr>)))"

definition ea_end :: "(nat \<Rightarrow> nat \<Rightarrow> bool) \<Rightarrow> exec_args \<Rightarrow> arg_result" where
  "ea_end grow a =
     (case ea_charge a 1 of
        Inl e \<Rightarrow> (Inl e, a)
      | Inr used \<Rightarrow>
          if \<not> grow (length (ea_strings a)) 1 then (Inl NoMem, a)
          else let a = a\<lparr>ea_strings := ea_strings a @ [0], ea_used := used, ea_cur := None\<rparr> in
            (Inr (), if ea_cur_env a then a\<lparr>ea_envc := sat_add64 (ea_envc a) 1\<rparr>
                     else a\<lparr>ea_argc := sat_add64 (ea_argc a) 1\<rparr>))"

definition ea_push :: "(nat \<Rightarrow> nat \<Rightarrow> bool) \<Rightarrow> bool \<Rightarrow> u8 list \<Rightarrow> exec_args \<Rightarrow> arg_result" where
  "ea_push grow env s a =
     (case ea_begin env a of
        (Inl e, a) \<Rightarrow> (Inl e, a)
      | (Inr _, a) \<Rightarrow> (case ea_extend grow s a of
          (Inl e, a) \<Rightarrow> (Inl e, a)
        | (Inr _, a) \<Rightarrow> ea_end grow a))"

definition push_arg :: "(nat \<Rightarrow> nat \<Rightarrow> bool) \<Rightarrow> u8 list \<Rightarrow> exec_args \<Rightarrow> arg_result" where
  "push_arg grow = ea_push grow False"

definition push_env :: "(nat \<Rightarrow> nat \<Rightarrow> bool) \<Rightarrow> u8 list \<Rightarrow> exec_args \<Rightarrow> arg_result" where
  "push_env grow = ea_push grow True"

definition finish_argv :: "(nat \<Rightarrow> nat \<Rightarrow> bool) \<Rightarrow> exec_args \<Rightarrow> arg_result" where
  "finish_argv grow a =
     (case (if ea_argc a = 0 then push_arg grow [] a else (Inr (), a)) of
        (Inl e, a) \<Rightarrow> (Inl e, a)
      | (Inr _, a) \<Rightarrow> (Inr (), a\<lparr>ea_argv_done := True\<rparr>))"

section \<open>The layout\<close>

record stack_image =
  si_rsp :: nat
  si_strings_va :: nat

definition table_words :: "exec_args \<Rightarrow> nat \<Rightarrow> nat option" where
  "table_words a naux = do {
     s \<leftarrow> add64 (ea_argc a) (ea_envc a);
     ptrs \<leftarrow> add64 s 3;
     n2 \<leftarrow> add64 naux 2;
     n4 \<leftarrow> mul64 n2 2;
     add64 n4 ptrs }"

definition align16 :: "nat \<Rightarrow> nat option" where
  "align16 x = do { s \<leftarrow> add64 x 15; Some (and_not64 s 15) }"

definition stack_offsets :: "exec_args \<Rightarrow> nat \<Rightarrow> (nat \<times> nat \<times> nat) option" where
  "stack_offsets a naux = do {
     strings \<leftarrow> add64 (length (ea_strings a)) 8;
     s16 \<leftarrow> add64 strings 16;
     random \<leftarrow> align16 s16;
     w \<leftarrow> table_words a naux;
     table \<leftarrow> mul64 w 8;
     rt \<leftarrow> add64 random table;
     rsp \<leftarrow> align16 rt;
     Some (strings, random, rsp) }"

definition initial_stack_len :: "exec_args \<Rightarrow> nat \<Rightarrow> nat option" where
  "initial_stack_len a naux = map_option (\<lambda>(_, _, rsp). rsp) (stack_offsets a naux)"

definition poke_u64 :: "u8 list \<times> nat \<Rightarrow> nat \<Rightarrow> (u8 list \<times> nat) option" where
  "poke_u64 = (\<lambda>(mem, off) v. do {
     e \<leftarrow> add64 off 8;
     mem' \<leftarrow> put_range mem off (to_le 8 v);
     Some (mem', e) })"

text \<open>
  The loop over the bytes of the strings: at the index \<open>i\<close>, with the start of the current string and the number of
  strings so far.
\<close>

primrec poke_strings :: "nat \<Rightarrow> nat \<Rightarrow> u8 list \<Rightarrow> nat \<Rightarrow> u8 list \<times> nat \<Rightarrow> nat \<Rightarrow> nat \<Rightarrow> ((u8 list \<times> nat) \<times> nat) option" where
  "poke_strings strings_va argc [] i t start n = Some (t, n)"
| "poke_strings strings_va argc (b # bs) i t start n =
     (if b \<noteq> 0 then poke_strings strings_va argc bs (i + 1) t start n
      else do {
        va \<leftarrow> add64 strings_va start;
        t1 \<leftarrow> poke_u64 t va;
        n1 \<leftarrow> add64 n 1;
        t2 \<leftarrow> (if n1 = argc then poke_u64 t1 0 else Some t1);
        start1 \<leftarrow> add64 i 1;
        poke_strings strings_va argc bs (i + 1) t2 start1 n1 })"

primrec poke_aux :: "auxv list \<Rightarrow> u8 list \<times> nat \<Rightarrow> (u8 list \<times> nat) option" where
  "poke_aux [] t = Some t"
| "poke_aux (a # as) t = do {
     t1 \<leftarrow> poke_u64 t (ax_tag a);
     t2 \<leftarrow> poke_u64 t1 (ax_val a);
     poke_aux as t2 }"

text \<open>\<open>table\<close> is the caller's buffer; the layout is returned with the buffer filled in.\<close>

definition build :: "nat \<Rightarrow> exec_args \<Rightarrow> auxv list \<Rightarrow> u8 list \<Rightarrow> u8 list \<Rightarrow> (stack_image \<times> u8 list) option" where
  "build stack_top args aux random table =
     (if stack_top AND 15 \<noteq> 0 then None
      else do {
        (strings_off, random_off, rsp_off) \<leftarrow> stack_offsets args (length aux);
        strings_va \<leftarrow> sub64 stack_top strings_off;
        random_va \<leftarrow> sub64 stack_top random_off;
        rsp \<leftarrow> sub64 stack_top rsp_off;
        table_len \<leftarrow> sub64 rsp_off strings_off;
        if length table \<noteq> table_len then None
        else do {
          let table = replicate (length table) 0;
          r \<leftarrow> sub64 rsp_off random_off;
          table \<leftarrow> put_range table r random;
          t \<leftarrow> poke_u64 (table, 0) (ea_argc args);
          t \<leftarrow> (if ea_argc args = 0 then poke_u64 t 0 else Some t);
          (t, n) \<leftarrow> poke_strings strings_va (ea_argc args) (ea_strings args) 0 t 0 0;
          total \<leftarrow> add64 (ea_argc args) (ea_envc args);
          if n \<noteq> total then None
          else do {
            t \<leftarrow> poke_u64 t 0;
            t \<leftarrow> poke_aux aux t;
            t \<leftarrow> poke_u64 t AT_RANDOM;
            t \<leftarrow> poke_u64 t random_va;
            t \<leftarrow> poke_u64 t AT_NULL;
            t \<leftarrow> poke_u64 t 0;
            Some (\<lparr>si_rsp = rsp, si_strings_va = strings_va\<rparr>, fst t) } } })"

section \<open>The argument block\<close>

text \<open>
  \<open>ea_block a args envs\<close>: between two strings, the block holds exactly the strings \<open>args\<close> and \<open>envs\<close>,
  each with its NUL, and has counted their bytes and pointers against the limit.
\<close>

definition cstrings :: "u8 list list \<Rightarrow> u8 list" where
  "cstrings ss = concat (map (\<lambda>s. s @ [0]) ss)"

definition ea_block :: "exec_args \<Rightarrow> u8 list list \<Rightarrow> u8 list list \<Rightarrow> bool" where
  "ea_block a args envs \<longleftrightarrow> ea_strings a = cstrings (args @ envs) \<and> ea_argc a = length args \<and> ea_envc a = length envs \<and>
     ea_used a = length (ea_strings a) + 8 * (length args + length envs) \<and> ea_used a \<le> ea_limit a \<and> ea_limit a < 2 ^ 64"

lemma cstrings_simps [simp]:
  "cstrings [] = []" "cstrings (s # ss) = s @ 0 # cstrings ss" "cstrings (ss @ ts) = cstrings ss @ cstrings ts"
  by (simp_all add: cstrings_def)

lemma ea_new_block: "limit < 2 ^ 64 \<Longrightarrow> ea_block (ea_new limit) [] []"
  by (simp add: ea_block_def ea_new_def)

lemma ea_charge_Inr: "ea_charge a n = Inr u \<longleftrightarrow> ea_used a + n < 2 ^ 64 \<and> ea_used a + n \<le> ea_limit a \<and> u = ea_used a + n"
  by (auto simp: ea_charge_def add64_def)

lemma ea_push_Inr:
  assumes "ea_push grow env s a = (Inr u, a')"
  shows "ea_strings a' = ea_strings a @ s @ [0]" "ea_used a' = ea_used a + 8 + length s + 1" "ea_used a' \<le> ea_limit a"
    "ea_limit a' = ea_limit a" "ea_used a' < 2 ^ 64" "length s < MAX_ARG_STRLEN"
    "ea_envc a' = (if env then sat_add64 (ea_envc a) 1 else ea_envc a)"
    "ea_argc a' = (if env then ea_argc a else sat_add64 (ea_argc a) 1)"
  using assms unfolding ea_push_def ea_begin_def ea_extend_def ea_end_def
  by (auto simp: ea_charge_Inr add64_eq_Some Let_def split: sum.splits option.splits if_splits)

lemma ea_push_block:
  assumes "ea_push grow env s a = (Inr u, a')" "ea_block a args envs" "env \<or> envs = []"
  shows "ea_block a' (if env then args else args @ [s]) (if env then envs @ [s] else envs)"
proof -
  note P = ea_push_Inr [OF assms(1)]
  have b: "ea_argc a < 2 ^ 62" "ea_envc a < 2 ^ 62"
    using P(2,5) assms(2) by (auto simp: ea_block_def)
  then have "sat_add64 (ea_argc a) 1 = ea_argc a + 1" "sat_add64 (ea_envc a) 1 = ea_envc a + 1"
    by (simp_all add: sat_add64_def)
  then show ?thesis using P assms(2,3) by (auto simp: ea_block_def)
qed

text \<open>Pushing a list of strings, and a whole block as \<open>execve\<close> builds it.\<close>

primrec push_strings :: "(nat \<Rightarrow> nat \<Rightarrow> bool) \<Rightarrow> bool \<Rightarrow> u8 list list \<Rightarrow> exec_args \<Rightarrow> arg_result" where
  "push_strings grow env [] a = (Inr (), a)"
| "push_strings grow env (s # ss) a =
     (case ea_push grow env s a of (Inl e, a) \<Rightarrow> (Inl e, a) | (Inr _, a) \<Rightarrow> push_strings grow env ss a)"

definition exec_block :: "(nat \<Rightarrow> nat \<Rightarrow> bool) \<Rightarrow> nat \<Rightarrow> u8 list list \<Rightarrow> u8 list list \<Rightarrow> arg_result" where
  "exec_block grow limit argv envp =
     (case push_strings grow False argv (ea_new limit) of
        (Inl e, a) \<Rightarrow> (Inl e, a)
      | (Inr _, a) \<Rightarrow> (case finish_argv grow a of
          (Inl e, a) \<Rightarrow> (Inl e, a)
        | (Inr _, a) \<Rightarrow> push_strings grow True envp a))"

lemma push_strings_args:
  "push_strings grow False ss a = (Inr u, a') \<Longrightarrow> ea_block a args [] \<Longrightarrow> ea_block a' (args @ ss) [] \<and> ea_limit a' = ea_limit a"
proof (induction ss arbitrary: a args)
  case (Cons s ss)
  obtain v a1 where p: "ea_push grow False s a = (Inr v, a1)" "push_strings grow False ss a1 = (Inr u, a')"
    using Cons.prems(1) by (auto split: prod.splits sum.splits)
  have "ea_block a1 (args @ [s]) []" using ea_push_block [OF p(1) Cons.prems(2)] by simp
  then show ?case using Cons.IH [OF p(2)] ea_push_Inr(4) [OF p(1)] by fastforce
qed simp

lemma push_strings_envs:
  "push_strings grow True ss a = (Inr u, a') \<Longrightarrow> ea_block a args envs \<Longrightarrow> ea_block a' args (envs @ ss) \<and> ea_limit a' = ea_limit a"
proof (induction ss arbitrary: a envs)
  case (Cons s ss)
  obtain v a1 where p: "ea_push grow True s a = (Inr v, a1)" "push_strings grow True ss a1 = (Inr u, a')"
    using Cons.prems(1) by (auto split: prod.splits sum.splits)
  have "ea_block a1 args (envs @ [s])" using ea_push_block [OF p(1) Cons.prems(2)] by simp
  then show ?case using Cons.IH [OF p(2)] ea_push_Inr(4) [OF p(1)] by fastforce
qed simp

lemma finish_argv_block:
  assumes "finish_argv grow a = (Inr u, a')" "ea_block a args []"
  shows "ea_block a' (if args = [] then [[]] else args) []" "ea_limit a' = ea_limit a"
proof -
  have argc: "ea_argc a = length args" using assms(2) by (simp add: ea_block_def)
  have "ea_block a' (if args = [] then [[]] else args) [] \<and> ea_limit a' = ea_limit a"
  proof (cases "args = []")
    case True
    then obtain v a1 where p: "ea_push grow False [] a = (Inr v, a1)" "a' = a1\<lparr>ea_argv_done := True\<rparr>"
      using assms(1) argc unfolding finish_argv_def push_arg_def by (auto split: prod.splits sum.splits)
    have "ea_block a1 [[]] []" using ea_push_block [OF p(1) assms(2)] True by simp
    then show ?thesis using p(2) True ea_push_Inr(4) [OF p(1)] by (auto simp: ea_block_def)
  next
    case False
    then show ?thesis using assms argc by (auto simp: finish_argv_def ea_block_def)
  qed
  then show "ea_block a' (if args = [] then [[]] else args) []" "ea_limit a' = ea_limit a" by simp_all
qed

lemma exec_block_spec:
  assumes "exec_block grow limit argv envp = (Inr u, a)" "limit < 2 ^ 64"
  shows "ea_block a (if argv = [] then [[]] else argv) envp" "ea_limit a = limit"
proof -
  obtain v a1 w a2 where p: "push_strings grow False argv (ea_new limit) = (Inr v, a1)" "finish_argv grow a1 = (Inr w, a2)"
    "push_strings grow True envp a2 = (Inr u, a)"
    using assms(1) unfolding exec_block_def by (auto split: prod.splits sum.splits)
  have b1: "ea_block a1 argv []" "ea_limit a1 = limit"
    using push_strings_args [OF p(1) ea_new_block [OF assms(2)]] by (simp_all add: ea_new_def)
  note b2 = finish_argv_block [OF p(2) b1(1)]
  show "ea_block a (if argv = [] then [[]] else argv) envp" "ea_limit a = limit"
    using push_strings_envs [OF p(3) b2(1)] b1(2) b2(2) by simp_all
qed

section \<open>Words in the table\<close>

definition enc :: "nat list \<Rightarrow> u8 list" where
  "enc ws = concat (map (to_le 8) ws)"

lemma enc_simps [simp]: "enc [] = []" "enc (w # ws) = to_le 8 w @ enc ws" "enc (ws @ vs) = enc ws @ enc vs"
  by (simp_all add: enc_def)

lemma length_enc [simp]: "length (enc ws) = 8 * length ws"
  by (induction ws) simp_all

lemma enc_word: "i < length ws \<Longrightarrow> take 8 (drop (8 * i) (enc ws @ rest)) = to_le 8 (ws ! i)"
proof (induction ws arbitrary: i)
  case (Cons w ws)
  then show ?case by (cases i) simp_all
qed simp

definition tab_at :: "u8 list \<Rightarrow> nat list \<Rightarrow> u8 list \<times> nat \<Rightarrow> bool" where
  "tab_at tab ws t \<longleftrightarrow> t = (enc ws @ drop (8 * length ws) tab, 8 * length ws) \<and> 8 * length ws \<le> length tab"

primrec pokes :: "u8 list \<times> nat \<Rightarrow> nat list \<Rightarrow> (u8 list \<times> nat) option" where
  "pokes t [] = Some t"
| "pokes t (v # vs) = do { t' \<leftarrow> poke_u64 t v; pokes t' vs }"

lemma pokes_append: "pokes t (vs @ us) = do { t' \<leftarrow> pokes t vs; pokes t' us }"
  by (induction vs arbitrary: t) (simp_all add: bind_assoc)

lemma poke_tab:
  assumes "tab_at tab ws t" "8 * (length ws + 1) \<le> length tab" "length tab < 2 ^ 64"
  shows "\<exists>t'. poke_u64 t v = Some t' \<and> tab_at tab (ws @ [v]) t'"
proof -
  have t: "t = (enc ws @ drop (8 * length ws) tab, 8 * length ws)" using assms(1) by (simp add: tab_at_def)
  have "put_range (enc ws @ drop (8 * length ws) tab) (8 * length ws) (to_le 8 v) =
    Some (enc (ws @ [v]) @ drop (8 * length (ws @ [v])) tab)"
    using assms(2) by (simp add: put_range_def add.commute)
  then show ?thesis unfolding t poke_u64_def using assms(2,3) by (simp add: tab_at_def)
qed

lemma pokes_tab:
  "tab_at tab ws t \<Longrightarrow> 8 * (length ws + length vs) \<le> length tab \<Longrightarrow> length tab < 2 ^ 64 \<Longrightarrow>
   \<exists>t'. pokes t vs = Some t' \<and> tab_at tab (ws @ vs) t'"
proof (induction vs arbitrary: ws t)
  case (Cons v vs)
  have "8 * (length ws + 1) \<le> length tab" using Cons.prems(2) by simp
  from poke_tab [OF Cons.prems(1) this Cons.prems(3), of v]
  obtain t1 where t1: "poke_u64 t v = Some t1" "tab_at tab (ws @ [v]) t1" by blast
  then show ?case using Cons.IH [OF t1(2)] Cons.prems(2,3) by simp
qed simp

text \<open>The pointers the loop over the strings stores, with the NULL after the last of \<open>argv\<close>.\<close>

fun ptrs :: "nat \<Rightarrow> u8 list list \<Rightarrow> nat list" where
  "ptrs va [] = []"
| "ptrs va (s # ss) = va # ptrs (va + length s + 1) ss"

fun str_words :: "nat \<Rightarrow> nat \<Rightarrow> nat \<Rightarrow> u8 list list \<Rightarrow> nat list" where
  "str_words va argc n [] = []"
| "str_words va argc n (s # ss) = va # (if n + 1 = argc then [0] else []) @ str_words (va + length s + 1) argc (n + 1) ss"

lemma length_ptrs [simp]: "length (ptrs va ss) = length ss"
  by (induction ss arbitrary: va) simp_all

lemma nth_ptrs: "i < length ss \<Longrightarrow> ptrs va ss ! i = va + length (cstrings (take i ss))"
proof (induction ss arbitrary: va i)
  case (Cons s ss)
  then show ?case by (cases i) simp_all
qed simp

lemma ptrs_bound: "p \<in> set (ptrs va ss) \<Longrightarrow> p \<le> va + length (cstrings ss)"
  by (induction ss arbitrary: va) fastforce+

lemma ptrs_append: "ptrs va (ss @ us) = ptrs va ss @ ptrs (va + length (cstrings ss)) us"
  by (induction ss arbitrary: va) (simp_all add: algebra_simps)

lemma str_words_past: "argc \<le> n \<Longrightarrow> str_words va argc n ss = ptrs va ss"
  by (induction ss arbitrary: va n) simp_all

lemma str_words_split:
  "args \<noteq> [] \<Longrightarrow> n + length args = argc \<Longrightarrow>
   str_words va argc n (args @ envs) = ptrs va args @ 0 # ptrs (va + length (cstrings args)) envs"
proof (induction args arbitrary: va n)
  case (Cons s args)
  then show ?case by (cases "args = []") (auto simp: str_words_past algebra_simps)
qed simp

lemma poke_strings_skip:
  "0 \<notin> set s \<Longrightarrow> poke_strings va argc (s @ bs) i t start n = poke_strings va argc bs (i + length s) t start n"
  by (induction s arbitrary: i) auto

lemma poke_strings_words:
  "\<forall>s \<in> set ss. 0 \<notin> set s \<Longrightarrow> va + i + length (cstrings ss) < 2 ^ 64 \<Longrightarrow> n + length ss < 2 ^ 64 \<Longrightarrow>
   poke_strings va argc (cstrings ss) i t i n = do { t' \<leftarrow> pokes t (str_words (va + i) argc n ss); Some (t', n + length ss) }"
proof (induction ss arbitrary: i t n)
  case (Cons s ss)
  have IH: "poke_strings va argc (cstrings ss) (i + length s + 1) t' (i + length s + 1) (n + 1) =
      do { t' \<leftarrow> pokes t' (str_words (va + (i + length s + 1)) argc (n + 1) ss); Some (t', n + 1 + length ss) }" for t'
    using Cons.prems by (intro Cons.IH) simp_all
  have "poke_strings va argc (cstrings (s # ss)) i t i n = poke_strings va argc (0 # cstrings ss) (i + length s) t i n"
    using Cons.prems(1) by (simp add: poke_strings_skip)
  also have "\<dots> = do { t' \<leftarrow> pokes t (str_words (va + i) argc n (s # ss)); Some (t', n + length (s # ss)) }"
    using Cons.prems(2,3) IH by (auto simp: pokes_append bind_assoc add.assoc)
  finally show ?case .
qed simp

lemma poke_aux_words: "poke_aux aux t = pokes t (concat (map (\<lambda>a. [ax_tag a, ax_val a]) aux))"
  by (induction aux arbitrary: t) simp_all

section \<open>The stack\<close>

lemma align16_Some: "align16 x = Some y \<longleftrightarrow> x + 15 < 2 ^ 64 \<and> y = (x + 15) div 16 * 16"
  using and_not64_mask [of "x + 15" 4] by (auto simp: align16_def rust_Some bind_eq_Some_conv)

lemma stack_offsets_Some:
  assumes "stack_offsets a naux = Some (so, ro, rs)"
  shows "so = length (ea_strings a) + 8" "so + 16 \<le> ro" "ro mod 16 = 0" "rs mod 16 = 0"
    "ro + 8 * (ea_argc a + ea_envc a + 3 + 2 * (naux + 2)) \<le> rs" "rs < 2 ^ 64"
proof -
  let ?w = "ea_argc a + ea_envc a + 3 + 2 * (naux + 2)"
  have f: "so = length (ea_strings a) + 8" "so + 16 + 15 < 2 ^ 64" "ro = (so + 16 + 15) div 16 * 16"
    "ro + 8 * ?w + 15 < 2 ^ 64" "rs = (ro + 8 * ?w + 15) div 16 * 16"
    using assms by (auto simp: stack_offsets_def table_words_def rust_Some mul64_eq_Some align16_Some bind_eq_Some_conv algebra_simps)
  show "so = length (ea_strings a) + 8" by (fact f(1))
  show "so + 16 \<le> ro" using round_up_bounds(1) [of 16 "so + 16"] f(3) by simp
  show "ro mod 16 = 0" "rs mod 16 = 0" using f(3,5) by simp_all
  show "ro + 8 * ?w \<le> rs" using round_up_bounds(1) [of 16 "ro + 8 * ?w"] f(5) by simp
  have "rs \<le> ro + 8 * ?w + 15" unfolding f(5) by (rule div_times_less_eq_dividend)
  then show "rs < 2 ^ 64" using f(4) by linarith
qed

definition stack_words :: "u8 list list \<Rightarrow> u8 list list \<Rightarrow> auxv list \<Rightarrow> nat \<Rightarrow> nat \<Rightarrow> nat list" where
  "stack_words args envs aux strings_va random_va =
     length args # ptrs strings_va args @ 0 # ptrs (strings_va + length (cstrings args)) envs @ 0 #
     concat (map (\<lambda>a. [ax_tag a, ax_val a]) aux) @ [AT_RANDOM, random_va, AT_NULL, 0]"

lemma length_aux_words: "length (concat (map (\<lambda>a. [ax_tag a, ax_val a]) aux)) = 2 * length aux"
  by (induction aux) simp_all

lemma length_stack_words:
  "length (stack_words args envs aux sva rva) = length args + length envs + 3 + 2 * (length aux + 2)"
  by (simp add: stack_words_def length_aux_words)

lemma build_spec:
  assumes "ea_block a args envs" "\<forall>s \<in> set (args @ envs). 0 \<notin> set s" "length random = 16"
    "stack_top mod 16 = 0" "stack_top < 2 ^ 64" "stack_offsets a (length aux) = Some (so, ro, rs)" "rs \<le> stack_top"
    "length table = rs - so"
  shows "build stack_top a aux random table = Some (\<lparr>si_rsp = stack_top - rs, si_strings_va = stack_top - so\<rparr>,
    enc (stack_words args envs aux (stack_top - so) (stack_top - ro)) @
      drop (8 * length (stack_words args envs aux (stack_top - so) (stack_top - ro)))
       (replicate (rs - ro) 0 @ random @ replicate (ro - so - 16) 0))"
proof -
  let ?sva = "stack_top - so" and ?rva = "stack_top - ro"
  let ?W = "stack_words args envs aux ?sva ?rva"
  let ?tab = "replicate (rs - ro) (0 :: u8) @ random @ replicate (ro - so - 16) 0"
  note O = stack_offsets_Some [OF assms(6)]
  have B: "ea_strings a = cstrings (args @ envs)" "ea_argc a = length args" "ea_envc a = length envs"
    using assms(1) by (simp_all add: ea_block_def)
  have le: "ro \<le> rs" "so \<le> rs" "so \<le> ro" using O(2,5) by simp_all
  have lt: "length ?tab = rs - so" using O(2) le assms(3) by simp
  have put: "put_range (replicate (rs - so) (0 :: u8)) (rs - ro) random = Some ?tab"
  proof -
    have "rs - ro + 16 \<le> rs - so" "rs - so - (rs - ro + 16) = ro - so - 16" "min (rs - so) (rs - ro) = rs - ro"
      using O(2) le by linarith+
    then show ?thesis using assms(3) by (simp add: put_range_def)
  qed
  have top: "stack_top AND 15 = 0"
    using assms(4) take_bit_eq_mask [of 4 stack_top] by (simp add: take_bit_eq_mod mask_eq_exp_minus_1)
  have fit: "8 * length ?W \<le> length ?tab" "length ?tab < 2 ^ 64"
    using O(5,6) B(2,3) le lt by (simp_all add: length_stack_words)
  obtain t where t: "pokes (?tab, 0) ?W = Some t" "tab_at ?tab ?W t"
    using pokes_tab [of ?tab "[]" "(?tab, 0)" ?W] fit by (auto simp: tab_at_def)
  have n: "length args + length envs < 2 ^ 64" using O(5,6) B(2,3) by simp
  have sv: "?sva + length (cstrings (args @ envs)) < 2 ^ 64" using O(1) B(1) assms(5,7) le by simp
  have ps: "poke_strings ?sva (length args) (cstrings (args @ envs)) 0 t' 0 0 =
      do { t' \<leftarrow> pokes t' (str_words ?sva (length args) 0 (args @ envs)); Some (t', length args + length envs) }" for t'
    using poke_strings_words [OF assms(2), of ?sva 0 0 "length args" t'] sv n by simp
  have sw: "(if length args = 0 then [0] else []) @ str_words ?sva (length args) 0 (args @ envs) =
      ptrs ?sva args @ 0 # ptrs (?sva + length (cstrings args)) envs"
    using str_words_split [of args 0 "length args" ?sva envs] by (cases "args = []") (simp_all add: str_words_past)
  have W: "?W = length args # ((if length args = 0 then [0] else []) @ str_words ?sva (length args) 0 (args @ envs)) @ 0 #
      concat (map (\<lambda>a. [ax_tag a, ax_val a]) aux) @ [AT_RANDOM, ?rva, AT_NULL, 0]"
    unfolding sw stack_words_def by simp
  have ch: "do {
          t \<leftarrow> poke_u64 (?tab, 0) (length args);
          t \<leftarrow> (if length args = 0 then poke_u64 t 0 else Some t);
          t \<leftarrow> pokes t (str_words ?sva (length args) 0 (args @ envs));
          t \<leftarrow> poke_u64 t 0;
          t \<leftarrow> pokes t (concat (map (\<lambda>a. [ax_tag a, ax_val a]) aux));
          t \<leftarrow> poke_u64 t AT_RANDOM;
          t \<leftarrow> poke_u64 t ?rva;
          t \<leftarrow> poke_u64 t AT_NULL;
          poke_u64 t 0 } = Some t"
    using t(1) unfolding W by (cases "args = []") (simp_all add: pokes_append bind_assoc)
  have le': "so \<le> stack_top" "ro \<le> stack_top" using le assms(7) by simp_all
  have "build stack_top a aux random table = do {
          t \<leftarrow> poke_u64 (?tab, 0) (length args);
          t \<leftarrow> (if length args = 0 then poke_u64 t 0 else Some t);
          t \<leftarrow> pokes t (str_words ?sva (length args) 0 (args @ envs));
          t \<leftarrow> poke_u64 t 0;
          t \<leftarrow> pokes t (concat (map (\<lambda>a. [ax_tag a, ax_val a]) aux));
          t \<leftarrow> poke_u64 t AT_RANDOM;
          t \<leftarrow> poke_u64 t ?rva;
          t \<leftarrow> poke_u64 t AT_NULL;
          poke_u64 t 0 } \<bind> (\<lambda>t. Some (\<lparr>si_rsp = stack_top - rs, si_strings_va = ?sva\<rparr>, fst t))"
    unfolding build_def assms(6) B(2,3) poke_aux_words B(1) Let_def
    using top assms(7,8) le le' put ps n by (simp add: bind_assoc)
  also have "\<dots> = Some (\<lparr>si_rsp = stack_top - rs, si_strings_va = ?sva\<rparr>, fst t)" unfolding ch by simp
  finally show ?thesis using t(2) by (simp add: tab_at_def)
qed

section \<open>Reading the stack back\<close>

text \<open>The word at an index from RSP, and the string at an address, in the bytes from RSP up.\<close>

definition stack_word :: "u8 list \<Rightarrow> nat \<Rightarrow> nat" where
  "stack_word mem i = le_nat (take 8 (drop (8 * i) mem))"

definition stack_str :: "u8 list \<Rightarrow> nat \<Rightarrow> nat \<Rightarrow> u8 list" where
  "stack_str mem rsp va = takeWhile (\<lambda>b. b \<noteq> 0) (drop (va - rsp) mem)"

lemma stack_word_enc:
  assumes "i < length ws" "ws ! i < 2 ^ 64"
  shows "stack_word (enc ws @ rest) i = ws ! i"
  unfolding stack_word_def enc_word [OF assms(1)] using le_nat_to_le_id [of "ws ! i" 8] assms(2) by simp

lemma stack_str_cstrings:
  assumes "i < length ss" "\<forall>s \<in> set ss. 0 \<notin> set s" "va = rsp + length tab + length (cstrings (take i ss))"
  shows "stack_str (tab @ cstrings ss @ rest) rsp va = ss ! i"
proof -
  have "ss = take i ss @ ss ! i # drop (Suc i) ss" using assms(1) by (rule id_take_nth_drop)
  then have c: "cstrings ss = cstrings (take i ss) @ ss ! i @ 0 # cstrings (drop (Suc i) ss)"
    by (metis cstrings_simps(2,3))
  have "\<forall>b \<in> set (ss ! i). b \<noteq> 0" using assms(1,2) nth_mem by metis
  then show ?thesis unfolding stack_str_def assms(3) by (subst c) (simp add: takeWhile_append2)
qed

text \<open>The values of the table's words are those of a program's stack.\<close>

lemma nth_stack_words:
  assumes "W = stack_words args envs aux sva rva"
  shows "W ! 0 = length args"
    "i < length args \<Longrightarrow> W ! (1 + i) = sva + length (cstrings (take i args))"
    "W ! (1 + length args) = 0"
    "j < length envs \<Longrightarrow> W ! (2 + length args + j) = sva + length (cstrings args) + length (cstrings (take j envs))"
    "W ! (2 + length args + length envs) = 0"
    "k < length aux \<Longrightarrow> W ! (3 + length args + length envs + 2 * k) = ax_tag (aux ! k) \<and>
       W ! (4 + length args + length envs + 2 * k) = ax_val (aux ! k)"
    "W ! (3 + length args + length envs + 2 * length aux) = AT_RANDOM"
    "W ! (4 + length args + length envs + 2 * length aux) = rva"
    "W ! (5 + length args + length envs + 2 * length aux) = AT_NULL"
proof -
  let ?A = "concat (map (\<lambda>a. [ax_tag a, ax_val a]) aux)"
  have aux: "k < length aux \<Longrightarrow> ?A ! (2 * k) = ax_tag (aux ! k) \<and> ?A ! (2 * k + 1) = ax_val (aux ! k)" for k
  proof (induction aux arbitrary: k)
    case (Cons a aux)
    then show ?case by (cases k) simp_all
  qed simp
  show "k < length aux \<Longrightarrow> W ! (3 + length args + length envs + 2 * k) = ax_tag (aux ! k) \<and>
       W ! (4 + length args + length envs + 2 * k) = ax_val (aux ! k)"
    using aux [of k] unfolding assms stack_words_def
    by (simp add: nth_append nth_Cons' length_aux_words)
qed (auto simp: assms stack_words_def nth_append nth_ptrs length_aux_words nth_Cons')

lemma stack_words_bound:
  assumes "w \<in> set (stack_words args envs aux sva rva)" "sva + length (cstrings (args @ envs)) < 2 ^ 64" "rva < 2 ^ 64"
    "length args < 2 ^ 64" "\<forall>x \<in> set aux. ax_tag x < 2 ^ 64 \<and> ax_val x < 2 ^ 64"
  shows "w < 2 ^ 64"
proof -
  have "w < 2 ^ 64" if "w \<in> set (ptrs sva args)" using ptrs_bound [OF that] assms(2) by simp
  moreover have "w < 2 ^ 64" if "w \<in> set (ptrs (sva + length (cstrings args)) envs)" using ptrs_bound [OF that] assms(2) by simp
  moreover have "AT_RANDOM < 2 ^ 64" "AT_NULL < 2 ^ 64" by (simp_all add: AT_RANDOM_def AT_NULL_def)
  ultimately show ?thesis using assms(1,3,4,5) unfolding stack_words_def by auto
qed

section \<open>Bounds\<close>

lemma push_strings_short:
  "push_strings grow env ss a = (Inr u, a') \<Longrightarrow> s \<in> set ss \<Longrightarrow> length s < MAX_ARG_STRLEN"
proof (induction ss arbitrary: a)
  case (Cons r ss)
  obtain v a1 where p: "ea_push grow env r a = (Inr v, a1)" "push_strings grow env ss a1 = (Inr u, a')"
    using Cons.prems(1) by (auto split: prod.splits sum.splits)
  show ?case using ea_push_Inr(6) [OF p(1)] Cons.IH [OF p(2)] Cons.prems(2) by auto
qed simp

lemma exec_block_short:
  assumes "exec_block grow limit argv envp = (Inr u, a)" "s \<in> set (argv @ envp)"
  shows "length s < MAX_ARG_STRLEN"
proof -
  obtain v a1 w a2 where p: "push_strings grow False argv (ea_new limit) = (Inr v, a1)" "push_strings grow True envp a2 = (Inr w, a)"
    using assms(1) unfolding exec_block_def by (auto split: prod.splits sum.splits)
  then show ?thesis using push_strings_short [OF p(1)] push_strings_short [OF p(2)] assms(2) by auto
qed

lemma arg_space_limit_bound: "arg_space_limit r \<le> ARG_SPACE_MAX" "ARG_SPACE_MAX = 6291456"
  by (simp_all add: arg_space_limit_def ARG_SPACE_MIN_def ARG_SPACE_MAX_def push_bit_eq_mult Let_def)

lemma stack_len_bound:
  assumes "ea_block a args envs" "ea_limit a < 2 ^ 32" "naux < 2 ^ 32"
  shows "\<exists>n. initial_stack_len a naux = Some n \<and> n \<le> ea_limit a + 16 * naux + 110"
proof -
  let ?S = "length (ea_strings a)" and ?w = "ea_argc a + ea_envc a + 3 + 2 * (naux + 2)"
  define ro where "ro = (?S + 24 + 15) div 16 * 16"
  define rs where "rs = (ro + 8 * ?w + 15) div 16 * 16"
  have u: "?S + 8 * (ea_argc a + ea_envc a) \<le> ea_limit a" using assms(1) by (auto simp: ea_block_def)
  have ro: "ro \<le> ?S + 39" unfolding ro_def using div_times_less_eq_dividend [of "?S + 24 + 15" 16] by simp
  have rs: "rs \<le> ro + 8 * ?w + 15" unfolding rs_def by (rule div_times_less_eq_dividend)
  have b: "ro + 8 * ?w + 15 < 2 ^ 64" "?S + 24 + 15 < 2 ^ 64" using u ro assms(2,3) by simp_all
  have w: "table_words a naux = Some ?w"
    using b(1) by (simp add: table_words_def add64_def mul64_def)
  have "align16 (?S + 24) = Some ro" "align16 (ro + 8 * ?w) = Some rs"
    using b by (simp_all only: align16_Some ro_def rs_def)
  then have "stack_offsets a naux = Some (?S + 8, ro, rs)"
    unfolding stack_offsets_def w using b by (simp add: add64_def mul64_def algebra_simps)
  then show ?thesis using rs ro u by (simp add: initial_stack_len_def)
qed

end
