(* ===== verification/Elf_Props.thy ===== *)
theory Elf_Props
  imports Elf_Plan Exec_Stack
begin

text \<open>
  The properties of program loading: what an accepted ELF file satisfies, the permissions the load plan gives, the
  placement of the thread-local block, and the initial stack read back.
\<close>

text \<open>
  A file of one \<open>PT_LOAD\<close>, of two pages at \<open>0x400000\<close> that hold the whole file, and a \<open>PT_TLS\<close> of 64 bytes.
\<close>

definition demo_elf :: "u8 list" where
  "demo_elf =
     [0x7F, 0x45, 0x4C, 0x46, 2, 1, 1, 0, 0, 0, 0, 0, 0, 0, 0, 0] @
     [2, 0, 62, 0, 1, 0, 0, 0] @ [0, 0x10, 0x40, 0, 0, 0, 0, 0] @ [64, 0, 0, 0, 0, 0, 0, 0] @ [0, 0, 0, 0, 0, 0, 0, 0] @
     [0, 0, 0, 0] @ [64, 0, 56, 0, 2, 0] @ [0, 0, 0, 0, 0, 0] @
     [1, 0, 0, 0, 5, 0, 0, 0] @ [0, 0, 0, 0, 0, 0, 0, 0] @ [0, 0, 0x40, 0, 0, 0, 0, 0] @ [0, 0, 0, 0, 0, 0, 0, 0] @
     [176, 0, 0, 0, 0, 0, 0, 0] @ [0, 0x20, 0, 0, 0, 0, 0, 0] @ [0, 0, 0, 0, 0, 0, 0, 0] @
     [7, 0, 0, 0, 4, 0, 0, 0] @ [0, 0, 0, 0, 0, 0, 0, 0] @ [0, 0, 0x40, 0, 0, 0, 0, 0] @ [0, 0, 0, 0, 0, 0, 0, 0] @
     [16, 0, 0, 0, 0, 0, 0, 0] @ [64, 0, 0, 0, 0, 0, 0, 0] @ [0, 0, 0, 0, 0, 0, 0, 0]"

definition demo_seg :: load_seg where
  "demo_seg = \<lparr>ls_vaddr = 0x400000, ls_memsz = 0x2000, ls_offset = 0, ls_filesz = 176, ls_write = False, ls_exec = True\<rparr>"

definition demo_tls :: tls_seg where
  "demo_tls = \<lparr>ts_vaddr = 0x400000, ts_offset = 0, ts_filesz = 16, ts_memsz = 64, ts_align = 1\<rparr>"

definition demo_image :: image where
  "demo_image = \<lparr>im_file_len = 176, im_entry = 0x401000, im_loads = demo_seg # replicate 7 NO_SEG, im_nload = 1,
     im_stack_exec = False, im_tls = Some demo_tls, im_phoff = 64, im_phentsize = 56, im_phnum = 2, im_phdr_va = Some 0x400040\<rparr>"

definition demo_eh :: ehdr where
  "demo_eh = \<lparr>eh_entry = 0x401000, eh_phoff = 64, eh_phnum = 2\<rparr>"

lemmas elf_consts = ELFMAG0_def ELFCLASS64_def ELFDATA2LSB_def EV_CURRENT_def ET_EXEC_def EM_X86_64_def PT_LOAD_def
  PT_INTERP_def PT_PHDR_def PT_TLS_def PT_GNU_STACK_def PF_X_def PF_W_def EI_NIDENT_def EHDR_SIZE_def PHDR_SIZE_def
  MAX_LOADS_def EXEC_IMAGE_MAX_def

lemmas le_defs = bytes_at_def le16_def le32_def le64_def get_range_def add64_def

lemma demo_ehdr: "parse_ehdr demo_elf 176 = Inr demo_eh"
  by (simp add: parse_ehdr_def demo_elf_def elf_consts le_defs ph_end_def mul64_def demo_eh_def)

lemma demo_phdr1: "read_phdr (take 56 (drop 64 demo_elf)) =
    Inr \<lparr>p_type = 1, p_flags = 5, p_offset = 0, p_vaddr = 0x400000, p_filesz = 176, p_memsz = 0x2000, p_align = 0\<rparr>"
  by (simp add: read_phdr_def demo_elf_def le_defs)

lemma demo_phdr2: "read_phdr (take 56 (drop 120 demo_elf)) =
    Inr \<lparr>p_type = 7, p_flags = 4, p_offset = 0, p_vaddr = 0x400000, p_filesz = 16, p_memsz = 64, p_align = 0\<rparr>"
  by (simp add: read_phdr_def demo_elf_def le_defs)

lemma demo_length: "length demo_elf = 176"
  by (simp add: demo_elf_def)

definition demo_builder :: "nat \<Rightarrow> tls_seg option \<Rightarrow> builder" where
  "demo_builder n t = \<lparr>bd_eh = demo_eh, bd_file_len = 176, bd_pushed = n,
     bd_loads = demo_seg # replicate 7 NO_SEG, bd_nload = 1, bd_stack_exec = False, bd_saw_gnu_stack = False,
     bd_tls = t, bd_phdr_va = None\<rparr>"

lemma demo_push1: "bd_push (bd_new demo_eh 176) (take 56 (drop 64 demo_elf)) = Inr (demo_builder 1 None)"
proof -
  have "check_user_va 0x400000 0x2000 = Inr ()" by (simp add: check_user_va_iff va_consts)
  moreover have "replicate 8 NO_SEG = NO_SEG # replicate 7 NO_SEG" by (simp add: numeral_eq_Suc)
  ultimately show ?thesis
    using demo_phdr1 unfolding bd_push_def
    by (simp add: demo_length bd_new_def elf_consts push_load_def check_file_bytes_def add64_def demo_builder_def demo_seg_def demo_eh_def)
qed

lemma demo_push2: "bd_push (demo_builder 1 None) (take 56 (drop 120 demo_elf)) = Inr (demo_builder 2 (Some demo_tls))"
  using demo_phdr2 unfolding bd_push_def
  by (simp add: demo_length elf_consts push_tls_def check_file_bytes_def add64_def demo_builder_def demo_tls_def demo_eh_def)

lemma demo_tls_len: "tls_block_len demo_tls = Some 64" "tls_map_len demo_tls = Some 4096"
proof -
  show "tls_block_len demo_tls = Some 64" by (simp add: tls_block_len_def demo_tls_def)
  moreover have "and_not64 8191 4095 = 4096" using and_not64_page [of 8191] by (simp add: PAGE_SIZE_4K_eq)
  ultimately show "tls_map_len demo_tls = Some 4096" by (simp add: tls_map_len_def add64_def PAGE_SIZE_4K_eq)
qed

lemma demo_parse: "parse demo_elf = Inr demo_image"
proof -
  have c: "as_chunks PHDR_SIZE (take 112 (drop 64 demo_elf)) = [take 56 (drop 64 demo_elf), take 56 (drop 120 demo_elf)]"
    by (simp add: as_chunks_def PHDR_SIZE_def demo_length upt_rec drop_take)
  have r: "get_range demo_elf 64 176 = Some (take 112 (drop 64 demo_elf))" by (simp add: get_range_def demo_length)
  have e: "ph_end demo_eh = Some 176" by (simp add: ph_end_Some PHDR_SIZE_def demo_eh_def)
  have u: "check_user_va 0x401000 1 = Inr ()" "check_user_va 0x400040 112 = Inr ()"
    by (simp_all add: check_user_va_iff va_consts)
  have "page_down 0x400000 = 0x400000" by (simp add: page_down_eq)
  moreover have "and_not64 4206591 4095 = 4202496" using and_not64_page [of 4206591] by (simp add: PAGE_SIZE_4K_eq)
  ultimately have t: "image_bytes [demo_seg] (Some demo_tls) = Inr 0x3000"
    by (simp add: image_bytes_def demo_seg_def add64_def sub64_def PAGE_SIZE_4K_eq EXEC_IMAGE_MAX_def push_bit_eq_mult demo_tls_len)
  have f: "bd_finish (demo_builder 2 (Some demo_tls)) = Inr demo_image"
    unfolding bd_finish_def demo_builder_def
    using t u e by (simp add: get_range_def phdr_in_def demo_seg_def sub64_def add64_def PHDR_SIZE_def sat_mul64_def demo_image_def demo_eh_def)
  show ?thesis
    unfolding parse_def demo_length demo_ehdr using e r c demo_push1 demo_push2 f by (simp add: demo_eh_def)
qed

text \<open>
  C10: An accepted image is safe to map. It has between one and eight \<open>PT_LOAD\<close>s, each in the user half above the null
  guard with its file bytes inside the file; no two of them share an address; the thread-local block's file bytes are in the
  file, its alignment is a power of two and its size does not overflow; all the pages to be mapped are within the image limit; and
  the entry point, the program header table and its address in memory are in bounds.
\<close>

theorem parse_sound:
  assumes "parse data = Inr img"
  shows "im_file_len img = length data \<and> image_ok img"
  using parse_ok [OF assms] by simp

theorem parse_sound_witness:
  "\<exists>img. parse demo_elf = Inr img \<and> image_ok img \<and> image_loads img = [demo_seg]"
proof -
  have "image_loads demo_image = [demo_seg]" by (simp add: image_loads_def demo_image_def get_range_def)
  then show ?thesis using parse_sound [OF demo_parse] demo_parse by blast
qed

text \<open>
  C11: The load plan of an accepted image agrees with the reference on every address: an address is in a run exactly when the
  pages of some non-empty segment hold it, and it has the permissions of the last such segment in header order. The runs
  are whole pages in the user half, disjoint and in address order, and every byte a segment copies from the file falls in one.
\<close>

theorem load_plan_equiv:
  assumes "parse data = Inr img"
  shows "run_perms (load_plan img) p = seg_perms (image_loads img) p \<and> runs_sorted (load_plan img) \<and>
    (\<forall>r \<in> set (load_plan img). run_ok r) \<and>
    (\<forall>s \<in> set (image_loads img). ls_vaddr s \<le> p \<and> p < ls_vaddr s + ls_filesz s \<longrightarrow> run_perms (load_plan img) p \<noteq> None)"
proof -
  have ok: "image_ok img" using parse_ok [OF assms] by simp
  then have seg: "\<forall>s \<in> set (image_loads img). seg_ok (im_file_len img) s" and n: "length (image_loads img) \<le> MAX_LOADS"
    unfolding image_ok_def by blast+
  then have u: "user_segs (image_loads img)" by (force simp: user_segs_def seg_ok_def)
  note P = load_plan_spec [OF u n]
  have "run_perms (load_plan img) p \<noteq> None"
    if "s \<in> set (image_loads img)" "ls_vaddr s \<le> p" "p < ls_vaddr s + ls_filesz s" for s
    using seg_perms_covers [OF u that(1,2)] that(1,3) seg P(3) by (fastforce simp: seg_ok_def)
  then show ?thesis using P by blast
qed

theorem load_plan_equiv_witness:
  "\<exists>img. parse demo_elf = Inr img \<and> run_perms (load_plan img) 0x400078 = Some (False, True)"
proof -
  have l: "image_loads demo_image = [demo_seg]" by (simp add: image_loads_def demo_image_def get_range_def)
  have pg: "seg_pages demo_seg = (0x400000, 0x402000)"
    by (simp add: seg_pages_def demo_seg_def page_down_eq page_up_eq sat_add64_def)
  have "seg_perms [demo_seg] 0x400078 = Some (False, True)" by (simp add: seg_perms_def pg) (simp add: demo_seg_def)
  then show ?thesis using load_plan_equiv [OF demo_parse, of "0x400078"] demo_parse unfolding l by auto
qed

text \<open>
  C13: For the thread-local segment of an accepted image and any base with the alignment the loader asks for, the thread
  pointer exists: it is aligned for the block and for the self pointer, the block ends at it and starts at or above the base, and the
  self pointer's eight bytes end within the mapping.
\<close>

theorem tls_thread_pointer_fits:
  assumes "parse data = Inr img" "im_tls img = Some t" "base mod tls_map_align t = 0" "base + the (tls_map_len t) < 2 ^ 64"
  shows "\<exists>tp start. tls_thread_pointer t base = Some (tp, start) \<and> base \<le> start \<and> start + ts_memsz t \<le> tp \<and>
    tp + 8 \<le> base + the (tls_map_len t) \<and> tp mod max (ts_align t) 8 = 0 \<and> start mod ts_align t = 0"
proof -
  have "tls_ok (im_file_len img) t \<and> tls_map_len t \<noteq> None"
    using parse_ok [OF assms(1)] assms(2) unfolding image_ok_def by blast
  then obtain k m where k: "k < 64" "ts_align t = 2 ^ k" "ts_memsz t < 2 ^ 64" "tls_map_len t = Some m"
    by (auto simp: tls_ok_def)
  obtain b where b: "tls_block_len t = Some b" using tls_map_len_Some [OF k(4)] by blast
  obtain tp where tp: "tls_thread_pointer t base = Some (tp, tp - b)" "base + b \<le> tp" "tp + 8 \<le> base + m"
    "tp mod max (ts_align t) 8 = 0"
    using tls_thread_pointer_spec [OF k(2,1,3,4) b assms(3)] assms(4) k(4) by auto
  have "ts_align t dvd max (ts_align t) 8"
  proof (cases "k \<le> 3")
    case True
    then have "(2 :: nat) ^ k dvd 2 ^ 3" by (rule le_imp_power_dvd)
    then show ?thesis by (simp add: max_def k(2))
  next
    case False
    then have "(2 :: nat) ^ 3 \<le> 2 ^ k" by (intro power_increasing) simp_all
    then show ?thesis by (simp add: max_def k(2))
  qed
  then have "ts_align t dvd tp" using tp(4) dvd_trans [of "ts_align t" "max (ts_align t) 8" tp] by (simp add: mod_eq_0_iff_dvd)
  moreover have "ts_align t dvd b" "ts_memsz t \<le> b"
    using tls_block_len_Some [OF k(2,1) b k(3)] by (simp_all add: mod_eq_0_iff_dvd)
  ultimately have "(tp - b) mod ts_align t = 0" by (simp add: mod_eq_0_iff_dvd)
  then show ?thesis using tp \<open>ts_memsz t \<le> b\<close> k(4) by (intro exI [of _ tp] exI [of _ "tp - b"]) auto
qed

theorem tls_thread_pointer_fits_witness:
  "\<exists>img t tp start. parse demo_elf = Inr img \<and> im_tls img = Some t \<and> tls_thread_pointer t 0x10000 = Some (tp, start) \<and>
     0x10000 \<le> start \<and> start + 64 \<le> tp \<and> tp + 8 \<le> 0x11000"
proof -
  have "im_tls demo_image = Some demo_tls" "0x10000 mod tls_map_align demo_tls = 0" "ts_memsz demo_tls = 64"
    by (simp_all add: demo_image_def tls_map_align_def demo_tls_def PAGE_SIZE_4K_eq)
  then show ?thesis
    using tls_thread_pointer_fits [OF demo_parse, of demo_tls "0x10000"] demo_parse demo_tls_len(2) by fastforce
qed

text \<open>
  C12: The initial stack reads back. When the argument strings hold no NUL, whatever block \<open>execve\<close> builds from them
  is laid out so that the bytes from RSP to the top of the stack hold \<open>argc\<close>, pointers to the \<open>argv\<close>
  strings (a single empty one when there are none) and a NULL, pointers to the \<open>envp\<close> strings and a NULL, the auxiliary
  vector, and the pointer to the random bytes; each pointer leads to its string. RSP is 16-aligned.
\<close>

theorem exec_stack_roundtrip:
  assumes "exec_block grow limit argv envp = (Inr (), a)" "limit < 2 ^ 64" "\<forall>s \<in> set (argv @ envp). 0 \<notin> set s"
    "length random = 16" "stack_top mod 16 = 0" "stack_top < 2 ^ 64"
    "initial_stack_len a (length aux) = Some n" "n \<le> stack_top" "length table + 8 + length (ea_strings a) = n"
    "\<forall>x \<in> set aux. ax_tag x < 2 ^ 64 \<and> ax_val x < 2 ^ 64" "args = (if argv = [] then [[]] else argv)"
  shows "\<exists>rsp sva table'. build stack_top a aux random table = Some (\<lparr>si_rsp = rsp, si_strings_va = sva\<rparr>, table') \<and>
    rsp mod 16 = 0 \<and> rsp + n = stack_top \<and> sva = rsp + length table' \<and>
    (let mem = table' @ ea_strings a @ replicate 8 0 in
      length mem = n \<and> stack_word mem 0 = length args \<and>
      (\<forall>i < length args. stack_str mem rsp (stack_word mem (1 + i)) = args ! i) \<and>
      stack_word mem (1 + length args) = 0 \<and>
      (\<forall>j < length envp. stack_str mem rsp (stack_word mem (2 + length args + j)) = envp ! j) \<and>
      stack_word mem (2 + length args + length envp) = 0 \<and>
      (\<forall>k < length aux. stack_word mem (3 + length args + length envp + 2 * k) = ax_tag (aux ! k) \<and>
        stack_word mem (4 + length args + length envp + 2 * k) = ax_val (aux ! k)) \<and>
      stack_word mem (3 + length args + length envp + 2 * length aux) = AT_RANDOM \<and>
      take 16 (drop (stack_word mem (4 + length args + length envp + 2 * length aux) - rsp) mem) = random \<and>
      stack_word mem (5 + length args + length envp + 2 * length aux) = AT_NULL)"
proof -
  have blk: "ea_block a args envp" using exec_block_spec(1) [OF assms(1,2)] assms(11) by simp
  have nn: "\<forall>s \<in> set (args @ envp). 0 \<notin> set s" using assms(3,11) by auto
  obtain so ro where O: "stack_offsets a (length aux) = Some (so, ro, n)"
    using assms(7) by (auto simp: initial_stack_len_def)
  note S = stack_offsets_Some [OF O]
  have B: "ea_strings a = cstrings (args @ envp)" "ea_argc a = length args" "ea_envc a = length envp"
    using blk by (simp_all add: ea_block_def)
  let ?sva = "stack_top - so" and ?rva = "stack_top - ro" and ?rsp = "stack_top - n"
  define W where "W = stack_words args envp aux ?sva ?rva"
  define rest where "rest = drop (8 * length W) (replicate (n - ro) (0 :: u8) @ random @ replicate (ro - so - 16) 0)"
  define table' where "table' = enc W @ rest"
  have tl: "length table = n - so" using assms(9) S(1) by simp
  have bd: "build stack_top a aux random table = Some (\<lparr>si_rsp = ?rsp, si_strings_va = ?sva\<rparr>, table')"
    using build_spec [OF blk nn assms(4,5,6) O assms(8) tl] by (simp add: table'_def W_def rest_def)
  have le: "so + 16 \<le> ro" "ro + 8 * length W \<le> n" using S(2,5) B(2,3) by (simp_all add: W_def length_stack_words)
  have lt: "length table' = n - so" using le assms(4) by (simp add: table'_def rest_def)
  have sva: "?sva = ?rsp + length table'" using lt le assms(8) by simp
  let ?mem = "table' @ ea_strings a @ replicate 8 0"
  have w64: "\<forall>w \<in> set W. w < 2 ^ 64"
  proof
    fix w assume w: "w \<in> set W"
    have "?sva + length (cstrings (args @ envp)) < 2 ^ 64" "length args < 2 ^ 64"
      using assms(6,8) S(1,5,6) B le by simp_all
    then show "w < 2 ^ 64" using stack_words_bound [OF w [unfolded W_def]] assms(6,10) by simp
  qed
  have word: "stack_word ?mem i = W ! i" if "i < length W" for i
    using stack_word_enc [OF that] w64 that by (simp add: table'_def)
  note NW = nth_stack_words [OF W_def]
  have lw: "length W = length args + length envp + 3 + 2 * (length aux + 2)" by (simp add: W_def length_stack_words)
  have sa: "stack_str ?mem ?rsp (stack_word ?mem (1 + i)) = args ! i" if "i < length args" for i
    using stack_str_cstrings [of i "args @ envp" "W ! (1 + i)" ?rsp table' "replicate 8 0"] word [of "1 + i"] NW(2) [OF that] that nn lw
      sva B(1) by (simp add: nth_append)
  have se: "stack_str ?mem ?rsp (stack_word ?mem (2 + length args + j)) = envp ! j" if "j < length envp" for j
    using stack_str_cstrings [of "length args + j" "args @ envp" "W ! (2 + length args + j)" ?rsp table' "replicate 8 0"]
      word [of "2 + length args + j"] NW(4) [OF that] that nn lw sva B(1) by (simp add: nth_append add.assoc)
  have "table' = (enc W @ replicate (n - ro - 8 * length W) 0) @ random @ replicate (ro - so - 16) 0"
    using le by (simp add: table'_def rest_def)
  moreover have "?rva - ?rsp = length (enc W @ replicate (n - ro - 8 * length W) (0 :: u8))" using le assms(8) by simp
  ultimately have rnd: "take 16 (drop (?rva - ?rsp) ?mem) = random" using assms(4) by simp
  have "?rsp mod 16 = 0" using assms(5) S(4) by (simp add: mod_eq_0_iff_dvd)
  moreover have "?rsp + n = stack_top" using assms(8) by simp
  moreover have "length ?mem = n" using lt S(1) le by simp
  moreover have "\<forall>i < length args. stack_str ?mem ?rsp (stack_word ?mem (1 + i)) = args ! i"
    "\<forall>j < length envp. stack_str ?mem ?rsp (stack_word ?mem (2 + length args + j)) = envp ! j"
    using sa se by blast+
  moreover have "\<forall>k < length aux. stack_word ?mem (3 + length args + length envp + 2 * k) = ax_tag (aux ! k) \<and>
        stack_word ?mem (4 + length args + length envp + 2 * k) = ax_val (aux ! k)"
    using NW(6) word lw by simp
  moreover have "stack_word ?mem 0 = length args" "stack_word ?mem (1 + length args) = 0"
    "stack_word ?mem (2 + length args + length envp) = 0"
    using word [of 0] word [of "1 + length args"] word [of "2 + length args + length envp"] NW(1,3,5) lw by simp_all
  moreover have "stack_word ?mem (3 + length args + length envp + 2 * length aux) = AT_RANDOM"
    "stack_word ?mem (4 + length args + length envp + 2 * length aux) = ?rva"
    "stack_word ?mem (5 + length args + length envp + 2 * length aux) = AT_NULL"
    using word [of "3 + length args + length envp + 2 * length aux"] word [of "4 + length args + length envp + 2 * length aux"]
      word [of "5 + length args + length envp + 2 * length aux"] NW(7,8,9) lw by simp_all
  moreover from this(2) rnd
  have "take 16 (drop (stack_word ?mem (4 + length args + length envp + 2 * length aux) - ?rsp) ?mem) = random" by (simp only:)
  ultimately show ?thesis
    unfolding Let_def using bd sva
    by (intro exI [of _ ?rsp] exI [of _ ?sva] exI [of _ table'] conjI) assumption+
qed

text \<open>One argument, \<open>a\<close>, one environment string, \<open>b\<close>, and one auxiliary entry.\<close>

definition demo_block :: arg_result where
  "demo_block = exec_block (\<lambda>_ _. True) 1000 [[97]] [[98]]"

lemma demo_block_eq: "\<exists>a. demo_block = (Inr (), a) \<and> ea_strings a = [97, 0, 98, 0] \<and> ea_argc a = 1 \<and> ea_envc a = 1"
  by (simp add: demo_block_def exec_block_def ea_push_def ea_begin_def ea_extend_def ea_end_def ea_charge_def ea_new_def
      add64_def sat_add64_def MAX_ARG_STRLEN_def finish_argv_def)

theorem exec_stack_roundtrip_witness:
  "\<exists>a st table'. demo_block = (Inr (), a) \<and>
     build 0x8000 a [\<lparr>ax_tag = 6, ax_val = 4096\<rparr>] (replicate 16 7) (replicate 116 0) = Some (st, table') \<and>
     (let mem = table' @ ea_strings a @ replicate 8 0 in
       stack_str mem (si_rsp st) (stack_word mem 1) = [97] \<and> stack_str mem (si_rsp st) (stack_word mem 3) = [98] \<and>
       stack_word mem 5 = 6 \<and> stack_word mem 6 = 4096)"
proof -
  obtain a where a: "demo_block = (Inr (), a)" "ea_strings a = [97, 0, 98, 0]" "ea_argc a = 1" "ea_envc a = 1"
    using demo_block_eq by blast
  have "align16 28 = Some 32" "align16 120 = Some 128" by (simp_all add: align16_Some)
  then have l: "initial_stack_len a 1 = Some 128"
    using a by (simp add: initial_stack_len_def stack_offsets_def table_words_def add64_def mul64_def)
  show ?thesis
    using exec_stack_roundtrip [OF a(1) [unfolded demo_block_def], of "replicate 16 7" "0x8000" "[\<lparr>ax_tag = 6, ax_val = 4096\<rparr>]" 128 "replicate 116 0" "[[97]]"]
      a l by (auto simp: Let_def)
qed

text \<open>
  C14: What a block of arguments costs is bounded. Its strings with their NULs, and eight bytes for each pointer, stay within
  the limit it was given, whatever the strings are; every string is shorter than \<open>MAX_ARG_STRLEN\<close>; and the initial stack takes
  at most 110 bytes more, and 16 for each auxiliary entry.
\<close>

theorem exec_args_bounded:
  assumes "exec_block grow (arg_space_limit rlimit) argv envp = (Inr (), a)" "naux < 2 ^ 32"
  shows "length (ea_strings a) + 8 * (ea_argc a + ea_envc a) \<le> arg_space_limit rlimit \<and>
    arg_space_limit rlimit \<le> ARG_SPACE_MAX \<and> (\<forall>s \<in> set (argv @ envp). length s < MAX_ARG_STRLEN) \<and>
    (\<exists>n. initial_stack_len a naux = Some n \<and> n \<le> arg_space_limit rlimit + 16 * naux + 110)"
proof -
  have l: "arg_space_limit rlimit < 2 ^ 32" using arg_space_limit_bound(1) [of rlimit] arg_space_limit_bound(2) by simp
  have blk: "ea_block a (if argv = [] then [[]] else argv) envp" and lim: "ea_limit a = arg_space_limit rlimit"
    using exec_block_spec [OF assms(1)] l by simp_all
  then have "length (ea_strings a) + 8 * (ea_argc a + ea_envc a) \<le> arg_space_limit rlimit" by (auto simp: ea_block_def)
  then show ?thesis
    using stack_len_bound [OF blk _ assms(2)] l lim exec_block_short [OF assms(1)] arg_space_limit_bound(1) by auto
qed

theorem exec_args_bounded_witness:
  "\<exists>a. exec_block (\<lambda>_ _. True) (arg_space_limit 8388608) [[97]] [[98]] = (Inr (), a) \<and>
     length (ea_strings a) + 8 * (ea_argc a + ea_envc a) \<le> 2097152"
proof -
  have l: "arg_space_limit 8388608 = 2097152"
    by (simp add: arg_space_limit_def ARG_SPACE_MIN_def ARG_SPACE_MAX_def push_bit_eq_mult)
  have "\<exists>a. exec_block (\<lambda>_ _. True) 2097152 [[97]] [[98]] = (Inr (), a)"
    by (simp add: exec_block_def ea_push_def ea_begin_def ea_extend_def ea_end_def ea_charge_def ea_new_def
        add64_def sat_add64_def MAX_ARG_STRLEN_def finish_argv_def)
  then show ?thesis using exec_args_bounded [of "\<lambda>_ _. True" 8388608 "[[97]]" "[[98]]" _ 0] unfolding l by auto
qed

end
