(* ===== verification/Crc32.thy ===== *)
theory Crc32
  imports Prelude
begin

text \<open>
  The CRC-32 of \<open>crates/core/src/block/part.rs\<close>, bit by bit, and why it detects a damaged byte: each step is injective
  in the register, because the polynomial has its top bit set.
\<close>

definition crc_bit :: "u32 \<Rightarrow> u32" where
  "crc_bit crc = (if crc AND 1 \<noteq> 0 then drop_bit 1 crc XOR 0xEDB88320 else drop_bit 1 crc)"

definition crc_byte :: "u8 \<Rightarrow> u32 \<Rightarrow> u32" where
  "crc_byte byte crc = (crc_bit ^^ 8) (crc XOR ucast byte)"

definition crc32_ieee :: "u8 list \<Rightarrow> u32" where
  "crc32_ieee data = NOT (fold crc_byte data 0xFFFFFFFF)"

lemma top_bit_drop: "\<not> bit (drop_bit 1 (x :: u32)) 31"
  using bit_imp_le_length [of x 32] by (auto simp: bit_drop_bit_eq)

lemma low_bit: "x AND 1 \<noteq> (0 :: u32) \<longleftrightarrow> bit x 0"
  by (simp add: and_one_eq bit_0 odd_iff_mod_2_eq_one)

lemma xor_cancel: "a XOR c = b XOR c \<Longrightarrow> a = b" for a b c :: u32
proof (rule bit_eqI)
  fix n
  assume "a XOR c = b XOR c"
  then have "bit (a XOR c) n \<longleftrightarrow> bit (b XOR c) n" by simp
  then show "bit a n \<longleftrightarrow> bit b n" by (simp add: bit_xor_iff) blast
qed

lemma eq_by_shift:
  assumes "drop_bit 1 x = drop_bit 1 (y :: u32)" "bit x 0 \<longleftrightarrow> bit y 0"
  shows "x = y"
proof (rule bit_eqI)
  fix n
  show "bit x n \<longleftrightarrow> bit y n"
  proof (cases n)
    case (Suc m)
    have "bit (drop_bit 1 x) m \<longleftrightarrow> bit (drop_bit 1 y) m" using assms(1) by simp
    then show ?thesis using Suc by (simp add: bit_drop_bit_eq)
  qed (use assms(2) in simp)
qed

lemma crc_bit_top: "bit (crc_bit x) 31 \<longleftrightarrow> bit x 0"
proof -
  have "bit (0xEDB88320 :: u32) 31" by simp
  then show ?thesis using top_bit_drop [of x] unfolding crc_bit_def low_bit by (simp only: bit_xor_iff split: if_split) blast
qed

lemma crc_bit_inj:
  assumes "crc_bit x = crc_bit y"
  shows "x = y"
proof -
  have same: "bit x 0 \<longleftrightarrow> bit y 0" using crc_bit_top [of x] crc_bit_top [of y] assms by simp
  have "drop_bit 1 x = drop_bit 1 y"
  proof (cases "bit x 0")
    case True
    then show ?thesis using assms same xor_cancel unfolding crc_bit_def low_bit by metis
  next
    case False
    then show ?thesis using assms same unfolding crc_bit_def low_bit by simp
  qed
  then show "x = y" using same by (rule eq_by_shift)
qed

lemma crc_bits_inj: "(crc_bit ^^ n) x = (crc_bit ^^ n) y \<Longrightarrow> x = y"
  by (induction n) (auto dest: crc_bit_inj)

lemma crc_byte_inj: "crc_byte b x = crc_byte b y \<Longrightarrow> x = y"
  unfolding crc_byte_def by (drule crc_bits_inj) (rule xor_cancel)

lemma crc_fold_inj: "fold crc_byte bs x = fold crc_byte bs y \<Longrightarrow> x = y"
  by (induction bs arbitrary: x y) (auto dest: crc_byte_inj)

lemma crc_byte_neq:
  assumes "b \<noteq> c"
  shows "crc_byte b x \<noteq> crc_byte c x"
proof
  assume "crc_byte b x = crc_byte c x"
  then have "ucast b XOR x = ucast c XOR x" unfolding crc_byte_def by (drule_tac crc_bits_inj) (simp add: ac_simps)
  then have "ucast b = (ucast c :: u32)" by (rule xor_cancel)
  then have u: "bit (ucast b :: u32) n \<longleftrightarrow> bit (ucast c :: u32) n" for n by simp
  have "bit b n \<longleftrightarrow> bit c n" if "n < 8" for n
    using u [of n] that by (simp add: bit_ucast_iff)
  then have "b = c" by (intro bit_word_eqI) simp
  then show False using assms by simp
qed

text \<open>Changing one byte changes the checksum.\<close>

lemma crc32_byte_change:
  assumes "i < length xs" "b \<noteq> xs ! i"
  shows "crc32_ieee (xs[i := b]) \<noteq> crc32_ieee xs"
proof
  assume e: "crc32_ieee (xs[i := b]) = crc32_ieee xs"
  have "xs[i := b] = take i xs @ b # drop (Suc i) xs" using assms(1) by (rule upd_conv_take_nth_drop)
  moreover have "xs = take i xs @ xs ! i # drop (Suc i) xs" using assms(1) by (rule id_take_nth_drop)
  ultimately have "fold crc_byte (take i xs @ b # drop (Suc i) xs) 0xFFFFFFFF = fold crc_byte (take i xs @ xs ! i # drop (Suc i) xs) 0xFFFFFFFF"
    using e by (simp add: crc32_ieee_def bit.compl_eq_compl_iff)
  then have "crc_byte b (fold crc_byte (take i xs) 0xFFFFFFFF) = crc_byte (xs ! i) (fold crc_byte (take i xs) 0xFFFFFFFF)"
    by (auto dest: crc_fold_inj)
  then show False using crc_byte_neq [OF assms(2)] by blast
qed

end
