(* ===== verification/Part.thy ===== *)
theory Part
  imports Bytes Crc32
begin

text \<open>
  MBR and GPT partition tables, from \<open>crates/core/src/block/part.rs\<close>. The device is the argument \<open>read\<close> of the
  parsers: the sector at an LBA, or \<open>None\<close> for a read error. A device is not changed while it is parsed, so a read
  depends on the LBA only. The scratch memory for the GPT entries matters through its length; what a parse reads
  of it is what it has loaded. A sector is a list of bytes.
\<close>

definition MAX_PARTS :: nat where "MAX_PARTS = 16"
definition MAX_EBR_DEPTH :: nat where "MAX_EBR_DEPTH = 128"
definition MBR_SIG_OFF :: nat where "MBR_SIG_OFF = 510"
definition MBR_PART_OFF :: nat where "MBR_PART_OFF = 446"
definition MBR_ENTRY_LEN :: nat where "MBR_ENTRY_LEN = 16"
definition GPT_SIG :: "u8 list" where "GPT_SIG = [0x45, 0x46, 0x49, 0x20, 0x50, 0x41, 0x52, 0x54]"
definition GPT_HEADER_SIZE :: nat where "GPT_HEADER_SIZE = 92"
definition GPT_ENTRY_SIZE :: nat where "GPT_ENTRY_SIZE = 128"
definition GPT_REVISION :: nat where "GPT_REVISION = 0x00010000"

definition GUID_EFI :: "u8 list" where
  "GUID_EFI = [0x28, 0x73, 0x2A, 0xC1, 0x1F, 0xF8, 0xD2, 0x11, 0xBA, 0x4B, 0x00, 0xA0, 0xC9, 0x3E, 0xC9, 0x3B]"

definition GUID_LINUX :: "u8 list" where
  "GUID_LINUX = [0xAF, 0x3D, 0xC6, 0x0F, 0x83, 0x84, 0x72, 0x47, 0x8E, 0x79, 0x3D, 0x69, 0xD8, 0x47, 0x7D, 0xE4]"

definition GUID_SWAP :: "u8 list" where
  "GUID_SWAP = [0x6D, 0xFD, 0x57, 0x06, 0xAB, 0xA4, 0xC4, 0x43, 0x84, 0xE5, 0x09, 0x33, 0xC8, 0x4B, 0x4F, 0x4F]"

definition GUID_BASIC :: "u8 list" where
  "GUID_BASIC = [0xA2, 0xA0, 0xD0, 0xEB, 0xE5, 0xB9, 0x33, 0x44, 0x87, 0xC0, 0x68, 0xB6, 0xB7, 0x26, 0x99, 0xC7]"

definition GUID_LVM :: "u8 list" where
  "GUID_LVM = [0x79, 0xD3, 0xD6, 0xE6, 0x07, 0xF5, 0xC2, 0x44, 0xA2, 0x3C, 0x23, 0x8F, 0x2A, 0x3D, 0xF9, 0x28]"

definition GUID_BIOS_BOOT :: "u8 list" where
  "GUID_BIOS_BOOT = [0x48, 0x61, 0x68, 0x21, 0x49, 0x64, 0x6F, 0x6E, 0x74, 0x4E, 0x65, 0x65, 0x64, 0x45, 0x46, 0x49]"

definition GUID_UNUSED :: "u8 list" where "GUID_UNUSED = replicate 16 0"

definition MBR_LINUX :: u8 where "MBR_LINUX = 0x83"
definition MBR_FAT32_LBA :: u8 where "MBR_FAT32_LBA = 0x0C"
definition MBR_NTFS :: u8 where "MBR_NTFS = 0x07"
definition MBR_EFI :: u8 where "MBR_EFI = 0xEF"
definition MBR_SWAP :: u8 where "MBR_SWAP = 0x82"
definition MBR_EXTENDED :: u8 where "MBR_EXTENDED = 0x05"
definition MBR_EXTENDED_LBA :: u8 where "MBR_EXTENDED_LBA = 0x0F"
definition MBR_LINUX_EXTENDED :: u8 where "MBR_LINUX_EXTENDED = 0x85"
definition MBR_PROTECTIVE :: u8 where "MBR_PROTECTIVE = 0xEE"

datatype block_error = BInval | BIo | BFailed | BQueueFull | BNoMem | BGone | BExists | BReadOnly

datatype part_error = PTruncated | PBadCrc | PInvalid | PEmpty | PNoMemory

fun part_error_str :: "part_error \<Rightarrow> string" where
  "part_error_str PTruncated = ''truncated''"
| "part_error_str PBadCrc = ''bad crc''"
| "part_error_str PInvalid = ''invalid''"
| "part_error_str PEmpty = ''empty''"
| "part_error_str PNoMemory = ''no memory''"

datatype table_origin = OMbr | OGpt bool

datatype part_kind = KMbr u8 | KGpt "u8 list"

record part =
  pt_index :: nat
  pt_start_lba :: nat
  pt_nsectors :: nat
  pt_kind :: part_kind

record table =
  tb_origin :: table_origin
  tb_n :: nat
  tb_parts :: "part list"

definition tb_empty :: "table_origin \<Rightarrow> table" where
  "tb_empty origin = \<lparr>tb_origin = origin, tb_n = 0,
     tb_parts = replicate MAX_PARTS \<lparr>pt_index = 0, pt_start_lba = 0, pt_nsectors = 0, pt_kind = KMbr 0\<rparr>\<rparr>"

definition tb_get :: "table \<Rightarrow> nat \<Rightarrow> part option" where
  "tb_get t i = (if i < tb_n t then get_opt (tb_parts t) i else None)"

definition map_child_lba :: "nat \<Rightarrow> nat \<Rightarrow> nat \<Rightarrow> nat \<Rightarrow> block_error + nat" where
  "map_child_lba start nsect lba cnt =
     bindE (ok_or (add64 lba cnt) BInval) (\<lambda>e.
       if cnt = 0 \<or> e > nsect then Inl BInval
       else ok_or (add64 start lba) BInval)"

definition is_extended :: "u8 \<Rightarrow> bool" where
  "is_extended sys \<longleftrightarrow> sys = MBR_EXTENDED \<or> sys = MBR_EXTENDED_LBA \<or> sys = MBR_LINUX_EXTENDED"

definition gpt_type_name :: "u8 list \<Rightarrow> string" where
  "gpt_type_name guid =
     (if guid = GUID_UNUSED then ''unused'' else if guid = GUID_EFI then ''efi''
      else if guid = GUID_LINUX then ''linux'' else if guid = GUID_SWAP then ''swap''
      else if guid = GUID_BASIC then ''basic'' else if guid = GUID_LVM then ''lvm''
      else if guid = GUID_BIOS_BOOT then ''bios'' else ''other'')"

definition mbr_type_name :: "u8 \<Rightarrow> string" where
  "mbr_type_name sys =
     (if sys = MBR_LINUX then ''linux'' else if sys = MBR_FAT32_LBA then ''fat''
      else if sys = MBR_NTFS then ''ntfs'' else if sys = MBR_EFI then ''efi''
      else if sys = MBR_SWAP then ''swap'' else if sys = MBR_PROTECTIVE then ''protective''
      else if is_extended sys then ''extended'' else ''other'')"

section \<open>Fields of a sector\<close>

definition field :: "nat \<Rightarrow> u8 list \<Rightarrow> nat \<Rightarrow> u8 list option" where
  "field n b off = do { e \<leftarrow> add64 off n; get_range b off e }"

definition r32 :: "u8 list \<Rightarrow> nat \<Rightarrow> nat option" where
  "r32 b off = map_option le_nat (field 4 b off)"

definition r64 :: "u8 list \<Rightarrow> nat \<Rightarrow> nat option" where
  "r64 b off = map_option le_nat (field 8 b off)"

definition r8 :: "u8 list \<Rightarrow> nat \<Rightarrow> u8 option" where
  "r8 b off = get_opt b off"

definition put :: "u8 list \<Rightarrow> nat \<Rightarrow> u8 list \<Rightarrow> u8 list" where
  "put b off src = (case put_range b off src of Some b' \<Rightarrow> b' | None \<Rightarrow> b)"

definition w32 :: "u8 list \<Rightarrow> nat \<Rightarrow> nat \<Rightarrow> u8 list" where
  "w32 b off v = put b off (to_le 4 v)"

definition w64 :: "u8 list \<Rightarrow> nat \<Rightarrow> nat \<Rightarrow> u8 list" where
  "w64 b off v = put b off (to_le 8 v)"

definition push_part :: "table \<Rightarrow> part \<Rightarrow> bool \<times> table" where
  "push_part t p = (if tb_n t < length (tb_parts t)
     then (True, t\<lparr>tb_parts := (tb_parts t)[tb_n t := p], tb_n := tb_n t + 1\<rparr>) else (False, t))"

definition logical_index :: "nat \<Rightarrow> nat option" where
  "logical_index k = (if k < 256 then (if k + 5 < 256 then Some (k + 5) else None) else None)"

definition mbr_entry_off :: "nat \<Rightarrow> nat option" where
  "mbr_entry_off i = do { m \<leftarrow> mul64 i MBR_ENTRY_LEN; add64 m MBR_PART_OFF }"

definition mbr_entry :: "u8 list \<Rightarrow> nat \<Rightarrow> (u8 \<times> nat \<times> nat) option" where
  "mbr_entry sector i = do {
     off \<leftarrow> mbr_entry_off i;
     o4 \<leftarrow> add64 off 4;
     sys \<leftarrow> r8 sector o4;
     o8 \<leftarrow> add64 off 8;
     start \<leftarrow> r32 sector o8;
     o12 \<leftarrow> add64 off 12;
     cnt \<leftarrow> r32 sector o12;
     Some (sys, start, cnt) }"

definition put_mbr_entry :: "u8 list \<Rightarrow> nat \<Rightarrow> u8 \<Rightarrow> nat \<Rightarrow> nat \<Rightarrow> u8 list" where
  "put_mbr_entry sector i sys start cnt =
     (case mbr_entry_off i of
        None \<Rightarrow> sector
      | Some off \<Rightarrow>
          let s1 = put sector off [0];
              s2 = (case add64 off 4 of Some at \<Rightarrow> put s1 at [sys] | None \<Rightarrow> s1);
              s3 = (case add64 off 8 of Some at \<Rightarrow> w32 s2 at start | None \<Rightarrow> s2)
          in (case add64 off 12 of Some at \<Rightarrow> w32 s3 at cnt | None \<Rightarrow> s3))"

definition has_mbr_sig :: "u8 list \<Rightarrow> bool" where
  "has_mbr_sig sector \<longleftrightarrow> field 2 sector MBR_SIG_OFF = Some [0x55, 0xAA]"

section \<open>Packing\<close>

definition pack_mbr :: "u8 list \<Rightarrow> (u8 \<times> nat \<times> nat) list \<Rightarrow> u8 list" where
  "pack_mbr buf slots =
     (if length buf < 512 then buf
      else let sector = fold (\<lambda>(i, sys, start, cnt) s. if sys \<noteq> 0 \<and> cnt \<noteq> 0 then put_mbr_entry s i sys start cnt else s)
             (enumerate 0 slots) (replicate 512 0)
        in put sector MBR_SIG_OFF [0x55, 0xAA] @ drop 512 buf)"

definition pack_protective_mbr :: "u8 list \<Rightarrow> nat \<Rightarrow> u8 list" where
  "pack_protective_mbr buf nsectors =
     (let cnt = (if nsectors - 1 < 2 ^ 32 then nsectors - 1 else 2 ^ 32 - 1)
      in pack_mbr buf [(MBR_PROTECTIVE, 1, cnt), (0, 0, 0), (0, 0, 0), (0, 0, 0)])"

definition pack_ebr :: "u8 list \<Rightarrow> u8 \<Rightarrow> nat \<Rightarrow> nat \<Rightarrow> nat \<Rightarrow> nat \<Rightarrow> u8 list" where
  "pack_ebr buf sys first_rel first_count next_rel next_count =
     (let next_sys = (if next_rel = 0 then 0 else MBR_EXTENDED)
      in pack_mbr buf [(sys, first_rel, first_count), (next_sys, next_rel, next_count), (0, 0, 0), (0, 0, 0)])"

record gpt_header_info =
  gh_my_lba :: nat
  gh_alt_lba :: nat
  gh_first_usable :: nat
  gh_last_usable :: nat
  gh_disk_guid :: "u8 list"
  gh_part_lba :: nat
  gh_part_count :: nat
  gh_part_size :: nat
  gh_entries_crc :: nat

definition pack_gpt_header :: "u8 list \<Rightarrow> gpt_header_info \<Rightarrow> u8 list" where
  "pack_gpt_header buf h =
     (if length buf < 512 then buf
      else let s = put (replicate 512 0) 0 GPT_SIG;
               s = w32 s 8 GPT_REVISION;
               s = w32 s 12 GPT_HEADER_SIZE;
               s = w32 s 16 0;
               s = w64 s 24 (gh_my_lba h);
               s = w64 s 32 (gh_alt_lba h);
               s = w64 s 40 (gh_first_usable h);
               s = w64 s 48 (gh_last_usable h);
               s = put s 56 (gh_disk_guid h);
               s = w64 s 72 (gh_part_lba h);
               s = w32 s 80 (gh_part_count h);
               s = w32 s 84 (gh_part_size h);
               s = w32 s 88 (gh_entries_crc h);
               crc = crc32_ieee (case get_range s 0 GPT_HEADER_SIZE of Some b \<Rightarrow> b | None \<Rightarrow> [])
           in w32 s 16 (unat crc) @ drop 512 buf)"

text \<open>A partition's name, as the code points of its characters.\<close>

fun utf16le_name :: "u8 list \<Rightarrow> nat list \<Rightarrow> u8 list" where
  "utf16le_name (a # b # rest) (c # cs) = (if c < 2 ^ 16 then to_le 2 c @ utf16le_name rest cs else a # b # rest)"
| "utf16le_name dst cs = dst"

definition pack_gpt_entry :: "u8 list \<Rightarrow> u8 list \<Rightarrow> u8 list \<Rightarrow> nat \<Rightarrow> nat \<Rightarrow> nat list \<Rightarrow> u8 list" where
  "pack_gpt_entry buf type_guid uniq first_lba last_lba name =
     (if length buf < GPT_ENTRY_SIZE then buf
      else let e = put (replicate GPT_ENTRY_SIZE 0) 0 type_guid;
               e = put e 16 uniq;
               e = w64 e 32 first_lba;
               e = w64 e 40 last_lba;
               e = (case get_range e 56 (56 + 72) of Some dst \<Rightarrow> put e 56 (utf16le_name dst name) | None \<Rightarrow> e)
           in e @ drop GPT_ENTRY_SIZE buf)"

section \<open>GPT\<close>

definition entries_crc :: "u8 list \<Rightarrow> u32" where
  "entries_crc entries = crc32_ieee entries"

definition header_fields_ok :: "u8 list \<Rightarrow> nat \<Rightarrow> bool option" where
  "header_fields_ok sec nsectors = do {
     sig \<leftarrow> field 8 sec 0;
     if sig \<noteq> GPT_SIG then Some False
     else do {
       sz \<leftarrow> r32 sec 12;
       if sz < GPT_HEADER_SIZE then Some False
       else do {
         stored \<leftarrow> r32 sec 16;
         _ \<leftarrow> get_range (replicate 512 (0 :: u8)) 0 sz;
         src \<leftarrow> get_range sec 0 sz;
         let dst = w32 src 16 0;
         if unat (crc32_ieee dst) \<noteq> stored then Some False
         else do {
           my \<leftarrow> r64 sec 24;
           if my \<ge> nsectors then Some False
           else do {
             psz \<leftarrow> r32 sec 84;
             nent \<leftarrow> r32 sec 80;
             Some (psz = GPT_ENTRY_SIZE \<and> nent > 0 \<and> nent \<le> 128) } } } } }"

definition header_ok :: "u8 list \<Rightarrow> nat \<Rightarrow> bool" where
  "header_ok sec nsectors = (case header_fields_ok sec nsectors of Some b \<Rightarrow> b | None \<Rightarrow> False)"

text \<open>
  The loop of \<open>load_entries\<close> over the chunks of the scratch memory: \<open>n\<close> chunks of \<open>bs\<close> bytes, the last one
  as long as what is left of \<open>want\<close>.
\<close>

primrec load_chunks :: "(nat \<Rightarrow> u8 list option) \<Rightarrow> nat \<Rightarrow> nat \<Rightarrow> nat \<Rightarrow> nat \<Rightarrow> part_error + u8 list" where
  "load_chunks read bs 0 lba want = Inr []"
| "load_chunks read bs (Suc n) lba want =
     bindE (ok_or (read lba) PTruncated) (\<lambda>sector_buf.
     bindE (ok_or (get_range sector_buf 0 (min bs want)) PTruncated) (\<lambda>src.
     bindE (load_chunks read bs n (sat_add64 lba 1) (want - bs)) (\<lambda>rest. Inr (src @ rest))))"

definition load_entries :: "(nat \<Rightarrow> u8 list option) \<Rightarrow> nat \<Rightarrow> nat \<Rightarrow> nat \<Rightarrow> nat \<Rightarrow> nat \<Rightarrow> part_error + u8 list" where
  "load_entries read part_lba nent nsectors sector_size scratch_len =
     (let want = sat_mul64 nent GPT_ENTRY_SIZE in
      if scratch_len < want then Inl PTruncated
      else if sector_size = 0 then Inl PInvalid
      else let nsec = (want + sector_size - 1) div sector_size in
        if (case add64 part_lba nsec of None \<Rightarrow> True | Some e \<Rightarrow> e > nsectors) then Inl PTruncated
        else load_chunks read sector_size nsec part_lba want)"

primrec parse_gpt_entries :: "nat \<Rightarrow> nat \<Rightarrow> u8 list list \<Rightarrow> table \<Rightarrow> table" where
  "parse_gpt_entries nsectors i [] t = t"
| "parse_gpt_entries nsectors i (e # es) t =
     (if \<not> i + 1 < 256 then t
      else case (field 16 e 0, r64 e 32, r64 e 40) of
        (Some guid, Some first_lba, Some last_lba) \<Rightarrow>
          if guid = GUID_UNUSED \<or> last_lba < first_lba then parse_gpt_entries nsectors (i + 1) es t
          else let n = sat_add64 (last_lba - first_lba) 1; e_end = sat_add64 first_lba n in
            if n = 0 \<or> e_end > nsectors then parse_gpt_entries nsectors (i + 1) es t
            else (case push_part t \<lparr>pt_index = i + 1, pt_start_lba = first_lba, pt_nsectors = n, pt_kind = KGpt guid\<rparr> of
                (True, t') \<Rightarrow> parse_gpt_entries nsectors (i + 1) es t'
              | (False, t') \<Rightarrow> t')
      | _ \<Rightarrow> t)"

definition try_gpt :: "(nat \<Rightarrow> u8 list option) \<Rightarrow> nat \<Rightarrow> nat \<Rightarrow> nat \<Rightarrow> nat \<Rightarrow> bool \<Rightarrow> part_error + table" where
  "try_gpt read nsectors sector_size scratch_len header_lba used_backup =
     (if header_lba \<ge> nsectors then Inl PTruncated
      else bindE (ok_or (read header_lba) PTruncated) (\<lambda>sec.
        if \<not> header_ok sec nsectors then Inl PBadCrc
        else bindE (ok_or (r64 sec 72) PTruncated) (\<lambda>part_lba.
        bindE (ok_or (r32 sec 80) PTruncated) (\<lambda>nent.
        bindE (ok_or (r32 sec 88) PTruncated) (\<lambda>stored_ecrc.
        bindE (load_entries read part_lba nent nsectors sector_size scratch_len) (\<lambda>entries.
        if unat (crc32_ieee entries) \<noteq> stored_ecrc then Inl PBadCrc
        else Inr (parse_gpt_entries nsectors 0 (take nent (as_chunks GPT_ENTRY_SIZE entries)) (tb_empty (OGpt used_backup)))))))))"

section \<open>MBR\<close>

text \<open>The walk of the EBR chain, with the depth left as fuel; it returns the table and the count of logical partitions.\<close>

primrec ebr_walk :: "nat \<Rightarrow> (nat \<Rightarrow> u8 list option) \<Rightarrow> nat \<Rightarrow> nat \<Rightarrow> nat \<Rightarrow> nat \<Rightarrow> table \<Rightarrow> nat \<Rightarrow> table \<times> nat" where
  "ebr_walk 0 read nsectors ext_start ext_end ebr t logical = (t, logical)"
| "ebr_walk (Suc d) read nsectors ext_start ext_end ebr t logical =
     (if ebr \<ge> nsectors \<or> ebr \<ge> ext_end then (t, logical)
      else case read ebr of None \<Rightarrow> (t, logical) | Some sec \<Rightarrow>
        if \<not> has_mbr_sig sec then (t, logical)
        else case mbr_entry sec 0 of None \<Rightarrow> (t, logical) | Some (sys, rel, cnt) \<Rightarrow>
          let follow = (\<lambda>t logical.
            case mbr_entry sec 1 of None \<Rightarrow> (t, logical) | Some (nsys, nrel, _) \<Rightarrow>
              if nrel = 0 \<or> \<not> is_extended nsys then (t, logical)
              else case add64 ext_start nrel of None \<Rightarrow> (t, logical) | Some nxt \<Rightarrow>
                if nxt \<ge> nsectors \<or> nxt = ebr \<or> nxt < ext_start \<or> nxt \<ge> ext_end then (t, logical)
                else ebr_walk d read nsectors ext_start ext_end nxt t logical) in
          if sys \<noteq> 0 \<and> cnt \<noteq> 0 \<and> \<not> is_extended sys \<and> sys \<noteq> MBR_PROTECTIVE then
            (case add64 ebr rel of None \<Rightarrow> (t, logical) | Some start \<Rightarrow>
             case add64 start cnt of None \<Rightarrow> (t, logical) | Some e \<Rightarrow>
               if start \<ge> nsectors \<or> e > nsectors \<or> start < ext_start \<or> e > ext_end then (t, logical)
               else case logical_index logical of None \<Rightarrow> (t, logical) | Some index \<Rightarrow>
                 (case push_part t \<lparr>pt_index = index, pt_start_lba = start, pt_nsectors = cnt, pt_kind = KMbr sys\<rparr> of
                    (True, t') \<Rightarrow> follow t' (logical + 1)
                  | (False, t') \<Rightarrow> (t', logical + 1)))
          else follow t logical)"

definition parse_logical :: "(nat \<Rightarrow> u8 list option) \<Rightarrow> nat \<Rightarrow> nat \<Rightarrow> nat \<Rightarrow> table \<Rightarrow> nat \<Rightarrow> table \<times> nat" where
  "parse_logical read nsectors ext_start ext_count t logical =
     ebr_walk MAX_EBR_DEPTH read nsectors ext_start (sat_add64 ext_start ext_count) ext_start t logical"

primrec mbr_slots :: "(nat \<Rightarrow> u8 list option) \<Rightarrow> nat \<Rightarrow> (u8 \<times> nat \<times> nat) list \<Rightarrow> nat \<Rightarrow> table \<Rightarrow> nat \<Rightarrow> table" where
  "mbr_slots read nsectors [] slot t logical = t"
| "mbr_slots read nsectors (p # ps) slot t logical =
     (case p of (sys, start, cnt) \<Rightarrow>
        if sys = 0 \<or> cnt = 0 \<or> sys = MBR_PROTECTIVE then mbr_slots read nsectors ps (slot + 1) t logical
        else if is_extended sys then
          (case parse_logical read nsectors start cnt t logical of
             (t', logical') \<Rightarrow> mbr_slots read nsectors ps (slot + 1) t' logical')
        else case add64 start cnt of
          None \<Rightarrow> mbr_slots read nsectors ps (slot + 1) t logical
        | Some e \<Rightarrow>
            if start \<ge> nsectors \<or> e > nsectors then mbr_slots read nsectors ps (slot + 1) t logical
            else (case push_part t \<lparr>pt_index = slot, pt_start_lba = start, pt_nsectors = cnt, pt_kind = KMbr sys\<rparr> of
                (True, t') \<Rightarrow> mbr_slots read nsectors ps (slot + 1) t' logical
              | (False, t') \<Rightarrow> t'))"

definition parse_mbr :: "(nat \<Rightarrow> u8 list option) \<Rightarrow> nat \<Rightarrow> u8 list \<Rightarrow> part_error + table" where
  "parse_mbr read nsectors sector_buf =
     bindE (ok_or (those (map (mbr_entry sector_buf) [0, 1, 2, 3])) PTruncated) (\<lambda>prim.
       Inr (mbr_slots read nsectors prim 1 (tb_empty OMbr) 0))"

definition part_parse :: "nat \<Rightarrow> nat \<Rightarrow> (nat \<Rightarrow> u8 list option) \<Rightarrow> nat \<Rightarrow> nat \<Rightarrow> part_error + table" where
  "part_parse nsectors sector_size read buf_len scratch_len =
     (if sector_size = 0 \<or> buf_len < sector_size then Inl PInvalid
      else if nsectors = 0 then Inl PEmpty
      else bindE (ok_or (read 0) PTruncated) (\<lambda>sec.
        let mbr_sig = has_mbr_sig sec;
            protective = (mbr_sig \<and> list_ex (\<lambda>i. case mbr_entry sec i of Some (sys, _, _) \<Rightarrow> sys = MBR_PROTECTIVE | None \<Rightarrow> False) [0..<4])
        in if \<not> protective then (if \<not> mbr_sig then Inl PEmpty else parse_mbr read nsectors sec)
           else if nsectors < 2 then Inl PTruncated
           else (case try_gpt read nsectors sector_size scratch_len 1 False of
               Inr t \<Rightarrow> Inr t
             | Inl _ \<Rightarrow> (case try_gpt read nsectors sector_size scratch_len (nsectors - 1) True of
                 Inr t \<Rightarrow> Inr t | Inl _ \<Rightarrow> Inl PBadCrc))))"

text \<open>The reader of a whole-disk image.\<close>

definition image_read :: "u8 list \<Rightarrow> nat \<Rightarrow> nat \<Rightarrow> u8 list option" where
  "image_read disk bs lba = do {
     off \<leftarrow> mul64 lba bs;
     e \<leftarrow> add64 off bs;
     get_range disk off e }"

definition MAX_BLOCK_SIZE :: nat where "MAX_BLOCK_SIZE = 4096"

definition parse_image :: "u8 list \<Rightarrow> nat \<Rightarrow> part_error + table" where
  "parse_image disk sector_size =
     (if sector_size = 0 then Inl PInvalid
      else if sector_size > MAX_BLOCK_SIZE then Inl PInvalid
      else part_parse (length disk div sector_size) sector_size (image_read disk sector_size) sector_size (128 * 128))"

section \<open>What a parsed table satisfies\<close>

abbreviation tb_list :: "table \<Rightarrow> part list" where
  "tb_list t \<equiv> take (tb_n t) (tb_parts t)"

definition part_ok :: "nat \<Rightarrow> part \<Rightarrow> bool" where
  "part_ok nsectors p \<longleftrightarrow> 0 < pt_nsectors p \<and> pt_start_lba p + pt_nsectors p \<le> nsectors"

text \<open>Every partition is within the disk, and no two have the same number.\<close>

definition table_ok :: "nat \<Rightarrow> table \<Rightarrow> bool" where
  "table_ok nsectors t \<longleftrightarrow> length (tb_parts t) = MAX_PARTS \<and> tb_n t \<le> MAX_PARTS \<and>
     (\<forall>p \<in> set (tb_list t). part_ok nsectors p) \<and> distinct (map pt_index (tb_list t))"

lemma table_okD:
  assumes "table_ok nsectors t"
  shows "length (tb_parts t) = MAX_PARTS" "tb_n t \<le> MAX_PARTS" "p \<in> set (tb_list t) \<Longrightarrow> part_ok nsectors p"
    "distinct (map pt_index (tb_list t))"
  using assms unfolding table_ok_def by blast+

text \<open>The numbers in use are those the predicate allows.\<close>

definition numbered :: "(nat \<Rightarrow> bool) \<Rightarrow> table \<Rightarrow> bool" where
  "numbered P t \<longleftrightarrow> (\<forall>p \<in> set (tb_list t). P (pt_index p))"

lemma numbered_mono: "numbered P t \<Longrightarrow> (\<And>i. P i \<Longrightarrow> Q i) \<Longrightarrow> numbered Q t"
  by (auto simp: numbered_def)

lemma tb_empty_ok: "table_ok nsectors (tb_empty k)" "numbered P (tb_empty k)"
  by (simp_all add: table_ok_def numbered_def tb_empty_def)

lemma push_part_ok:
  assumes "push_part t p = (b, t')" "table_ok nsectors t" "part_ok nsectors p" "numbered P t" "\<not> P (pt_index p)"
    "\<forall>i. P i \<longrightarrow> Q i" "Q (pt_index p)"
  shows "table_ok nsectors t'" "numbered Q t'"
proof -
  have "table_ok nsectors t' \<and> numbered Q t'"
  proof (cases "tb_n t < length (tb_parts t)")
    case True
    then have t': "tb_list t' = tb_list t @ [p]" "tb_n t' = tb_n t + 1" "length (tb_parts t') = length (tb_parts t)"
      using assms(1) by (auto simp: push_part_def)
    have "pt_index p \<notin> set (map pt_index (tb_list t))" using assms(4,5) by (auto simp: numbered_def)
    moreover have "\<forall>q \<in> set (tb_list t). Q (pt_index q)" using assms(4,6) by (simp add: numbered_def)
    ultimately have "\<forall>q \<in> set (tb_list t @ [p]). part_ok nsectors q" "distinct (map pt_index (tb_list t @ [p]))"
      "\<forall>q \<in> set (tb_list t @ [p]). Q (pt_index q)"
      using assms(3,7) table_okD(3,4) [OF assms(2)] by auto
    then show ?thesis unfolding table_ok_def numbered_def t'(1)
      using True table_okD(1,2) [OF assms(2)] t'(2,3) by simp
  next
    case False
    then have "t' = t" using assms(1) by (simp add: push_part_def)
    then show ?thesis using assms(2,4,6) numbered_mono by blast
  qed
  then show "table_ok nsectors t'" "numbered Q t'" by simp_all
qed

lemma sat_add64_bound: "sat_add64 a b \<le> n \<Longrightarrow> n < 2 ^ 64 - 1 \<Longrightarrow> a + b \<le> n"
  by (simp add: sat_add64_def min_def split: if_splits)

lemma parse_gpt_entries_ok:
  "table_ok nsectors t \<Longrightarrow> numbered (\<lambda>k. k \<le> i) t \<Longrightarrow> nsectors < 2 ^ 64 - 1 \<Longrightarrow>
   table_ok nsectors (parse_gpt_entries nsectors i es t)"
proof (induction es arbitrary: i t)
  case (Cons e es)
  have skip: "table_ok nsectors (parse_gpt_entries nsectors (i + 1) es t)"
    using Cons.prems numbered_mono [OF Cons.prems(2)] by (intro Cons.IH) auto
  show ?case
  proof (cases "i + 1 < 256 \<and> (\<exists>g f l. field 16 e 0 = Some g \<and> r64 e 32 = Some f \<and> r64 e 40 = Some l)")
    case False
    then show ?thesis using Cons.prems(1) by (auto split: option.splits)
  next
    case True
    then obtain g f l where r: "i + 1 < 256" "field 16 e 0 = Some g" "r64 e 32 = Some f" "r64 e 40 = Some l" by blast
    let ?n = "sat_add64 (l - f) 1"
    let ?p = "\<lparr>pt_index = i + 1, pt_start_lba = f, pt_nsectors = ?n, pt_kind = KGpt g\<rparr>"
    obtain b t' where pp: "push_part t ?p = (b, t')" by (cases "push_part t ?p")
    show ?thesis
    proof (cases "g = GUID_UNUSED \<or> l < f \<or> ?n = 0 \<or> sat_add64 f ?n > nsectors")
      case True
      then show ?thesis using r skip by (auto simp: Let_def)
    next
      case False
      then have "part_ok nsectors ?p" using sat_add64_bound [of f ?n nsectors] Cons.prems(3) by (simp add: part_ok_def)
      then have t': "table_ok nsectors t'" "numbered (\<lambda>k. k \<le> i + 1) t'"
        using push_part_ok [OF pp Cons.prems(1) _ Cons.prems(2), of "\<lambda>k. k \<le> i + 1"] by auto
      then have "table_ok nsectors (parse_gpt_entries nsectors (i + 1) es t')"
        using Cons.prems(3) by (intro Cons.IH)
      then show ?thesis using False r pp t' by (auto simp: Let_def split: bool.split)
    qed
  qed
qed simp

lemma try_gpt_ok: "try_gpt read nsectors bs sl lba ub = Inr t \<Longrightarrow> nsectors < 2 ^ 64 - 1 \<Longrightarrow> table_ok nsectors t"
  unfolding try_gpt_def
  by (auto simp: bindE_eq_Inr split: if_splits intro!: parse_gpt_entries_ok tb_empty_ok)

text \<open>In an MBR the primary partitions have the numbers below \<open>slot\<close>, the logical ones those from 5 on.\<close>

definition mbr_number :: "nat \<Rightarrow> nat \<Rightarrow> nat \<Rightarrow> bool" where
  "mbr_number slot logical k \<longleftrightarrow> k < slot \<or> 5 \<le> k \<and> k < 5 + logical"

lemma ebr_walk_ok:
  "table_ok nsectors t \<Longrightarrow> numbered (mbr_number slot logical) t \<Longrightarrow> slot \<le> 5 \<Longrightarrow>
   ebr_walk d read nsectors es ee ebr t logical = (t', logical') \<Longrightarrow>
   table_ok nsectors t' \<and> numbered (mbr_number slot logical') t'"
proof (induction d arbitrary: ebr t logical)
  case (Suc d)
  show ?case
  proof (cases "ebr < nsectors \<and> ebr < ee \<and> (\<exists>sec. read ebr = Some sec \<and> has_mbr_sig sec \<and> mbr_entry sec 0 \<noteq> None)")
    case False
    then have "t' = t" "logical' = logical" using Suc.prems(4) by (auto split: option.splits if_splits)
    then show ?thesis using Suc.prems(1,2) by simp
  next
    case True
    then obtain sec sys rel cnt where r: "ebr < nsectors" "ebr < ee" "read ebr = Some sec" "has_mbr_sig sec"
      "mbr_entry sec 0 = Some (sys, rel, cnt)" by auto
    define follow where "follow = (\<lambda>t logical.
            case mbr_entry sec 1 of None \<Rightarrow> (t, logical) | Some (nsys, nrel, _) \<Rightarrow>
              if nrel = 0 \<or> \<not> is_extended nsys then (t, logical)
              else case add64 es nrel of None \<Rightarrow> (t, logical) | Some nxt \<Rightarrow>
                if nxt \<ge> nsectors \<or> nxt = ebr \<or> nxt < es \<or> nxt \<ge> ee then (t, logical)
                else ebr_walk d read nsectors es ee nxt t logical)"
    have F: "table_ok nsectors t' \<and> numbered (mbr_number slot logical') t'"
      if "table_ok nsectors u" "numbered (mbr_number slot m) u" "follow u m = (t', logical')" for u m
      using that Suc.IH [OF that(1,2) Suc.prems(3)] unfolding follow_def by (auto split: option.splits prod.splits if_splits)
    show ?thesis
    proof (cases "sys \<noteq> 0 \<and> cnt \<noteq> 0 \<and> \<not> is_extended sys \<and> sys \<noteq> MBR_PROTECTIVE")
      case False
      then have "follow t logical = (t', logical')"
        using Suc.prems(4) r False unfolding follow_def
        by (cases "sys = 0"; cases "cnt = 0"; cases "is_extended sys"; cases "sys = MBR_PROTECTIVE") (simp_all add: Let_def)
      then show ?thesis using F Suc.prems(1,2) by blast
    next
      case part: True
      show ?thesis
      proof (cases "(\<exists>start e k. add64 ebr rel = Some start \<and> add64 start cnt = Some e \<and> start < nsectors \<and> e \<le> nsectors \<and>
          es \<le> start \<and> e \<le> ee \<and> logical_index logical = Some k)")
        case False
        then have "t' = t" "logical' = logical"
          using Suc.prems(4) r part by (auto simp: Let_def not_le not_less split: option.splits if_splits)
        then show ?thesis using Suc.prems(1,2) by simp
      next
        case True
        then obtain start e k where s: "add64 ebr rel = Some start" "add64 start cnt = Some e" "start < nsectors" "e \<le> nsectors"
          "es \<le> start" "e \<le> ee" "logical_index logical = Some k" by blast
        let ?p = "\<lparr>pt_index = k, pt_start_lba = start, pt_nsectors = cnt, pt_kind = KMbr sys\<rparr>"
        obtain b u where pp: "push_part t ?p = (b, u)" by (cases "push_part t ?p")
        have k: "k = logical + 5" using s(7) by (simp add: logical_index_def split: if_splits)
        have "part_ok nsectors ?p" using part s(2,4) by (auto simp: part_ok_def add64_eq_Some)
        then have u: "table_ok nsectors u" "numbered (mbr_number slot (logical + 1)) u"
          using push_part_ok [OF pp Suc.prems(1) _ Suc.prems(2), of "mbr_number slot (logical + 1)"] k Suc.prems(3)
          by (auto simp: mbr_number_def)
        show ?thesis
        proof (cases b)
          case True
          then have "follow u (logical + 1) = (t', logical')"
            using Suc.prems(4) r part s pp unfolding follow_def by (simp add: Let_def)
          then show ?thesis using F u by blast
        next
          case False
          then have "(t', logical') = (u, logical + 1)" using Suc.prems(4) r part s pp by (simp add: Let_def)
          then show ?thesis using u by simp
        qed
      qed
    qed
  qed
qed simp

lemma mbr_slots_ok:
  "table_ok nsectors t \<Longrightarrow> numbered (mbr_number slot logical) t \<Longrightarrow> slot + length ps \<le> 5 \<Longrightarrow>
   table_ok nsectors (mbr_slots read nsectors ps slot t logical)"
proof (induction ps arbitrary: slot t logical)
  case (Cons p ps)
  obtain sys start cnt where p: "p = (sys, start, cnt)" by (cases p)
  have skip: "table_ok nsectors (mbr_slots read nsectors ps (slot + 1) u m)"
    if "table_ok nsectors u" "numbered (mbr_number slot m) u" for u m
  proof -
    have "numbered (mbr_number (slot + 1) m) u"
      by (rule numbered_mono [OF that(2)]) (auto simp: mbr_number_def)
    then show ?thesis using that(1) Cons.prems(3) by (intro Cons.IH) simp_all
  qed
  show ?case
  proof (cases "sys = 0 \<or> cnt = 0 \<or> sys = MBR_PROTECTIVE")
    case True
    then show ?thesis using p skip [OF Cons.prems(1,2)] by auto
  next
    case a: False
    show ?thesis
    proof (cases "is_extended sys")
      case True
      obtain u m where u: "parse_logical read nsectors start cnt t logical = (u, m)" by (cases "parse_logical read nsectors start cnt t logical")
      then have "table_ok nsectors u \<and> numbered (mbr_number slot m) u"
        unfolding parse_logical_def using ebr_walk_ok [OF Cons.prems(1,2)] Cons.prems(3) by auto
      then show ?thesis using skip [of u m] p a True u by simp
    next
      case b: False
      show ?thesis
      proof (cases "\<exists>e. add64 start cnt = Some e \<and> start < nsectors \<and> e \<le> nsectors")
        case False
        then show ?thesis using p a b skip [OF Cons.prems(1,2)] by (auto split: option.split)
      next
        case True
        then obtain e where e: "add64 start cnt = Some e" "start < nsectors" "e \<le> nsectors" by blast
        let ?p = "\<lparr>pt_index = slot, pt_start_lba = start, pt_nsectors = cnt, pt_kind = KMbr sys\<rparr>"
        obtain b' u where pp: "push_part t ?p = (b', u)" by (cases "push_part t ?p")
        have "part_ok nsectors ?p" using a e by (auto simp: part_ok_def add64_eq_Some)
        then have u: "table_ok nsectors u" "numbered (mbr_number (slot + 1) logical) u"
          using push_part_ok [OF pp Cons.prems(1) _ Cons.prems(2), of "mbr_number (slot + 1) logical"] Cons.prems(3)
          by (auto simp: mbr_number_def)
        then have "table_ok nsectors (mbr_slots read nsectors ps (slot + 1) u logical)"
          using Cons.prems(3) by (intro Cons.IH) auto
        then show ?thesis using p a b e pp u by (auto split: bool.split)
      qed
    qed
  qed
qed simp

lemma part_parse_ok:
  assumes "part_parse nsectors bs read bl sl = Inr t" "nsectors < 2 ^ 64 - 1"
  shows "table_ok nsectors t"
proof -
  obtain sec where sec: "read 0 = Some sec"
    using assms(1) unfolding part_parse_def by (auto simp: bindE_eq_Inr split: if_splits)
  consider "parse_mbr read nsectors sec = Inr t" | lba ub where "try_gpt read nsectors bs sl lba ub = Inr t"
    using assms(1) sec unfolding part_parse_def by (auto simp: Let_def split: if_splits sum.splits)
  then show ?thesis
  proof cases
    case 1
    then obtain prim where m: "those (map (mbr_entry sec) [0, 1, 2, 3]) = Some prim" "t = mbr_slots read nsectors prim 1 (tb_empty OMbr) 0"
      by (auto simp: parse_mbr_def bindE_eq_Inr)
    have "length prim = 4" using m(1) by (auto split: option.splits)
    then show ?thesis using mbr_slots_ok [OF tb_empty_ok, of 1 prim] m(2) by simp
  next
    case 2
    then show ?thesis using try_gpt_ok assms(2) by blast
  qed
qed

end
