(* ===== verification/Part_Pack.thy ===== *)
theory Part_Pack
  imports Part
begin

text \<open>
  What the packers of \<open>crates/core/src/block/part.rs\<close> store and the parsers read back, and what the GPT checksum
  detects.
\<close>

section \<open>Storing and reading fields\<close>

lemma length_put [simp]: "length (put b off src) = length b"
  by (auto simp: put_def put_range_Some split: option.split)

lemma put_Some: "off + length src \<le> length b \<Longrightarrow> put_range b off src = Some (put b off src)"
  by (simp add: put_def put_range_def)

lemma nth_put:
  "off + length src \<le> length b \<Longrightarrow> i < length b \<Longrightarrow>
   put b off src ! i = (if off \<le> i \<and> i < off + length src then src ! (i - off) else b ! i)"
  using nth_put_range [OF put_Some] by simp

lemma field_put_same:
  assumes "off + n \<le> length b" "length src = n" "off + n < 2 ^ 64"
  shows "field n (put b off src) off = Some src"
proof -
  have "get_range (put b off src) off (off + n) = Some src"
    by (rule get_put_same [OF put_Some]) (use assms(1,2) in simp_all)
  moreover have "add64 off n = Some (off + n)" using assms(3) by (rule add64_Some)
  ultimately show ?thesis by (simp add: field_def)
qed

lemma field_put_other:
  assumes "off + length src \<le> length b" "off' + n \<le> off \<or> off + length src \<le> off'"
  shows "field n (put b off src) off' = field n b off'"
proof -
  have "get_range (put b off src) off' (off' + n) = get_range b off' (off' + n)"
    by (rule get_put_other [OF put_Some [OF assms(1)] assms(2)])
  then show ?thesis by (simp add: field_def add64_def)
qed

lemma r8_put: "off + length src \<le> length b \<Longrightarrow> i < off \<or> off + length src \<le> i \<Longrightarrow> r8 (put b off src) i = r8 b i"
  by (auto simp: r8_def get_opt_def nth_put)

lemma r8_put_same: "off < length b \<Longrightarrow> r8 (put b off [x]) off = Some x"
  by (auto simp: r8_def get_opt_def nth_put)

lemma r32_put_other:
  "off + length src \<le> length b \<Longrightarrow> off' + 4 \<le> off \<or> off + length src \<le> off' \<Longrightarrow> r32 (put b off src) off' = r32 b off'"
  by (simp add: r32_def field_put_other)

lemma r64_put_other:
  "off + length src \<le> length b \<Longrightarrow> off' + 8 \<le> off \<or> off + length src \<le> off' \<Longrightarrow> r64 (put b off src) off' = r64 b off'"
  by (simp add: r64_def field_put_other)

lemma r32_w32: "off + 4 \<le> length b \<Longrightarrow> off + 4 < 2 ^ 64 \<Longrightarrow> v < 2 ^ 32 \<Longrightarrow> r32 (w32 b off v) off = Some v"
  using le_nat_to_le_id [of v 4] by (simp add: r32_def w32_def field_put_same)

lemma r64_w64: "off + 8 \<le> length b \<Longrightarrow> off + 8 < 2 ^ 64 \<Longrightarrow> v < 2 ^ 64 \<Longrightarrow> r64 (w64 b off v) off = Some v"
  using le_nat_to_le_id [of v 8] by (simp add: r64_def w64_def field_put_same)

section \<open>MBR\<close>

lemma mbr_entry_off_eq: "i < 4 \<Longrightarrow> mbr_entry_off i = Some (446 + 16 * i)"
  by (simp add: mbr_entry_off_def mul64_def add64_def MBR_ENTRY_LEN_def MBR_PART_OFF_def)

lemma mbr_entry_eq:
  assumes "i < 4"
  shows "mbr_entry s i = do {
     sys \<leftarrow> r8 s (450 + 16 * i);
     start \<leftarrow> r32 s (454 + 16 * i);
     cnt \<leftarrow> r32 s (458 + 16 * i);
     Some (sys, start, cnt) }"
  using assms by (simp add: mbr_entry_def mbr_entry_off_eq add64_def)

lemma put_mbr_entry_eq:
  "i < 4 \<Longrightarrow> put_mbr_entry s i sys start cnt =
   w32 (w32 (put (put s (446 + 16 * i) [0]) (450 + 16 * i) [sys]) (454 + 16 * i) start) (458 + 16 * i) cnt"
  by (simp add: put_mbr_entry_def mbr_entry_off_eq add64_def Let_def)

lemma length_put_mbr_entry: "i < 4 \<Longrightarrow> length (put_mbr_entry s i sys start cnt) = length s"
  by (simp add: put_mbr_entry_eq w32_def)

lemma mbr_entry_same:
  assumes "length s = 512" "i < 4" "start < 2 ^ 32" "cnt < 2 ^ 32"
  shows "mbr_entry (put_mbr_entry s i sys start cnt) i = Some (sys, start, cnt)"
proof -
  let ?a = "put (put s (446 + 16 * i) [0]) (450 + 16 * i) [sys]"
  let ?b = "w32 ?a (454 + 16 * i) start" and ?c = "w32 (w32 ?a (454 + 16 * i) start) (458 + 16 * i) cnt"
  have "r8 ?c (450 + 16 * i) = r8 ?a (450 + 16 * i)" unfolding w32_def using assms by (simp add: r8_put)
  also have "\<dots> = Some sys" using assms by (simp add: r8_put_same)
  finally have 1: "r8 ?c (450 + 16 * i) = Some sys" .
  have "r32 ?c (454 + 16 * i) = r32 ?b (454 + 16 * i)" unfolding w32_def using assms by (simp add: r32_put_other)
  also have "\<dots> = Some start" using assms by (intro r32_w32) simp_all
  finally have 2: "r32 ?c (454 + 16 * i) = Some start" .
  have "r32 ?c (458 + 16 * i) = Some cnt" using assms by (intro r32_w32) (simp_all add: w32_def)
  with 1 2 show ?thesis unfolding mbr_entry_eq [OF assms(2)] put_mbr_entry_eq [OF assms(2)] by simp
qed

lemma mbr_entry_put_other:
  assumes "j < 4" "off + length src \<le> length s" "458 + 16 * j + 4 \<le> off \<or> off + length src \<le> 446 + 16 * j"
  shows "mbr_entry (put s off src) j = mbr_entry s j"
  using assms by (auto simp: mbr_entry_eq r8_put r32_put_other)

lemma mbr_entry_other:
  assumes "length s = 512" "i < 4" "j < 4" "i \<noteq> j"
  shows "mbr_entry (put_mbr_entry s i sys start cnt) j = mbr_entry s j"
proof -
  have d: "16 * i + 16 \<le> 16 * j \<or> 16 * j + 16 \<le> 16 * i" using assms(4) by linarith
  show ?thesis
    unfolding put_mbr_entry_eq [OF assms(2)] w32_def using assms(1-3) d
    by (subst mbr_entry_put_other; auto)+
qed

text \<open>The sector of four slots: an empty slot reads as zeros.\<close>

definition slot_seen :: "u8 \<times> nat \<times> nat \<Rightarrow> u8 \<times> nat \<times> nat" where
  "slot_seen = (\<lambda>(sys, start, cnt). if sys \<noteq> 0 \<and> cnt \<noteq> 0 then (sys, start, cnt) else (0, 0, 0))"

definition slot_fits :: "u8 \<times> nat \<times> nat \<Rightarrow> bool" where
  "slot_fits = (\<lambda>(sys, start, cnt). start < 2 ^ 32 \<and> cnt < 2 ^ 32)"

definition put_slot :: "nat \<Rightarrow> u8 \<times> nat \<times> nat \<Rightarrow> u8 list \<Rightarrow> u8 list" where
  "put_slot i = (\<lambda>(sys, start, cnt) s. if sys \<noteq> 0 \<and> cnt \<noteq> 0 then put_mbr_entry s i sys start cnt else s)"

lemma put_slot_same:
  "length s = 512 \<Longrightarrow> i < 4 \<Longrightarrow> slot_fits a \<Longrightarrow> mbr_entry s i = Some (0, 0, 0) \<Longrightarrow> mbr_entry (put_slot i a s) i = Some (slot_seen a)"
  by (cases a) (simp add: put_slot_def slot_seen_def slot_fits_def mbr_entry_same)

lemma put_slot_other:
  "length s = 512 \<Longrightarrow> i < 4 \<Longrightarrow> j < 4 \<Longrightarrow> i \<noteq> j \<Longrightarrow> mbr_entry (put_slot i a s) j = mbr_entry s j"
  by (cases a) (simp add: put_slot_def mbr_entry_other)

lemma length_put_slot: "i < 4 \<Longrightarrow> length (put_slot i a s) = length s"
  by (cases a) (simp add: put_slot_def length_put_mbr_entry)

lemma le_nat_zeros: "le_nat (replicate n 0) = 0"
  by (induction n) simp_all

lemma mbr_entry_zero: "i < 4 \<Longrightarrow> mbr_entry (replicate 512 0) i = Some (0, 0, 0)"
  by (simp add: mbr_entry_eq r8_def r32_def field_def get_opt_def get_range_def add64_def le_nat_zeros min_def)

lemma field_append: "off + n \<le> length s \<Longrightarrow> field n (s @ rest) off = field n s off"
  by (simp add: field_def get_range_def add64_def)

lemma mbr_entry_append: "512 \<le> length s \<Longrightarrow> i < 4 \<Longrightarrow> mbr_entry (s @ rest) i = mbr_entry s i"
  by (simp add: mbr_entry_eq r8_def r32_def get_opt_def field_append nth_append)

lemma pack_mbr_eq:
  assumes "512 \<le> length buf"
  shows "pack_mbr buf [a, b, c, d] =
    put (put_slot 3 d (put_slot 2 c (put_slot 1 b (put_slot 0 a (replicate 512 0))))) 510 [0x55, 0xAA] @ drop 512 buf"
proof -
  have e: "enumerate 0 [a, b, c, d] = [(0, a), (1, b), (2, c), (3, d)]" by (simp add: numeral_2_eq_2 numeral_3_eq_3)
  have f: "(\<lambda>(i, sys, start, cnt) s. if sys \<noteq> 0 \<and> cnt \<noteq> 0 then put_mbr_entry s i sys start cnt else s) = (\<lambda>(i, p). put_slot i p)"
    by (auto simp: put_slot_def fun_eq_iff)
  show ?thesis unfolding pack_mbr_def f e using assms by (simp add: MBR_SIG_OFF_def)
qed

lemma pack_mbr_reads:
  assumes "512 \<le> length buf" "slot_fits a" "slot_fits b" "slot_fits c" "slot_fits d"
  shows "has_mbr_sig (pack_mbr buf [a, b, c, d])"
    "mbr_entry (pack_mbr buf [a, b, c, d]) 0 = Some (slot_seen a)" "mbr_entry (pack_mbr buf [a, b, c, d]) 1 = Some (slot_seen b)"
    "mbr_entry (pack_mbr buf [a, b, c, d]) 2 = Some (slot_seen c)" "mbr_entry (pack_mbr buf [a, b, c, d]) 3 = Some (slot_seen d)"
proof -
  let ?z = "replicate 512 (0 :: u8)"
  let ?s = "put_slot 3 d (put_slot 2 c (put_slot 1 b (put_slot 0 a ?z)))"
  let ?p = "pack_mbr buf [a, b, c, d]"
  have l: "length ?s = 512" by (simp add: length_put_slot)
  have "field 2 (put ?s 510 [0x55, 0xAA]) 510 = Some [0x55, 0xAA]" using l by (intro field_put_same) simp_all
  then show "has_mbr_sig ?p" unfolding has_mbr_sig_def pack_mbr_eq [OF assms(1)] MBR_SIG_OFF_def by (simp add: field_append length_put_slot)
  have e: "mbr_entry ?p i = mbr_entry ?s i" if "i < 4" for i
  proof -
    have "mbr_entry ?p i = mbr_entry (put ?s 510 [0x55, 0xAA]) i"
      unfolding pack_mbr_eq [OF assms(1)] using that l by (intro mbr_entry_append) simp_all
    also have "\<dots> = mbr_entry ?s i" using that l by (intro mbr_entry_put_other) auto
    finally show ?thesis .
  qed
  show "mbr_entry ?p 0 = Some (slot_seen a)" "mbr_entry ?p 1 = Some (slot_seen b)"
    "mbr_entry ?p 2 = Some (slot_seen c)" "mbr_entry ?p 3 = Some (slot_seen d)"
    using assms(2-5) by (simp_all add: e put_slot_other put_slot_same length_put_slot mbr_entry_zero)
qed

text \<open>With no extended entry, the partitions are the slots that lie within the disk.\<close>

definition slot_plain :: "u8 \<times> nat \<times> nat \<Rightarrow> bool" where
  "slot_plain = (\<lambda>(sys, start, cnt). \<not> is_extended sys \<and> sys \<noteq> MBR_PROTECTIVE)"

fun slot_parts :: "nat \<Rightarrow> nat \<Rightarrow> (u8 \<times> nat \<times> nat) list \<Rightarrow> part list" where
  "slot_parts nsectors slot [] = []"
| "slot_parts nsectors slot ((sys, start, cnt) # ps) =
     (if sys \<noteq> 0 \<and> cnt \<noteq> 0 \<and> start + cnt \<le> nsectors
      then [\<lparr>pt_index = slot, pt_start_lba = start, pt_nsectors = cnt, pt_kind = KMbr sys\<rparr>] else []) @
     slot_parts nsectors (slot + 1) ps"

lemma mbr_slots_plain:
  "\<forall>p \<in> set ps. slot_plain p \<and> slot_fits p \<Longrightarrow> length (tb_parts t) = MAX_PARTS \<Longrightarrow> tb_n t + length ps \<le> MAX_PARTS \<Longrightarrow> nsectors < 2 ^ 64 \<Longrightarrow>
   tb_list (mbr_slots read nsectors ps slot t l) = tb_list t @ slot_parts nsectors slot ps \<and>
   tb_origin (mbr_slots read nsectors ps slot t l) = tb_origin t"
proof (induction ps arbitrary: slot t)
  case (Cons p ps)
  obtain sys start cnt where p: "p = (sys, start, cnt)" by (cases p)
  have pl: "\<not> is_extended sys" "sys \<noteq> MBR_PROTECTIVE" "start < 2 ^ 32" "cnt < 2 ^ 32"
    using Cons.prems(1) p by (auto simp: slot_plain_def slot_fits_def)
  then have a: "add64 start cnt = Some (start + cnt)" by (simp add: add64_def)
  let ?q = "\<lparr>pt_index = slot, pt_start_lba = start, pt_nsectors = cnt, pt_kind = KMbr sys\<rparr>"
  show ?case
  proof (cases "sys \<noteq> 0 \<and> cnt \<noteq> 0 \<and> start + cnt \<le> nsectors")
    case False
    have "mbr_slots read nsectors (p # ps) slot t l = mbr_slots read nsectors ps (slot + 1) t l"
      using False p pl a by (auto simp: not_le)
    moreover have "tb_list (mbr_slots read nsectors ps (slot + 1) t l) = tb_list t @ slot_parts nsectors (slot + 1) ps \<and>
      tb_origin (mbr_slots read nsectors ps (slot + 1) t l) = tb_origin t"
      using Cons.prems by (intro Cons.IH) auto
    ultimately show ?thesis using False p by auto
  next
    case True
    let ?t = "t\<lparr>tb_parts := (tb_parts t)[tb_n t := ?q], tb_n := tb_n t + 1\<rparr>"
    have room: "tb_n t < length (tb_parts t)" "length (tb_parts t) = MAX_PARTS"
      using Cons.prems(2,3) by simp_all
    have st: "mbr_slots read nsectors (p # ps) slot t l = mbr_slots read nsectors ps (slot + 1) ?t l"
      using True p pl a room by (simp add: push_part_def)
    have tl: "tb_list ?t = tb_list t @ [?q]" using room by simp
    have "tb_list (mbr_slots read nsectors ps (slot + 1) ?t l) = tb_list ?t @ slot_parts nsectors (slot + 1) ps \<and>
      tb_origin (mbr_slots read nsectors ps (slot + 1) ?t l) = tb_origin ?t"
      using Cons.prems room by (intro Cons.IH) auto
    then show ?thesis unfolding st tl using True p by simp
  qed
qed simp

lemma slot_seen_plain: "slot_plain a \<Longrightarrow> slot_plain (slot_seen a)" "slot_fits a \<Longrightarrow> slot_fits (slot_seen a)"
  by (auto simp: slot_seen_def slot_plain_def slot_fits_def is_extended_def MBR_EXTENDED_def MBR_EXTENDED_LBA_def
      MBR_LINUX_EXTENDED_def MBR_PROTECTIVE_def split: prod.splits)

lemma slot_parts_seen: "slot_parts nsectors slot (map slot_seen ps) = slot_parts nsectors slot ps"
  by (induction nsectors slot ps rule: slot_parts.induct) (auto simp: slot_seen_def)

lemma mbr_roundtrip:
  assumes "512 \<le> length buf" "\<forall>p \<in> {a, b, c, d}. slot_plain p \<and> slot_fits p" "read 0 = Some (pack_mbr buf [a, b, c, d])"
    "0 < nsectors" "nsectors < 2 ^ 64" "0 < bs" "bs \<le> bl"
  shows "\<exists>t. part_parse nsectors bs read bl sl = Inr t \<and> tb_origin t = OMbr \<and> tb_list t = slot_parts nsectors 1 [a, b, c, d]"
proof -
  let ?s = "pack_mbr buf [a, b, c, d]" and ?ps = "map slot_seen [a, b, c, d]"
  have R: "has_mbr_sig ?s" "mbr_entry ?s 0 = Some (slot_seen a)" "mbr_entry ?s 1 = Some (slot_seen b)"
    "mbr_entry ?s 2 = Some (slot_seen c)" "mbr_entry ?s 3 = Some (slot_seen d)"
    using pack_mbr_reads [OF assms(1), of a b c d] assms(2) by blast+
  have ps: "\<forall>p \<in> set ?ps. slot_plain p \<and> slot_fits p" using assms(2) slot_seen_plain by auto
  have np: "fst (slot_seen p) \<noteq> MBR_PROTECTIVE" if "p \<in> {a, b, c, d}" for p
    using ps that by (auto simp: slot_plain_def split: prod.splits)
  have u: "[0..<4] = [0, 1, 2, 3 :: nat]" by (simp add: upt_rec)
  have prot: "\<not> list_ex (\<lambda>i. case mbr_entry ?s i of Some (sys, _, _) \<Rightarrow> sys = MBR_PROTECTIVE | None \<Rightarrow> False) [0..<4]"
    unfolding u using R(2-5) np [of a] np [of b] np [of c] np [of d] by (auto split: prod.splits)
  let ?t = "mbr_slots read nsectors ?ps 1 (tb_empty OMbr) 0"
  have "parse_mbr read nsectors ?s = Inr ?t"
    unfolding parse_mbr_def using R(2-5) by simp
  then have "part_parse nsectors bs read bl sl = Inr ?t"
    unfolding part_parse_def using assms(3,4,6,7) R(1) prot by (simp add: Let_def)
  moreover have "tb_list ?t = tb_list (tb_empty OMbr) @ slot_parts nsectors 1 ?ps \<and> tb_origin ?t = tb_origin (tb_empty OMbr)"
    using ps assms(5) by (intro mbr_slots_plain) (auto simp: tb_empty_def MAX_PARTS_def)
  then have "tb_list ?t = slot_parts nsectors 1 [a, b, c, d] \<and> tb_origin ?t = OMbr"
    unfolding slot_parts_seen by (simp add: tb_empty_def)
  ultimately show ?thesis by blast
qed

section \<open>The GPT header\<close>

definition gpt_raw :: "gpt_header_info \<Rightarrow> u8 list" where
  "gpt_raw h =
     w32 (w32 (w32 (w64 (put (w64 (w64 (w64 (w64 (w32 (w32 (w32 (put (replicate 512 0) 0 GPT_SIG) 8 GPT_REVISION)
       12 GPT_HEADER_SIZE) 16 0) 24 (gh_my_lba h)) 32 (gh_alt_lba h)) 40 (gh_first_usable h)) 48 (gh_last_usable h))
       56 (gh_disk_guid h)) 72 (gh_part_lba h)) 80 (gh_part_count h)) 84 (gh_part_size h)) 88 (gh_entries_crc h)"

definition header_fits :: "gpt_header_info \<Rightarrow> bool" where
  "header_fits h \<longleftrightarrow> gh_my_lba h < 2 ^ 64 \<and> gh_part_lba h < 2 ^ 64 \<and> gh_part_count h < 2 ^ 32 \<and> gh_part_size h < 2 ^ 32 \<and>
     gh_entries_crc h < 2 ^ 32 \<and> length (gh_disk_guid h) = 16"

lemma length_w [simp]: "length (w32 b off v) = length b" "length (w64 b off v) = length b"
  by (simp_all add: w32_def w64_def)

lemma length_gpt_raw [simp]: "length (gpt_raw h) = 512"
  by (simp add: gpt_raw_def)

lemma r32_w_other:
  "off + 4 \<le> length b \<Longrightarrow> off' + 4 \<le> off \<or> off + 4 \<le> off' \<Longrightarrow> r32 (w32 b off v) off' = r32 b off'"
  "off + 8 \<le> length b \<Longrightarrow> off' + 4 \<le> off \<or> off + 8 \<le> off' \<Longrightarrow> r32 (w64 b off v) off' = r32 b off'"
  by (simp_all add: w32_def w64_def r32_put_other)

lemma r64_w_other:
  "off + 4 \<le> length b \<Longrightarrow> off' + 8 \<le> off \<or> off + 4 \<le> off' \<Longrightarrow> r64 (w32 b off v) off' = r64 b off'"
  "off + 8 \<le> length b \<Longrightarrow> off' + 8 \<le> off \<or> off + 8 \<le> off' \<Longrightarrow> r64 (w64 b off v) off' = r64 b off'"
  by (simp_all add: w32_def w64_def r64_put_other)

lemma field_w_other:
  "off + 4 \<le> length b \<Longrightarrow> off' + n \<le> off \<or> off + 4 \<le> off' \<Longrightarrow> field n (w32 b off v) off' = field n b off'"
  "off + 8 \<le> length b \<Longrightarrow> off' + n \<le> off \<or> off + 8 \<le> off' \<Longrightarrow> field n (w64 b off v) off' = field n b off'"
  by (simp_all add: w32_def w64_def field_put_other)

lemmas w_other = r32_w_other r64_w_other field_w_other r32_put_other r64_put_other field_put_other

lemma to_le_0: "to_le n 0 = replicate n 0"
  by (induction n) simp_all

lemma gpt_raw_fields:
  assumes "header_fits h"
  shows "field 8 (gpt_raw h) 0 = Some GPT_SIG" "r32 (gpt_raw h) 12 = Some GPT_HEADER_SIZE" "field 4 (gpt_raw h) 16 = Some (replicate 4 0)"
    "r64 (gpt_raw h) 24 = Some (gh_my_lba h)" "r64 (gpt_raw h) 72 = Some (gh_part_lba h)" "r32 (gpt_raw h) 80 = Some (gh_part_count h)"
    "r32 (gpt_raw h) 84 = Some (gh_part_size h)" "r32 (gpt_raw h) 88 = Some (gh_entries_crc h)"
proof -
  have g: "length (gh_disk_guid h) = 16" "length GPT_SIG = 8" using assms by (simp_all add: header_fits_def GPT_SIG_def)
  show "field 8 (gpt_raw h) 0 = Some GPT_SIG" unfolding gpt_raw_def using g by (simp add: w_other field_put_same)
  show "r32 (gpt_raw h) 12 = Some GPT_HEADER_SIZE"
    unfolding gpt_raw_def using g by (simp add: w_other r32_w32 GPT_HEADER_SIZE_def)
  show "field 4 (gpt_raw h) 16 = Some (replicate 4 0)"
    unfolding gpt_raw_def using g by (simp add: w_other) (simp add: w32_def field_put_same to_le_0)
  show "r64 (gpt_raw h) 24 = Some (gh_my_lba h)" "r64 (gpt_raw h) 72 = Some (gh_part_lba h)" "r32 (gpt_raw h) 80 = Some (gh_part_count h)"
    "r32 (gpt_raw h) 84 = Some (gh_part_size h)" "r32 (gpt_raw h) 88 = Some (gh_entries_crc h)"
    using assms g unfolding gpt_raw_def header_fits_def by (simp_all add: w_other r32_w32 r64_w64)
qed

lemma if_Some_False: "(if c then Some False else x) = Some True \<longleftrightarrow> \<not> c \<and> x = Some True"
  by simp

lemma header_ok_iff:
  "header_ok sec nsectors \<longleftrightarrow> field 8 sec 0 = Some GPT_SIG \<and>
    (\<exists>sz. r32 sec 12 = Some sz \<and> 92 \<le> sz \<and> sz \<le> 512 \<and> sz \<le> length sec \<and>
      r32 sec 16 = Some (unat (crc32_ieee (w32 (take sz sec) 16 0)))) \<and>
    (\<exists>my. r64 sec 24 = Some my \<and> my < nsectors) \<and> r32 sec 84 = Some 128 \<and> (\<exists>n. r32 sec 80 = Some n \<and> 0 < n \<and> n \<le> 128)"
proof -
  have "header_ok sec nsectors \<longleftrightarrow> header_fields_ok sec nsectors = Some True"
    by (cases "header_fields_ok sec nsectors") (simp_all add: header_ok_def)
  also have "\<dots> \<longleftrightarrow> field 8 sec 0 = Some GPT_SIG \<and>
    (\<exists>sz. r32 sec 12 = Some sz \<and> \<not> sz < 92 \<and> (\<exists>st. r32 sec 16 = Some st \<and> sz \<le> 512 \<and> sz \<le> length sec \<and>
      unat (crc32_ieee (w32 (take sz sec) 16 0)) = st)) \<and>
    (\<exists>my. r64 sec 24 = Some my \<and> \<not> nsectors \<le> my) \<and> (\<exists>psz. r32 sec 84 = Some psz \<and> (\<exists>n. r32 sec 80 = Some n \<and> psz = 128 \<and> 0 < n \<and> n \<le> 128))"
    unfolding header_fields_ok_def GPT_HEADER_SIZE_def GPT_ENTRY_SIZE_def Let_def
    by (simp only: bind_eq_Some_conv if_Some_False get_range_Some length_replicate drop_0 diff_zero option.inject eq_True) fast
  finally show ?thesis by (simp only: not_less not_le) fast
qed

lemma put_take:
  "off + length src \<le> n \<Longrightarrow> n \<le> length b \<Longrightarrow> put (take n b) off src = take n (put b off src)"
  by (rule nth_equalityI) (auto simp: nth_put)

lemma put_update:
  "i < off \<or> off + length src \<le> i \<Longrightarrow> off + length src \<le> length s \<Longrightarrow> put (s[i := b]) off src = (put s off src)[i := b]"
proof (rule nth_equalityI)
  fix k
  assume "i < off \<or> off + length src \<le> i" "off + length src \<le> length s" "k < length (put (s[i := b]) off src)"
  then show "put (s[i := b]) off src ! k = (put s off src)[i := b] ! k"
    by (cases "k = i") (auto simp: nth_put)
qed simp

lemma put_put: "length x = length y \<Longrightarrow> off + length y \<le> length b \<Longrightarrow> put (put b off x) off y = put b off y"
  by (rule nth_equalityI) (auto simp: nth_put)

lemma put_field: "field n b off = Some x \<Longrightarrow> put b off x = b"
  by (rule nth_equalityI) (auto simp: field_def get_range_Some rust_Some bind_eq_Some_conv nth_put)

lemma pack_gpt_header_eq:
  "512 \<le> length buf \<Longrightarrow> pack_gpt_header buf h = w32 (gpt_raw h) 16 (unat (crc32_ieee (take 92 (gpt_raw h)))) @ drop 512 buf"
  unfolding pack_gpt_header_def gpt_raw_def [symmetric] Let_def by (simp add: get_range_def GPT_HEADER_SIZE_def)

text \<open>Fields of the first 512 bytes do not see the rest of the buffer.\<close>

lemma r_append: "off + 4 \<le> length s \<Longrightarrow> r32 (s @ rest) off = r32 s off" "off + 8 \<le> length s \<Longrightarrow> r64 (s @ rest) off = r64 s off"
  by (simp_all add: r32_def r64_def field_append)

lemma unat_crc_less: "unat (c :: u32) < 2 ^ 32"
  using unsigned_less [of c] by simp

lemma gpt_header_roundtrip:
  assumes "512 \<le> length buf" "header_fits h"
  defines "sec \<equiv> pack_gpt_header buf h"
  shows "header_ok sec nsectors \<longleftrightarrow> gh_my_lba h < nsectors \<and> gh_part_size h = 128 \<and> 0 < gh_part_count h \<and> gh_part_count h \<le> 128"
    "r64 sec 72 = Some (gh_part_lba h)" "r32 sec 80 = Some (gh_part_count h)" "r32 sec 88 = Some (gh_entries_crc h)"
proof -
  note F = gpt_raw_fields [OF assms(2)]
  define c where "c = unat (crc32_ieee (take 92 (gpt_raw h)))"
  have c: "c < 2 ^ 32" unfolding c_def by (rule unat_crc_less)
  have sec: "sec = w32 (gpt_raw h) 16 c @ drop 512 buf" unfolding sec_def c_def by (rule pack_gpt_header_eq [OF assms(1)])
  have f: "field 8 sec 0 = Some GPT_SIG" "r32 sec 12 = Some 92" "r32 sec 16 = Some c" "r64 sec 24 = Some (gh_my_lba h)"
    "r64 sec 72 = Some (gh_part_lba h)" "r32 sec 80 = Some (gh_part_count h)" "r32 sec 84 = Some (gh_part_size h)"
    "r32 sec 88 = Some (gh_entries_crc h)"
    unfolding sec using F c by (simp_all add: field_append r_append w_other r32_w32 GPT_HEADER_SIZE_def)
  have "w32 (take 92 sec) 16 0 = take 92 (gpt_raw h)"
  proof -
    have "take 92 sec = take 92 (w32 (gpt_raw h) 16 c)" unfolding sec by simp
    then have "w32 (take 92 sec) 16 0 = take 92 (put (put (gpt_raw h) 16 (to_le 4 c)) 16 (to_le 4 0))"
      by (simp add: w32_def put_take)
    also have "put (put (gpt_raw h) 16 (to_le 4 c)) 16 (to_le 4 0) = put (gpt_raw h) 16 (to_le 4 0)" by (simp add: put_put)
    also have "\<dots> = gpt_raw h" using put_field [OF F(3)] by (simp add: to_le_0)
    finally show ?thesis .
  qed
  then have "r32 sec 16 = Some (unat (crc32_ieee (w32 (take 92 sec) 16 0)))" using f(3) by (simp add: c_def)
  moreover have "length sec \<ge> 512" unfolding sec by simp
  ultimately show "header_ok sec nsectors \<longleftrightarrow> gh_my_lba h < nsectors \<and> gh_part_size h = 128 \<and> 0 < gh_part_count h \<and> gh_part_count h \<le> 128"
    unfolding header_ok_iff using f(1,2,4,6,7) by auto
  show "r64 sec 72 = Some (gh_part_lba h)" "r32 sec 80 = Some (gh_part_count h)" "r32 sec 88 = Some (gh_entries_crc h)"
    using f by simp_all
qed

section \<open>Damage\<close>

lemma le_nat_inj: "le_nat xs = le_nat ys \<Longrightarrow> length xs = length ys \<Longrightarrow> xs = ys"
  by (metis to_le_le_nat)

lemma field_update_other:
  assumes "i < off \<or> off + n \<le> i"
  shows "field n (s[i := b]) off = field n s off"
proof -
  have "get_range (s[i := b]) off (off + n) = get_range s off (off + n)"
    using assms by (intro get_range_eqI) (auto simp: nth_list_update)
  then show ?thesis by (simp add: field_def add64_def)
qed

lemma field_update_in:
  assumes "field n s off = Some x" "off \<le> i" "i < off + n"
  shows "field n (s[i := b]) off = Some (x[i - off := b])"
  using assms by (auto simp: field_def get_range_Some rust_Some bind_eq_Some_conv drop_update_swap take_update_swap)

lemma field_nth:
  assumes "field n s off = Some x" "off \<le> i" "i < off + n"
  shows "x ! (i - off) = s ! i" "length x = n"
  using assms by (auto simp: field_def get_range_Some rust_Some bind_eq_Some_conv)

lemma gpt_damage:
  assumes "header_ok sec nsectors" "r32 sec 12 = Some sz" "i < sz" "i < 12 \<or> 16 \<le> i" "b \<noteq> sec ! i"
  shows "\<not> header_ok (sec[i := b]) nsectors"
proof
  let ?s = "sec[i := b]"
  assume ok: "header_ok ?s nsectors"
  have sz: "92 \<le> sz" "sz \<le> length sec" and st: "r32 sec 16 = Some (unat (crc32_ieee (w32 (take sz sec) 16 0)))"
    using assms(1,2) unfolding header_ok_iff by auto
  have "r32 ?s 12 = Some sz" using assms(2,4) field_update_other [of i 12 4 sec b] by (auto simp: r32_def)
  then have st': "r32 ?s 16 = Some (unat (crc32_ieee (w32 (take sz ?s) 16 0)))" using ok unfolding header_ok_iff by auto
  show False
  proof (cases "16 \<le> i \<and> i < 20")
    case True
    have same: "w32 (take sz ?s) 16 0 = w32 (take sz sec) 16 0"
      unfolding w32_def using sz True by (intro nth_equalityI) (auto simp: nth_put nth_list_update)
    obtain x where x: "field 4 sec 16 = Some x" using st by (auto simp: r32_def)
    have fx: "x ! (i - 16) = sec ! i" "length x = 4" using field_nth [OF x, of i] True by simp_all
    have "i - 16 < length x" using fx(2) True by linarith
    then have "x[i - 16 := b] ! (i - 16) = b" by simp
    then have "x[i - 16 := b] \<noteq> x" using fx(1) assms(5) by auto
    moreover have "field 4 ?s 16 = Some (x[i - 16 := b])" using True by (intro field_update_in [OF x]) simp_all
    then have "le_nat (x[i - 16 := b]) = le_nat x" using st st' x same by (simp add: r32_def)
    ultimately show False using le_nat_inj [of "x[i - 16 := b]" x] by simp
  next
    case False
    have "r32 ?s 16 = r32 sec 16" using False field_update_other [of i 16 4 sec b] by (auto simp: r32_def)
    then have "unat (crc32_ieee (w32 (take sz ?s) 16 0)) = unat (crc32_ieee (w32 (take sz sec) 16 0))" using st st' by simp
    then have c: "crc32_ieee (w32 (take sz ?s) 16 0) = crc32_ieee (w32 (take sz sec) 16 0)" by (simp only: word_unat_eq_iff)
    have out: "i < 16 \<or> 20 \<le> i" using False by linarith
    then have "w32 (take sz ?s) 16 0 = (w32 (take sz sec) 16 0)[i := b]"
      unfolding w32_def take_update_swap using sz by (intro put_update) simp_all
    moreover have "(w32 (take sz sec) 16 0) ! i = sec ! i"
      unfolding w32_def using sz out assms(3) by (subst nth_put) auto
    ultimately show False using crc32_byte_change [of i "w32 (take sz sec) 16 0" b] c assms(3,5) sz by simp
  qed
qed

end
