(* ===== verification/Part_Props.thy ===== *)
theory Part_Props
  imports Part_Pack
begin

text \<open>
  The properties of the partition tables: what an accepted table satisfies, that the packers' sectors read back, and
  what happens when the primary GPT header is damaged.
\<close>

text \<open>A disk whose first sector has one Linux partition, and a GPT header for a disk of 4096 sectors.\<close>

definition demo_mbr :: "u8 list" where
  "demo_mbr = pack_mbr (replicate 512 0) [(0x83, 2048, 1000), (0, 0, 0), (0, 0, 0), (0, 0, 0)]"

definition demo_header :: gpt_header_info where
  "demo_header = \<lparr>gh_my_lba = 1, gh_alt_lba = 4095, gh_first_usable = 34, gh_last_usable = 4062,
     gh_disk_guid = replicate 16 9, gh_part_lba = 2, gh_part_count = 128, gh_part_size = 128, gh_entries_crc = 0\<rparr>"

definition demo_gpt :: "u8 list" where
  "demo_gpt = pack_gpt_header (replicate 512 0) demo_header"


lemma demo_plain: "\<forall>p \<in> {(0x83, 2048, 1000), (0, 0, 0), (0, 0, 0), (0 :: u8, 0, 0)}. slot_plain p \<and> slot_fits p"
  by (simp add: slot_plain_def slot_fits_def is_extended_def MBR_EXTENDED_def MBR_EXTENDED_LBA_def MBR_LINUX_EXTENDED_def
      MBR_PROTECTIVE_def)


text \<open>
  C6: Whatever a device returns, an accepted partition table has at most \<open>MAX_PARTS\<close> partitions, each of at least one
  sector and within the disk, no two with the same number; and a request on a partition that \<open>map_child_lba\<close> accepts is a
  request within that partition's sectors of the disk.
\<close>

theorem part_table_in_bounds:
  assumes "part_parse nsectors bs read bl sl = Inr t" "nsectors < 2 ^ 64 - 1"
  shows "tb_n t \<le> MAX_PARTS \<and> distinct (map pt_index (tb_list t)) \<and>
    (\<forall>p \<in> set (tb_list t). 0 < pt_nsectors p \<and> pt_start_lba p + pt_nsectors p \<le> nsectors \<and>
      (\<forall>lba cnt q. map_child_lba (pt_start_lba p) (pt_nsectors p) lba cnt = Inr q \<longrightarrow>
        0 < cnt \<and> pt_start_lba p \<le> q \<and> q + cnt \<le> pt_start_lba p + pt_nsectors p))"
proof -
  have "table_ok nsectors t" by (rule part_parse_ok [OF assms])
  then show ?thesis
    by (auto simp: table_ok_def part_ok_def map_child_lba_def bindE_eq_Inr rust_Some split: if_splits)
qed

theorem part_table_in_bounds_witness:
  "\<exists>t. part_parse 4096 512 (\<lambda>_. Some demo_mbr) 512 0 = Inr t \<and> tb_n t \<le> MAX_PARTS"
proof -
  obtain t where t: "part_parse 4096 512 (\<lambda>_. Some demo_mbr) 512 0 = Inr t"
    using mbr_roundtrip [OF _ demo_plain, of "replicate 512 0" "\<lambda>_. Some demo_mbr" 4096 512 512 0] by (auto simp: demo_mbr_def)
  then show ?thesis using part_table_in_bounds [OF t] by simp
qed



text \<open>
  C9: A GPT header reads back: the sector \<open>pack_gpt_header\<close> makes passes the header check, checksum included, exactly when
  its own LBA is on the disk, its entries have the one size supported and there are between 1 and 128 of them; and the
  fields the parser goes on with are those packed.
\<close>

theorem gpt_header_pack_roundtrip:
  assumes "512 \<le> length buf" "header_fits h"
  shows "(header_ok (pack_gpt_header buf h) nsectors \<longleftrightarrow>
      gh_my_lba h < nsectors \<and> gh_part_size h = 128 \<and> 0 < gh_part_count h \<and> gh_part_count h \<le> 128) \<and>
    r64 (pack_gpt_header buf h) 72 = Some (gh_part_lba h) \<and> r32 (pack_gpt_header buf h) 80 = Some (gh_part_count h) \<and>
    r32 (pack_gpt_header buf h) 88 = Some (gh_entries_crc h)"
  using gpt_header_roundtrip [OF assms] by blast

theorem gpt_header_pack_roundtrip_witness:
  "header_ok demo_gpt 4096 \<and> \<not> header_ok demo_gpt 1 \<and> r64 demo_gpt 72 = Some 2"
proof -
  have "512 \<le> length (replicate 512 (0 :: u8))" "header_fits demo_header" by (simp_all add: header_fits_def demo_header_def)
  note gpt_header_pack_roundtrip [OF this, of 4096] gpt_header_pack_roundtrip [OF this, of 1]
  then show ?thesis by (simp add: demo_gpt_def) (simp add: demo_header_def)
qed



end
