(* ===== verification/Pmm.thy ===== *)
theory Pmm
  imports Bytes Linked
begin

text \<open>
  The physical memory manager of \<open>crates/core/src/mm/pmm.rs\<close>: a buddy allocator whose free lists are linked through the
  free pages themselves. The record \<open>buddy\<close> has the fields of \<open>Buddy\<close>, and \<open>pm_mem\<close> is the memory that holds the
  free-list nodes, by the address \<open>node_ptr\<close> gives. A list walk is a \<open>partial_function\<close>: over a list whose links run in a
  circle it does not return, which is the value \<open>None\<close>.
\<close>

section \<open>Bit counting\<close>

text \<open>\<open>u64::trailing_zeros\<close>, \<open>ilog2\<close> and \<open>next_power_of_two\<close>.\<close>

fun ctz64 :: "nat \<Rightarrow> nat" where
  "ctz64 n = (if n = 0 then 64 else if odd n then 0 else Suc (ctz64 (n div 2)))"

fun ilog2 :: "nat \<Rightarrow> nat" where
  "ilog2 n = (if n < 2 then 0 else Suc (ilog2 (n div 2)))"

definition next_power_of_two :: "nat \<Rightarrow> nat" where
  "next_power_of_two n = (if n \<le> 1 then 1 else 2 * 2 ^ ilog2 (n - 1))"

text \<open>\<open>a << k\<close>: a panic for a shift of the whole width or more.\<close>

definition shl64 :: "nat \<Rightarrow> nat \<Rightarrow> nat option" where
  "shl64 a k = (if k < 64 then Some (push_bit k a mod 2 ^ 64) else None)"

text \<open>\<open>xs.copy_within(lo..hi, dst)\<close>.\<close>

definition copy_within :: "'a list \<Rightarrow> nat \<Rightarrow> nat \<Rightarrow> nat \<Rightarrow> 'a list option" where
  "copy_within xs lo hi dst = (if lo \<le> hi \<and> hi \<le> length xs \<and> dst + (hi - lo) \<le> length xs
     then Some (take dst xs @ take (hi - lo) (drop lo xs) @ drop (dst + (hi - lo)) xs) else None)"

declare ctz64.simps [simp del] ilog2.simps [simp del]

section \<open>Data\<close>

definition PAGE_BITS :: nat where "PAGE_BITS = 12"

definition FRAME_SIZE :: nat where "FRAME_SIZE = push_bit PAGE_BITS 1"

definition MAX_ORDER :: nat where "MAX_ORDER = 10"

definition NULL :: nat where "NULL = 0"

definition TOP_RUNS :: nat where "TOP_RUNS = 16"

text \<open>\<open>PAGE_SIZE << k\<close> for an order \<open>k\<close>, which nothing is shifted out of.\<close>

definition block_size :: "nat \<Rightarrow> nat" where
  "block_size k = push_bit k FRAME_SIZE"

record free_node =
  fn_next :: nat
  fn_prev :: nat

record pmm_stats =
  ps_total_frames :: nat
  ps_free_frames :: nat
  ps_largest :: "nat option"

record buddy =
  pm_heads :: "nat list"
  pm_counts :: "nat list"
  pm_total_frames :: nat
  pm_free_frames :: nat
  pm_hhdm_offset :: nat
  pm_span_lo :: nat
  pm_span_hi :: nat
  pm_runs :: "(nat \<times> nat) list"
  pm_nruns :: nat
  pm_mem :: "nat \<Rightarrow> free_node"

text \<open>The token \<open>Frames\<close> is its field \<open>raw\<close>, the base with the order in the low bits.\<close>

type_synonym frames = nat

definition ORDER_MASK :: nat where "ORDER_MASK = FRAME_SIZE - 1"

definition fr_new :: "nat \<Rightarrow> nat \<Rightarrow> frames" where
  "fr_new base order = base OR order"

definition fr_base :: "frames \<Rightarrow> nat" where
  "fr_base f = and_not64 f ORDER_MASK"

definition fr_order :: "frames \<Rightarrow> nat" where
  "fr_order f = (f AND ORDER_MASK) mod 2 ^ 8"

definition fr_count :: "frames \<Rightarrow> nat option" where
  "fr_count f = shl64 1 (fr_order f)"

definition fr_into_entry :: "frames \<Rightarrow> nat" where
  "fr_into_entry f = fr_base f"

definition fr_from_entry :: "nat \<Rightarrow> nat \<Rightarrow> frames" where
  "fr_from_entry pa order = fr_new pa order"

text \<open>Dropping a token counts its frames as leaked, and panics where debug assertions are on.\<close>

definition fr_drop :: "bool \<Rightarrow> nat \<Rightarrow> frames \<Rightarrow> nat option" where
  "fr_drop debug leaked f = do {
     c \<leftarrow> fr_count f;
     if debug then None else Some ((leaked + c) mod 2 ^ 64) }"

section \<open>Free lists\<close>

definition pm_new :: "nat \<Rightarrow> (nat \<Rightarrow> free_node) \<Rightarrow> buddy" where
  "pm_new hhdm mem = \<lparr>pm_heads = replicate (MAX_ORDER + 1) NULL, pm_counts = replicate (MAX_ORDER + 1) 0, pm_total_frames = 0,
     pm_free_frames = 0, pm_hhdm_offset = hhdm, pm_span_lo = 2 ^ 64 - 1, pm_span_hi = 0,
     pm_runs = replicate TOP_RUNS (0, 0), pm_nruns = 0, pm_mem = mem\<rparr>"

definition pm_align_up :: "nat \<Rightarrow> nat \<Rightarrow> nat option" where
  "pm_align_up x align = do { y \<leftarrow> add64 x align; z \<leftarrow> sub64 y 1; Some (and_not64 z (align - 1)) }"

definition pm_align_down :: "nat \<Rightarrow> nat \<Rightarrow> nat" where
  "pm_align_down x align = and_not64 x (align - 1)"

definition node_ptr :: "buddy \<Rightarrow> nat \<Rightarrow> nat" where
  "node_ptr b phys = (phys + pm_hhdm_offset b) mod 2 ^ 64"

definition node :: "buddy \<Rightarrow> nat \<Rightarrow> free_node" where
  "node b phys = pm_mem b (node_ptr b phys)"

definition set_node :: "buddy \<Rightarrow> nat \<Rightarrow> free_node \<Rightarrow> buddy" where
  "set_node b phys n = b\<lparr>pm_mem := (pm_mem b)(node_ptr b phys := n)\<rparr>"

text \<open>The counters every change of a list keeps.\<close>

definition count_up :: "buddy \<Rightarrow> nat \<Rightarrow> buddy option" where
  "count_up b k = do {
     c \<leftarrow> idx (pm_counts b) k;
     c \<leftarrow> add64 c 1;
     cs \<leftarrow> upd (pm_counts b) k c;
     f \<leftarrow> add64 (pm_free_frames b) (2 ^ k);
     Some (b\<lparr>pm_counts := cs, pm_free_frames := f\<rparr>) }"

definition count_down :: "buddy \<Rightarrow> nat \<Rightarrow> buddy option" where
  "count_down b k = do {
     c \<leftarrow> idx (pm_counts b) k;
     c \<leftarrow> sub64 c 1;
     cs \<leftarrow> upd (pm_counts b) k c;
     f \<leftarrow> sub64 (pm_free_frames b) (2 ^ k);
     Some (b\<lparr>pm_counts := cs, pm_free_frames := f\<rparr>) }"

definition push_free :: "buddy \<Rightarrow> nat \<Rightarrow> nat \<Rightarrow> buddy option" where
  "push_free b phys k = do {
     head \<leftarrow> idx (pm_heads b) k;
     let b = set_node b phys \<lparr>fn_next = head, fn_prev = NULL\<rparr>;
     let b = (if head \<noteq> NULL then set_node b head ((node b head)\<lparr>fn_prev := phys\<rparr>) else b);
     hs \<leftarrow> upd (pm_heads b) k phys;
     count_up (b\<lparr>pm_heads := hs\<rparr>) k }"

definition pop_head :: "buddy \<Rightarrow> nat \<Rightarrow> (nat \<times> buddy) option" where
  "pop_head b k = do {
     head \<leftarrow> idx (pm_heads b) k;
     rassert (head \<noteq> NULL);
     let nxt = fn_next (node b head);
     hs \<leftarrow> upd (pm_heads b) k nxt;
     let b = b\<lparr>pm_heads := hs\<rparr>;
     let b = (if nxt \<noteq> NULL then set_node b nxt ((node b nxt)\<lparr>fn_prev := NULL\<rparr>) else b);
     b \<leftarrow> count_down b k;
     Some (head, b) }"

definition unlink :: "buddy \<Rightarrow> nat \<Rightarrow> nat \<Rightarrow> buddy option" where
  "unlink b phys k = do {
     let prv = fn_prev (node b phys);
     let nxt = fn_next (node b phys);
     b \<leftarrow> (if prv = NULL then do { hs \<leftarrow> upd (pm_heads b) k nxt; Some (b\<lparr>pm_heads := hs\<rparr>) }
           else Some (set_node b prv ((node b prv)\<lparr>fn_next := nxt\<rparr>)));
     let b = (if nxt \<noteq> NULL then set_node b nxt ((node b nxt)\<lparr>fn_prev := prv\<rparr>) else b);
     count_down b k }"

text \<open>The walk of \<open>in_free_list\<close> and of \<open>alloc_constrained\<close>: the first node that satisfies \<open>P\<close>, or \<open>NULL\<close>.\<close>

partial_function (option) find_node :: "buddy \<Rightarrow> (nat \<Rightarrow> bool) \<Rightarrow> nat \<Rightarrow> nat option" where
  "find_node b P cur = (if cur = NULL then Some NULL else if P cur then Some cur
     else find_node b P (fn_next (node b cur)))"

definition in_free_list :: "buddy \<Rightarrow> nat \<Rightarrow> nat \<Rightarrow> bool option" where
  "in_free_list b phys k = do {
     head \<leftarrow> idx (pm_heads b) k;
     found \<leftarrow> find_node b (\<lambda>cur. cur = phys) head;
     Some (found \<noteq> NULL) }"

section \<open>Runs of top-order blocks\<close>

definition add_run :: "buddy \<Rightarrow> nat \<Rightarrow> nat \<Rightarrow> (bool \<times> buddy) option" where
  "add_run b start end =
     (if start \<ge> end then Some (True, b)
      else if 0 < pm_nruns b \<and> pm_nruns b - 1 < length (pm_runs b) \<and> snd (pm_runs b ! (pm_nruns b - 1)) = start
      then Some (True, b\<lparr>pm_runs := (pm_runs b)[pm_nruns b - 1 := (fst (pm_runs b ! (pm_nruns b - 1)), end)]\<rparr>)
      else if pm_nruns b < length (pm_runs b) then do {
        n \<leftarrow> add64 (pm_nruns b) 1;
        Some (True, b\<lparr>pm_runs := (pm_runs b)[pm_nruns b := (start, end)], pm_nruns := n\<rparr>) }
      else Some (False, b))"

definition take_from_run :: "buddy \<Rightarrow> nat \<Rightarrow> nat \<Rightarrow> nat \<Rightarrow> nat \<Rightarrow> buddy option" where
  "take_from_run b i start end blk = do {
     rest \<leftarrow> (if blk = start then do { s \<leftarrow> add64 start (block_size MAX_ORDER); Some (s, end) }
              else do { e \<leftarrow> sub64 end (block_size MAX_ORDER); rassert (blk = e); Some (start, e) });
     b \<leftarrow> (if fst rest < snd rest then do { rs \<leftarrow> upd (pm_runs b) i rest; Some (b\<lparr>pm_runs := rs\<rparr>) }
           else do {
             rs \<leftarrow> copy_within (pm_runs b) (i + 1) (pm_nruns b) i;
             n \<leftarrow> sub64 (pm_nruns b) 1;
             Some (b\<lparr>pm_runs := rs, pm_nruns := n\<rparr>) });
     count_down b MAX_ORDER }"

text \<open>\<open>take_run_block\<close>, from run \<open>i\<close> down; \<open>pick\<close> may itself panic, and its \<open>None\<close> inside passes the run over.\<close>

primrec take_run :: "buddy \<Rightarrow> (nat \<Rightarrow> nat \<Rightarrow> nat option option) \<Rightarrow> nat \<Rightarrow> (nat option \<times> buddy) option" where
  "take_run b pick 0 = Some (None, b)"
| "take_run b pick (Suc i) =
     (case get_opt (pm_runs b) i of
        None \<Rightarrow> take_run b pick i
      | Some (start, end) \<Rightarrow> pick start end \<bind> (\<lambda>blk. case blk of
          None \<Rightarrow> take_run b pick i
        | Some blk \<Rightarrow> do { b \<leftarrow> take_from_run b i start end blk; Some (Some blk, b) }))"

definition take_run_block :: "buddy \<Rightarrow> (nat \<Rightarrow> nat \<Rightarrow> nat option option) \<Rightarrow> (nat option \<times> buddy) option" where
  "take_run_block b pick = take_run b pick (pm_nruns b)"

definition in_run :: "buddy \<Rightarrow> nat \<Rightarrow> bool" where
  "in_run b phys = list_ex (\<lambda>i. case get_opt (pm_runs b) i of Some (start, end) \<Rightarrow> start \<le> phys \<and> phys < end | None \<Rightarrow> False)
     [0..<pm_nruns b]"

primrec covered_from :: "buddy \<Rightarrow> nat \<Rightarrow> nat \<Rightarrow> nat \<Rightarrow> bool option" where
  "covered_from b phys k 0 = Some False"
| "covered_from b phys k (Suc n) = do {
     hit \<leftarrow> in_free_list b (and_not64 phys (block_size k - 1)) k;
     if hit then Some True else covered_from b phys (Suc k) n }"

definition covered_by_free_block :: "buddy \<Rightarrow> nat \<Rightarrow> nat \<Rightarrow> bool option" where
  "covered_by_free_block b phys k = (if in_run b phys then Some True else covered_from b phys k (Suc MAX_ORDER - k))"

section \<open>Operations\<close>

text \<open>The block size \<open>insert_region\<close> takes next at \<open>a\<close>, and its loop.\<close>

definition region_order :: "nat \<Rightarrow> nat \<Rightarrow> nat" where
  "region_order a b = min (min (ctz64 a - PAGE_BITS) (ilog2 ((b - a) div FRAME_SIZE))) MAX_ORDER"

lemma ilog2_le: "0 < n \<Longrightarrow> 2 ^ ilog2 n \<le> n"
proof (induction n rule: ilog2.induct)
  case (1 n)
  show ?case
  proof (cases "n < 2")
    case False
    then have "2 ^ ilog2 (n div 2) \<le> n div 2" using 1 by simp
    then have "2 * 2 ^ ilog2 (n div 2) \<le> n" by linarith
    then show ?thesis using False by (subst ilog2.simps) simp
  qed (use 1 in \<open>simp add: ilog2.simps\<close>)
qed

lemma ilog2_less: "n < 2 ^ Suc (ilog2 n)"
proof (induction n rule: ilog2.induct)
  case (1 n)
  show ?case
  proof (cases "n < 2")
    case False
    then have "n div 2 < 2 ^ Suc (ilog2 (n div 2))" using 1 by simp
    then have "n < 2 * 2 ^ Suc (ilog2 (n div 2))" by linarith
    then show ?thesis using False by (subst ilog2.simps) simp
  qed (simp add: ilog2.simps)
qed

lemma FRAME_SIZE_eq: "FRAME_SIZE = 4096"
  by (simp add: FRAME_SIZE_def PAGE_BITS_def push_bit_eq_mult)

lemma block_size_eq: "block_size k = 4096 * 2 ^ k"
  by (simp add: block_size_def FRAME_SIZE_eq push_bit_eq_mult mult.commute)

lemma region_order_fits:
  assumes "a < b" "4096 dvd a" "4096 dvd b"
  shows "a + block_size (region_order a b) \<le> b"
proof -
  let ?n = "(b - a) div 4096"
  have n: "b - a = 4096 * ?n" using assms by auto
  then have "0 < ?n" using assms(1) by (cases "?n = 0") auto
  then have "2 ^ region_order a b \<le> ?n"
    using order_trans [OF power_increasing [of "region_order a b" "ilog2 ?n" "2 :: nat"] ilog2_le [of ?n]]
    by (simp add: region_order_def FRAME_SIZE_eq)
  then have "4096 * 2 ^ region_order a b \<le> b - a" by (subst n) simp
  then show ?thesis using assms(1) by (simp add: block_size_eq)
qed

text \<open>
  The loop of \<open>insert_region\<close>. Its body never sees an unaligned \<open>a\<close>, for which the source's subtraction and logarithm
  panic, nor a run of no block, for which its \<open>continue\<close> would repeat for ever: both are \<open>None\<close>.
\<close>

function insert_loop :: "nat \<Rightarrow> nat \<Rightarrow> buddy \<Rightarrow> buddy option" where
  "insert_loop a b bd =
     (if \<not> (a < b) then Some bd
      else if ctz64 a < PAGE_BITS \<or> (b - a) div FRAME_SIZE = 0 then None
      else do {
        let k = region_order a b;
        let n = (b - a) div block_size MAX_ORDER;
        (added, bd) \<leftarrow> (if k = MAX_ORDER then add_run bd a (a + n * block_size MAX_ORDER) else Some (False, bd));
        if added then do {
          t \<leftarrow> add64 (pm_total_frames bd) (push_bit MAX_ORDER n);
          c \<leftarrow> idx (pm_counts bd) MAX_ORDER;
          c \<leftarrow> add64 c n;
          cs \<leftarrow> upd (pm_counts bd) MAX_ORDER c;
          f \<leftarrow> add64 (pm_free_frames bd) (push_bit MAX_ORDER n);
          if n = 0 then None
          else insert_loop (a + n * block_size MAX_ORDER) b (bd\<lparr>pm_total_frames := t, pm_counts := cs, pm_free_frames := f\<rparr>) }
        else do {
          t \<leftarrow> add64 (pm_total_frames bd) (2 ^ k);
          bd \<leftarrow> push_free (bd\<lparr>pm_total_frames := t\<rparr>) a k;
          insert_loop (a + block_size k) b bd } })"
  by pat_completeness auto
termination
proof (relation "measure (\<lambda>(a, b, _). b - a)", goal_cases)
  case (2 a b bd k n x added bd')
  then show ?case by (simp add: diff_less_mono2 block_size_eq)
next
  case (3 a b bd k n x added bd')
  then show ?case by (simp add: diff_less_mono2 block_size_eq)
qed simp_all

declare insert_loop.simps [simp del]

definition insert_region :: "buddy \<Rightarrow> nat \<Rightarrow> nat \<Rightarrow> buddy option" where
  "insert_region bd start end = do {
     let start = max start FRAME_SIZE;
     a \<leftarrow> pm_align_up start FRAME_SIZE;
     let b = pm_align_down end FRAME_SIZE;
     let bd = (if a < b then bd\<lparr>pm_span_lo := min (pm_span_lo bd) a, pm_span_hi := max (pm_span_hi bd) b\<rparr> else bd);
     insert_loop a b bd }"

text \<open>Splitting a block of order \<open>target + n\<close> at \<open>addr\<close> down to \<open>target\<close>, the high half pushed at each order.\<close>

primrec split_down :: "buddy \<Rightarrow> nat \<Rightarrow> nat \<Rightarrow> nat \<Rightarrow> buddy option" where
  "split_down b addr target 0 = Some b"
| "split_down b addr target (Suc n) = do {
     hi \<leftarrow> add64 addr (block_size (target + n));
     b \<leftarrow> push_free b hi (target + n);
     split_down b addr target n }"

text \<open>The order \<open>take_block\<close> stops at.\<close>

primrec first_order :: "buddy \<Rightarrow> nat \<Rightarrow> nat \<Rightarrow> nat option" where
  "first_order b k 0 = Some k"
| "first_order b k (Suc n) = do {
     head \<leftarrow> idx (pm_heads b) k;
     if k < MAX_ORDER \<and> head = NULL then first_order b (Suc k) n else Some k }"

definition take_block :: "buddy \<Rightarrow> nat \<Rightarrow> (nat option \<times> buddy) option" where
  "take_block b target =
     (if target > MAX_ORDER then Some (None, b)
      else do {
        k \<leftarrow> first_order b target (MAX_ORDER - target);
        head \<leftarrow> idx (pm_heads b) k;
        (addr, b) \<leftarrow> (if head \<noteq> NULL then do { (h, b) \<leftarrow> pop_head b k; Some (Some h, b) }
           else take_run_block b (\<lambda>_ end. do { blk \<leftarrow> sub64 end (block_size MAX_ORDER); Some (Some blk) }));
        case addr of
          None \<Rightarrow> Some (None, b)
        | Some addr \<Rightarrow> do { b \<leftarrow> split_down b addr target (k - target); Some (Some addr, b) } })"

definition pm_alloc :: "buddy \<Rightarrow> nat \<Rightarrow> (frames option \<times> buddy) option" where
  "pm_alloc b order = do {
     (base, b) \<leftarrow> take_block b order;
     Some (map_option (\<lambda>base. fr_new base order) base, b) }"

text \<open>\<open>alloc_constrained\<close>: the search through the lists from order \<open>k\<close> up, then the runs.\<close>

definition fits_below :: "nat \<Rightarrow> nat \<Rightarrow> nat \<Rightarrow> bool" where
  "fits_below sz max_phys base = (case add64 base sz of Some end \<Rightarrow> end \<le> max_phys | None \<Rightarrow> False)"

primrec find_order :: "buddy \<Rightarrow> (nat \<Rightarrow> bool) \<Rightarrow> nat \<Rightarrow> nat \<Rightarrow> (nat \<times> nat) option" where
  "find_order b P k 0 = Some (NULL, k)"
| "find_order b P k (Suc n) = do {
     head \<leftarrow> idx (pm_heads b) k;
     found \<leftarrow> find_node b P head;
     if found = NULL then find_order b P (Suc k) n else Some (found, k) }"

definition pm_alloc_constrained :: "buddy \<Rightarrow> nat \<Rightarrow> nat \<Rightarrow> (frames option \<times> buddy) option" where
  "pm_alloc_constrained b target max_phys =
     (if target > MAX_ORDER then Some (None, b)
      else do {
        let fits = fits_below (block_size target) max_phys;
        (found, k) \<leftarrow> find_order b fits target (Suc MAX_ORDER - target);
        (addr, k, b) \<leftarrow> (if found \<noteq> NULL then do { b \<leftarrow> unlink b found k; Some (Some found, k, b) }
           else do {
             (blk, b) \<leftarrow> take_run_block b (\<lambda>start _. Some (if fits start then Some start else None));
             Some (blk, MAX_ORDER, b) });
        case addr of
          None \<Rightarrow> Some (None, b)
        | Some addr \<Rightarrow> do { b \<leftarrow> split_down b addr target (k - target); Some (Some (fr_new addr target), b) } })"

text \<open>The merging loop of \<open>deallocate\<close>: the block it ends with and its order.\<close>

function merge_up :: "buddy \<Rightarrow> nat \<Rightarrow> nat \<Rightarrow> (nat \<times> nat \<times> buddy) option" where
  "merge_up b phys k =
     (if \<not> (k < MAX_ORDER) then Some (phys, k, b)
      else do {
        let bud = phys XOR block_size k;
        hit \<leftarrow> in_free_list b bud k;
        if \<not> hit then Some (phys, k, b)
        else do {
          b \<leftarrow> unlink b bud k;
          merge_up b (min phys bud) (Suc k) } })"
  by pat_completeness auto
termination by (relation "measure (\<lambda>(_, _, k). MAX_ORDER - k)") auto

declare merge_up.simps [simp del]

definition deallocate :: "buddy \<Rightarrow> nat \<Rightarrow> nat \<Rightarrow> buddy option" where
  "deallocate b phys order = do {
     rassert (order \<le> MAX_ORDER);
     rassert (phys AND (block_size order - 1) = 0);
     hit \<leftarrow> covered_by_free_block b phys order;
     rassert (\<not> hit);
     (phys, order, b) \<leftarrow> merge_up b phys order;
     push_free b phys order }"

definition pm_free :: "buddy \<Rightarrow> frames \<Rightarrow> buddy option" where
  "pm_free b f = do {
     let base = fr_base f;
     let order = fr_order f;
     size \<leftarrow> shl64 FRAME_SIZE order;
     rassert (pm_span_lo b \<le> base \<and> (case add64 base size of Some end \<Rightarrow> end \<le> pm_span_hi b | None \<Rightarrow> False));
     deallocate b base order }"

definition pm_stats :: "buddy \<Rightarrow> pmm_stats" where
  "pm_stats b = \<lparr>ps_total_frames = pm_total_frames b, ps_free_frames = pm_free_frames b,
     ps_largest = find (\<lambda>k. 0 < pm_counts b ! k) (rev [0..<Suc MAX_ORDER])\<rparr>"

definition pm_free_blocks :: "buddy \<Rightarrow> nat" where
  "pm_free_blocks b = fold (\<lambda>c n. sat_add64 n c) (pm_counts b) 0"

definition order_for :: "nat \<Rightarrow> nat \<Rightarrow> nat option" where
  "order_for bytes align =
     (if bytes = 0 \<or> bytes > block_size MAX_ORDER then None
      else let align = (if align = 0 then FRAME_SIZE else align) in
        if \<not> is_power_of_two align then None
        else let need_size = next_power_of_two (max bytes FRAME_SIZE);
                 need_align = max align FRAME_SIZE;
                 need = max need_size need_align;
                 pages = need div FRAME_SIZE in
          if pages = 0 \<or> pages AND (pages - 1) \<noteq> 0 then None
          else let order = ctz64 pages in
            if order > MAX_ORDER then None else Some order)"

section \<open>Boot-time ranges\<close>

definition crosses_boundary :: "nat \<Rightarrow> nat \<Rightarrow> nat \<Rightarrow> bool option" where
  "crosses_boundary phys sz boundary =
     (if boundary = 0 \<or> sz = 0 then Some False
      else do {
        let mask = boundary - 1;
        s \<leftarrow> add64 (phys AND mask) sz;
        Some (s > boundary) })"

definition TRAMPOLINE_LIMIT :: nat where "TRAMPOLINE_LIMIT = 0x100000"

definition trampoline_step :: "nat \<times> nat \<Rightarrow> nat option \<Rightarrow> nat option" where
  "trampoline_step r best = (case add64 (fst r) (FRAME_SIZE - 1) of
     None \<Rightarrow> best
   | Some lo \<Rightarrow>
       let lo = max (pm_align_down lo FRAME_SIZE) FRAME_SIZE;
           hi = min (pm_align_down (snd r) FRAME_SIZE) TRAMPOLINE_LIMIT in
       (case add64 lo FRAME_SIZE of
          None \<Rightarrow> best
        | Some page_end \<Rightarrow>
            if page_end \<le> hi \<and> (case best of None \<Rightarrow> True | Some b \<Rightarrow> lo < b) then Some lo else best))"

definition choose_trampoline_page :: "(nat \<times> nat) list \<Rightarrow> nat option" where
  "choose_trampoline_page usable = fold trampoline_step usable None"

text \<open>One pass of \<open>clip_usable\<close> over the exclusions: where to skip to, and the nearest exclusion ahead.\<close>

definition clip_step :: "nat \<Rightarrow> nat \<times> nat \<Rightarrow> nat option \<times> nat \<Rightarrow> nat option \<times> nat" where
  "clip_step cur e acc =
     (let (skip_to, next) = acc in
      if fst e \<ge> snd e then acc
      else let lo = pm_align_down (fst e) FRAME_SIZE;
               hi = (case add64 (snd e) (FRAME_SIZE - 1) of Some x \<Rightarrow> pm_align_down x FRAME_SIZE | None \<Rightarrow> 2 ^ 64 - 1) in
        if lo \<le> cur \<and> cur < hi then (Some (case skip_to of None \<Rightarrow> hi | Some s \<Rightarrow> max s hi), next)
        else if lo > cur \<and> lo < next then (skip_to, lo)
        else acc)"

lemma clip_step_ahead:
  assumes "cur < snd acc" "\<forall>h. fst acc = Some h \<longrightarrow> cur < h"
  shows "cur < snd (clip_step cur e acc) \<and> (\<forall>h. fst (clip_step cur e acc) = Some h \<longrightarrow> cur < h)"
  using assms by (cases acc) (auto simp: clip_step_def Let_def split: option.splits)

lemma clip_fold_ahead:
  assumes "cur < snd acc" "\<forall>h. fst acc = Some h \<longrightarrow> cur < h"
  shows "cur < snd (fold (clip_step cur) es acc) \<and> (\<forall>h. fst (fold (clip_step cur) es acc) = Some h \<longrightarrow> cur < h)"
  using assms
proof (induction es arbitrary: acc)
  case (Cons e es)
  from clip_step_ahead [OF Cons.prems, of e] show ?case by (simp only: fold_simps) (rule Cons.IH; blast)
qed simp

function clip_loop :: "(nat \<times> nat) list \<Rightarrow> nat \<Rightarrow> nat \<Rightarrow> (nat \<times> nat) list" where
  "clip_loop excl end cur =
     (if cur < end then
        (case fold (clip_step cur) excl (None, end) of
           (Some h, _) \<Rightarrow> clip_loop excl end h
         | (None, next) \<Rightarrow> (cur, next) # clip_loop excl end next)
      else [])"
  by pat_completeness auto
termination
proof (relation "measure (\<lambda>(_, end, cur). end - cur)", goal_cases)
  case (2 excl e cur x y)
  have "cur < y" using clip_fold_ahead [of cur "(None, e)" excl] unfolding 2(2) [symmetric] using 2(1) by simp
  then show ?case using 2(1) by simp
next
  case (3 excl e cur x y h)
  have "cur < h" using clip_fold_ahead [of cur "(None, e)" excl] unfolding 3(2) [symmetric] using 3(1,3) by simp
  then show ?case using 3(1) by simp
qed simp

declare clip_loop.simps [simp del]

definition clip_usable :: "nat \<times> nat \<Rightarrow> (nat \<times> nat) list \<Rightarrow> (nat \<times> nat) list" where
  "clip_usable r excl = clip_loop excl (snd r) (fst r)"

end
