(* ===== verification/Pmm_Inv.thy ===== *)
theory Pmm_Inv
  imports Pmm
begin

text \<open>
  What the buddy allocator keeps. The free lists and the runs together are a multiset of frame numbers, each at most
  once: a split and a merge change how the frames are grouped and not which they are, so the abstract state of the
  allocator is a set of free frames.
\<close>

section \<open>Frames\<close>

definition seg :: "nat \<Rightarrow> nat \<Rightarrow> nat multiset" where
  "seg s e = mset_set {s div 4096..<e div 4096}"

definition blk :: "nat \<Rightarrow> nat \<Rightarrow> nat multiset" where
  "blk p k = seg p (p + block_size k)"

definition list_frames :: "(nat \<Rightarrow> nat list) \<Rightarrow> nat multiset" where
  "list_frames fl = (\<Sum>k\<le>10. \<Sum>p\<leftarrow>fl k. blk p k)"

definition run_frames :: "(nat \<times> nat) list \<Rightarrow> nat multiset" where
  "run_frames rs = (\<Sum>r\<leftarrow>rs. seg (fst r) (snd r))"

definition live_runs :: "buddy \<Rightarrow> (nat \<times> nat) list" where
  "live_runs b = take (pm_nruns b) (pm_runs b)"

definition all_frames :: "buddy \<Rightarrow> (nat \<Rightarrow> nat list) \<Rightarrow> nat multiset" where
  "all_frames b fl = list_frames fl + run_frames (live_runs b)"

definition run_blocks :: "(nat \<times> nat) list \<Rightarrow> nat" where
  "run_blocks rs = (\<Sum>r\<leftarrow>rs. (snd r - fst r) div block_size 10)"

lemma MAX_ORDER_eq: "MAX_ORDER = 10" by (simp add: MAX_ORDER_def)

lemma in_seg [simp]: "f \<in># seg s e \<longleftrightarrow> s div 4096 \<le> f \<and> f < e div 4096"
  by (simp add: seg_def)

lemma in_blk [simp]: "f \<in># blk p k \<longleftrightarrow> p div 4096 \<le> f \<and> f < p div 4096 + 2 ^ k"
  by (auto simp: blk_def block_size_eq)

lemma size_seg [simp]: "size (seg s e) = e div 4096 - s div 4096"
  by (simp add: seg_def)

lemma size_blk [simp]: "size (blk p k) = 2 ^ k"
  by (simp add: blk_def block_size_eq)

lemma count_seg [simp]: "count (seg s e) f = (if s div 4096 \<le> f \<and> f < e div 4096 then 1 else 0)"
  by (auto simp: seg_def count_mset_set')

lemma count_blk [simp]: "count (blk p k) f = (if p div 4096 \<le> f \<and> f < p div 4096 + 2 ^ k then 1 else 0)"
  by (auto simp: blk_def block_size_eq)

lemma seg_split: "s \<le> m \<Longrightarrow> m \<le> e \<Longrightarrow> seg s e = seg s m + seg m e"
  by (rule multiset_eqI) (auto dest: div_le_mono [of s m 4096] div_le_mono [of m e 4096])

lemma blk_split: "blk p (Suc k) = blk p k + blk (p + block_size k) k"
  by (rule multiset_eqI) (auto simp: block_size_eq)

lemma list_frames_upd:
  assumes "k \<le> 10"
  shows "list_frames (fl(k := xs)) + (\<Sum>p\<leftarrow>fl k. blk p k) = list_frames fl + (\<Sum>p\<leftarrow>xs. blk p k)"
proof -
  let ?g = "\<lambda>fl k. \<Sum>p\<leftarrow>fl k. blk p k"
  have r: "list_frames fl' = ?g fl' k + (\<Sum>j\<in>{..10} - {k}. ?g fl' j)" for fl'
    unfolding list_frames_def using assms by (intro sum.remove) auto
  have "(\<Sum>j\<in>{..10} - {k}. ?g (fl(k := xs)) j) = (\<Sum>j\<in>{..10} - {k}. ?g fl j)" by (rule sum.cong) auto
  then show ?thesis by (simp only: r fun_upd_same) (simp only: ac_simps)
qed

lemma list_frames_push: "k \<le> 10 \<Longrightarrow> list_frames (fl(k := p # fl k)) = list_frames fl + blk p k"
  using list_frames_upd [of k fl "p # fl k"] by (simp add: ac_simps)

lemma list_frames_remove:
  assumes "k \<le> 10" "p \<in> set (fl k)"
  shows "list_frames fl = list_frames (fl(k := remove1 p (fl k))) + blk p k"
proof -
  have "(\<Sum>q\<leftarrow>fl k. blk q k) = blk p k + (\<Sum>q\<leftarrow>remove1 p (fl k). blk q k)"
    using assms(2) by (rule sum_list_map_remove1)
  then show ?thesis using list_frames_upd [OF assms(1), of fl "remove1 p (fl k)"] by (simp add: ac_simps)
qed

lemma list_frames_in: "k \<le> 10 \<Longrightarrow> p \<in> set (fl k) \<Longrightarrow> f \<in># blk p k \<Longrightarrow> f \<in># list_frames fl"
  by (subst list_frames_remove [of k p]) auto

lemma list_frames_elim:
  assumes "f \<in># list_frames fl"
  obtains k p where "k \<le> 10" "p \<in> set (fl k)" "f \<in># blk p k"
proof -
  have *: "f \<in># (\<Sum>q\<leftarrow>qs. blk q k) \<Longrightarrow> \<exists>q \<in> set qs. f \<in># blk q k" for qs k
    by (induction qs) (auto simp del: in_blk)
  obtain k where "k \<le> 10" "f \<in># (\<Sum>p\<leftarrow>fl k. blk p k)"
    using assms unfolding list_frames_def by (auto simp: set_mset_sum simp del: in_blk)
  then show thesis using * that by blast
qed

section \<open>The invariant\<close>

definition nxt_of :: "buddy \<Rightarrow> nat \<Rightarrow> nat" where
  "nxt_of b p = fn_next (node b p)"

definition prv_of :: "buddy \<Rightarrow> nat \<Rightarrow> nat" where
  "prv_of b p = fn_prev (node b p)"

definition lists_ok :: "buddy \<Rightarrow> (nat \<Rightarrow> nat list) \<Rightarrow> bool" where
  "lists_ok b fl \<longleftrightarrow> length (pm_heads b) = 11 \<and>
     (\<forall>k \<le> 10. dll (nxt_of b) (prv_of b) 0 (fl k) 0 \<and> pm_heads b ! k = first (fl k) 0 \<and> (\<forall>p \<in> set (fl k). block_size k dvd p))"

definition runs_ok :: "buddy \<Rightarrow> bool" where
  "runs_ok b \<longleftrightarrow> length (pm_runs b) = 16 \<and> pm_nruns b \<le> 16 \<and>
     (\<forall>r \<in> set (live_runs b). fst r < snd r \<and> block_size 10 dvd fst r \<and> block_size 10 dvd snd r)"

definition counts_ok :: "buddy \<Rightarrow> (nat \<Rightarrow> nat list) \<Rightarrow> bool" where
  "counts_ok b fl \<longleftrightarrow> length (pm_counts b) = 11 \<and> pm_free_frames b = size (all_frames b fl) \<and>
     (\<forall>k \<le> 10. pm_counts b ! k = length (fl k) + (if k = 10 then run_blocks (live_runs b) else 0))"

definition space_ok :: "buddy \<Rightarrow> nat multiset \<Rightarrow> bool" where
  "space_ok b F \<longleftrightarrow> (\<forall>f. count F f \<le> 1) \<and> (\<forall>f \<in># F. pm_span_lo b \<le> f * 4096 \<and> f * 4096 + 4096 \<le> pm_span_hi b) \<and>
     4096 \<le> pm_span_lo b \<and> pm_span_hi b < 2 ^ 64"

definition pm_inv :: "buddy \<Rightarrow> (nat \<Rightarrow> nat list) \<Rightarrow> bool" where
  "pm_inv b fl \<longleftrightarrow> lists_ok b fl \<and> runs_ok b \<and> counts_ok b fl \<and> space_ok b (all_frames b fl)"

lemma space_ok_plus: "space_ok b (F + G) \<Longrightarrow> space_ok b F"
  by (auto simp: space_ok_def intro: order_trans [OF le_add1])

lemma space_ok_disjoint: "space_ok b (F + G) \<Longrightarrow> f \<in># F \<Longrightarrow> f \<notin># G"
  by (force simp: space_ok_def simp flip: count_greater_zero_iff dest: spec [of _ f])

lemma space_ok_bound: "space_ok b F \<Longrightarrow> f \<in># F \<Longrightarrow> 0 < f \<and> f < 2 ^ 52"
  by (fastforce simp: space_ok_def)

lemma space_ok_size:
  assumes "space_ok b F"
  shows "size F \<le> 2 ^ 52"
proof -
  have "F = mset_set (set_mset F)"
  proof (rule multiset_eqI)
    fix f
    have "count F f \<le> 1" using assms by (simp add: space_ok_def)
    then show "count F f = count (mset_set (set_mset F)) f" by (cases "f \<in># F") (auto simp: not_in_iff le_Suc_eq simp flip: count_greater_zero_iff)
  qed
  then have "size F = card (set_mset F)" by (metis size_mset_set)
  also have "\<dots> \<le> card {..<(2 :: nat) ^ 52}" using space_ok_bound [OF assms] by (intro card_mono) auto
  finally show ?thesis by simp
qed

text \<open>Members of the free lists: nonzero, below the top of memory, and each on one list once.\<close>

lemma member_frame: "f = p div 4096 \<Longrightarrow> f \<in># blk p k"
  by simp

lemma pm_inv_member:
  assumes "pm_inv b fl" "k \<le> 10" "p \<in> set (fl k)"
  shows "p div 4096 \<in># all_frames b fl" "0 < p" "p < 2 ^ 64" "block_size k dvd p"
proof -
  show *: "p div 4096 \<in># all_frames b fl"
    unfolding all_frames_def using assms list_frames_in [of k p fl "p div 4096"] by simp
  have "space_ok b (all_frames b fl)" using assms(1) by (simp add: pm_inv_def)
  from space_ok_bound [OF this *] show "0 < p" "p < 2 ^ 64" by (auto simp: div_less_iff_less_mult gr0I)
  show "block_size k dvd p" using assms by (auto simp: pm_inv_def lists_ok_def)
qed

lemma pm_inv_once:
  assumes "pm_inv b fl" "k \<le> 10" "p \<in> set (fl k)" "j \<le> 10" "p \<in> set ((fl(k := remove1 p (fl k))) j)"
  shows False
proof -
  let ?G = "list_frames (fl(k := remove1 p (fl k)))"
  have "space_ok b ((?G + blk p k) + run_frames (live_runs b))"
    using assms(1) unfolding pm_inv_def all_frames_def by (simp flip: list_frames_remove [of k p fl, OF assms(2,3)])
  then have "space_ok b (?G + blk p k)" by (rule space_ok_plus)
  moreover have "p div 4096 \<in># ?G" using assms(4,5) list_frames_in [of j p "fl(k := remove1 p (fl k))" "p div 4096"] by simp
  ultimately show False using space_ok_disjoint member_frame by blast
qed

lemma pm_inv_distinct: "pm_inv b fl \<Longrightarrow> k \<le> 10 \<Longrightarrow> distinct (fl k)"
proof (rule ccontr)
  assume *: "pm_inv b fl" "k \<le> 10" "\<not> distinct (fl k)"
  then obtain xs p ys zs where l: "fl k = xs @ [p] @ ys @ [p] @ zs" using not_distinct_decomp by blast
  then have "p \<in> set (fl k)" "p \<in> set ((fl(k := remove1 p (fl k))) k)" by (auto simp: remove1_append)
  then show False using pm_inv_once * by blast
qed

lemma pm_inv_apart: "pm_inv b fl \<Longrightarrow> k \<le> 10 \<Longrightarrow> j \<le> 10 \<Longrightarrow> p \<in> set (fl k) \<Longrightarrow> p \<in> set (fl j) \<Longrightarrow> j = k"
  using pm_inv_once [of b fl k p j] by (cases "j = k") auto

section \<open>The free-list primitives\<close>

lemma mod_add_inj:
  assumes "(q + h) mod n = (p + h) mod n" "p < n" "q < (n :: nat)"
  shows "q = p"
proof (cases "p \<le> q")
  case True
  then have "n dvd q - p" using assms(1) mod_eq_dvd_iff_nat [of "p + h" "q + h" n] by simp
  then show ?thesis using True assms(3) dvd_imp_le [of n "q - p"] by (cases "q = p") auto
next
  case False
  then have "n dvd p - q" using assms(1) mod_eq_dvd_iff_nat [of "q + h" "p + h" n] by simp
  then show ?thesis using False assms(2) dvd_imp_le [of n "p - q"] by auto
qed

lemma node_set_node: "p < 2 ^ 64 \<Longrightarrow> q < 2 ^ 64 \<Longrightarrow> node (set_node b p n) q = (if q = p then n else node b q)"
proof -
  assume "p < 2 ^ 64" "q < 2 ^ 64"
  then have "node_ptr b q = node_ptr b p \<longleftrightarrow> q = p"
    unfolding node_ptr_def using mod_add_inj by metis
  then show ?thesis by (simp add: node_def set_node_def node_ptr_def)
qed

lemma set_node_fields [simp]:
  "pm_heads (set_node b p n) = pm_heads b" "pm_counts (set_node b p n) = pm_counts b"
  "pm_total_frames (set_node b p n) = pm_total_frames b" "pm_free_frames (set_node b p n) = pm_free_frames b"
  "pm_span_lo (set_node b p n) = pm_span_lo b" "pm_span_hi (set_node b p n) = pm_span_hi b"
  "pm_runs (set_node b p n) = pm_runs b" "pm_nruns (set_node b p n) = pm_nruns b"
  "pm_hhdm_offset (set_node b p n) = pm_hhdm_offset b"
  by (simp_all add: set_node_def)

lemma node_upd [simp]: "node (b\<lparr>pm_heads := hs\<rparr>) = node b" "node (b\<lparr>pm_counts := cs, pm_free_frames := f\<rparr>) = node b"
  "node (b\<lparr>pm_total_frames := t\<rparr>) = node b" "node (b\<lparr>pm_runs := rs\<rparr>) = node b" "node (b\<lparr>pm_nruns := n\<rparr>) = node b"
  by (simp_all add: node_def node_ptr_def fun_eq_iff)

text \<open>The fields the list primitives leave as they are.\<close>

definition same_space :: "buddy \<Rightarrow> buddy \<Rightarrow> bool" where
  "same_space b b' \<longleftrightarrow> pm_total_frames b' = pm_total_frames b \<and> pm_span_lo b' = pm_span_lo b \<and> pm_span_hi b' = pm_span_hi b \<and>
     pm_hhdm_offset b' = pm_hhdm_offset b"

definition same_runs :: "buddy \<Rightarrow> buddy \<Rightarrow> bool" where
  "same_runs b b' \<longleftrightarrow> pm_runs b' = pm_runs b \<and> pm_nruns b' = pm_nruns b \<and> same_space b b'"

lemma same_space_ok: "same_space b b' \<Longrightarrow> space_ok b' F = space_ok b F"
  by (simp add: same_space_def space_ok_def)

lemma same_space_trans: "same_space a b \<Longrightarrow> same_space b c \<Longrightarrow> same_space a c"
  by (simp add: same_space_def)

lemma same_runs_space: "same_runs b b' \<Longrightarrow> same_space b b'"
  by (simp add: same_runs_def)

lemma same_runs_live: "same_runs b b' \<Longrightarrow> live_runs b' = live_runs b \<and> runs_ok b' = runs_ok b"
  by (simp add: same_runs_def live_runs_def runs_ok_def)

lemma counts_le:
  assumes "pm_inv b fl" "k \<le> 10"
  shows "pm_counts b ! k \<le> size (all_frames b fl)"
proof -
  have l: "length (fl k) \<le> size (list_frames fl)"
  proof -
    have "length ps \<le> size (\<Sum>p\<leftarrow>ps. blk p k)" for ps
      by (induction ps) (auto intro: order_trans [OF _ add_mono [of 1 "2 ^ k"]])
    moreover have "size (\<Sum>p\<leftarrow>fl k. blk p k) \<le> size (list_frames fl)"
      unfolding list_frames_def by (rule size_mset_mono) (use assms(2) in \<open>auto intro!: mset_subset_eq_add_left simp: sum.remove [of _ k]\<close>)
    ultimately show ?thesis using order_trans by blast
  qed
  have r: "run_blocks rs \<le> size (run_frames rs)" for rs
  proof (induction rs)
    case (Cons r rs)
    have "(snd r - fst r) div (4096 * 1024) \<le> snd r div 4096 - fst r div 4096"
      by (simp add: div_mult2_eq)
    then show ?case using Cons by (simp add: run_blocks_def run_frames_def block_size_eq)
  qed (simp add: run_blocks_def)
  show ?thesis
    using assms l r [of "live_runs b"] by (auto simp: pm_inv_def counts_ok_def all_frames_def)
qed

lemma count_up_spec:
  assumes "length (pm_counts b) = 11" "k \<le> 10" "pm_counts b ! k < 2 ^ 63" "pm_free_frames b + 2 ^ k < 2 ^ 64"
  shows "count_up b k = Some (b\<lparr>pm_counts := (pm_counts b)[k := pm_counts b ! k + 1], pm_free_frames := pm_free_frames b + 2 ^ k\<rparr>)"
  using assms by (simp add: count_up_def)

lemma count_down_spec:
  assumes "length (pm_counts b) = 11" "k \<le> 10" "0 < pm_counts b ! k" "2 ^ k \<le> pm_free_frames b"
  shows "count_down b k = Some (b\<lparr>pm_counts := (pm_counts b)[k := pm_counts b ! k - 1], pm_free_frames := pm_free_frames b - 2 ^ k\<rparr>)"
  using assms by (simp add: count_down_def)

lemma lists_okD:
  assumes "lists_ok b fl" "k \<le> 10"
  shows "dll (nxt_of b) (prv_of b) 0 (fl k) 0" "pm_heads b ! k = first (fl k) 0" "\<forall>p \<in> set (fl k). block_size k dvd p"
    "length (pm_heads b) = 11"
  using assms by (auto simp: lists_ok_def)

lemma pm_invD:
  assumes "pm_inv b fl"
  shows "lists_ok b fl" "runs_ok b" "counts_ok b fl" "space_ok b (all_frames b fl)"
  using assms by (simp_all add: pm_inv_def)

text \<open>A block disjoint from the free frames is on no list.\<close>

lemma fresh_block:
  assumes inv: "pm_inv b fl" and sp: "space_ok b (all_frames b fl + blk p k)"
  shows "0 < p" "p < 2 ^ 64" "\<And>j. j \<le> 10 \<Longrightarrow> p \<notin> set (fl j)"
proof -
  have "p div 4096 \<in># all_frames b fl + blk p k" by simp
  from space_ok_bound [OF sp this] show "0 < p" "p < 2 ^ 64" by (auto simp: div_less_iff_less_mult gr0I)
  show "p \<notin> set (fl j)" if "j \<le> 10" for j
    using pm_inv_member(1) [OF inv that, of p] space_ok_disjoint [OF sp, of "p div 4096"] by auto
qed

lemma push_nodes:
  assumes inv: "pm_inv b fl" and k: "k \<le> 10" and p: "0 < p" "p < 2 ^ 64" "p \<notin> set (fl k)"
    and b1: "b1 = set_node b p \<lparr>fn_next = first (fl k) 0, fn_prev = NULL\<rparr>"
    and b2: "b2 = (if first (fl k) 0 \<noteq> NULL then set_node b1 (first (fl k) 0) ((node b1 (first (fl k) 0))\<lparr>fn_prev := p\<rparr>) else b1)"
    and q: "q < 2 ^ 64"
  shows "nxt_of b2 q = (if q = p then first (fl k) 0 else nxt_of b q)"
    and "prv_of b2 q = (if q = p then 0 else if fl k \<noteq> [] \<and> q = first (fl k) 0 then p else prv_of b q)"
proof -
  have h: "first (fl k) 0 < 2 ^ 64 \<and> first (fl k) 0 \<noteq> p \<and> (first (fl k) 0 \<noteq> 0 \<longleftrightarrow> fl k \<noteq> [])"
    using first_in [of "fl k" 0] pm_inv_member [OF inv k] p by (cases "fl k") auto
  then show "nxt_of b2 q = (if q = p then first (fl k) 0 else nxt_of b q)"
    "prv_of b2 q = (if q = p then 0 else if fl k \<noteq> [] \<and> q = first (fl k) 0 then p else prv_of b q)"
    using p q by (auto simp: b2 b1 nxt_of_def prv_of_def node_set_node NULL_def)
qed

lemma push_free_spec:
  assumes inv: "pm_inv b fl" and k: "k \<le> 10" "block_size k dvd p" and sp: "space_ok b (all_frames b fl + blk p k)"
  obtains b' where "push_free b p k = Some b'" "pm_inv b' (fl(k := p # fl k))" "same_runs b b'"
proof -
  let ?h = "first (fl k) 0" and ?fl = "fl(k := p # fl k)"
  note p = fresh_block [OF inv sp] and L = pm_invD [OF inv] and C = counts_le [OF inv k(1)] and S = space_ok_size [OF sp]
  note H = lists_okD [OF L(1)]
  define b1 where "b1 = set_node b p \<lparr>fn_next = ?h, fn_prev = NULL\<rparr>"
  define b2 where "b2 = (if ?h \<noteq> NULL then set_node b1 ?h ((node b1 ?h)\<lparr>fn_prev := p\<rparr>) else b1)"
  define b3 where "b3 = b2\<lparr>pm_heads := (pm_heads b)[k := p]\<rparr>"
  define b' where "b' = b3\<lparr>pm_counts := (pm_counts b)[k := pm_counts b ! k + 1], pm_free_frames := pm_free_frames b + 2 ^ k\<rparr>"
  have f2 [simp]: "pm_heads b2 = pm_heads b" "pm_counts b2 = pm_counts b" "pm_total_frames b2 = pm_total_frames b"
    "pm_free_frames b2 = pm_free_frames b" "pm_span_lo b2 = pm_span_lo b" "pm_span_hi b2 = pm_span_hi b"
    "pm_runs b2 = pm_runs b" "pm_nruns b2 = pm_nruns b" "pm_hhdm_offset b2 = pm_hhdm_offset b"
    by (simp_all add: b2_def b1_def)
  have n: "nxt_of b' q = (if q = p then ?h else nxt_of b q)"
    "prv_of b' q = (if q = p then 0 else if fl k \<noteq> [] \<and> q = ?h then p else prv_of b q)" if "q < 2 ^ 64" for q
    using push_nodes [OF inv k(1) p(1,2) p(3) [OF k(1)] b1_def b2_def that] by (simp_all add: b'_def b3_def nxt_of_def prv_of_def)
  have r: "same_runs b b'" by (simp add: b'_def b3_def same_runs_def same_space_def)
  have F: "all_frames b' ?fl = all_frames b fl + blk p k"
    using list_frames_push [OF k(1), of fl p] same_runs_live [OF r] by (simp add: all_frames_def)
  have cf: "pm_counts b' = (pm_counts b)[k := pm_counts b ! k + 1]" "pm_free_frames b' = pm_free_frames b + 2 ^ k"
    by (simp_all add: b'_def)
  have "count_up b3 k = Some b'"
    using count_up_spec [of b3 k] L(3) C S k by (simp add: b'_def b3_def counts_ok_def)
  then have "push_free b p k = Some b'"
    using H(2,4) [of k] k(1) by (cases "?h = NULL") (simp_all add: push_free_def Let_def b3_def b2_def b1_def)
  moreover have "lists_ok b' ?fl"
    unfolding lists_ok_def
  proof (intro conjI allI impI)
    show "length (pm_heads b') = 11" using H [of k] k by (simp add: b'_def b3_def)
    fix j :: nat assume j: "j \<le> 10"
    show "pm_heads b' ! j = first (?fl j) 0" using H [of j] j k by (simp add: b'_def b3_def nth_list_update)
    show "\<forall>q \<in> set (?fl j). block_size j dvd q" using H(3) [of j] j k by auto
    show "dll (nxt_of b') (prv_of b') 0 (?fl j) 0"
    proof (cases "j = k")
      case True
      have "dll (nxt_of b') (prv_of b') 0 (p # fl k) 0"
        by (rule dll_link_first [OF H(1) [OF k(1)] pm_inv_distinct [OF inv k(1)] p(3) [OF k(1)]])
          (use n p(1,2) p(3) [OF k(1)] pm_inv_member(3) [OF inv k(1)] in auto)
      then show ?thesis using True by simp
    next
      case False
      have "q \<noteq> ?h \<or> fl k = []" if "q \<in> set (fl j)" for q
        using pm_inv_apart [OF inv j k(1) that] first_in [of "fl k" 0] False by auto
      then show ?thesis
        using False by simp (rule dll_cong [OF H(1) [OF j]], use n p(3) [OF j] pm_inv_member(3) [OF inv j] in auto)
    qed
  qed
  moreover have "counts_ok b' ?fl"
    using L(3) k F same_runs_live [OF r] cf by (simp add: counts_ok_def nth_list_update)
  ultimately have "pm_inv b' ?fl"
    using L(2) sp r F same_runs_live [OF r] same_space_ok [OF same_runs_space [OF r]] by (simp add: pm_inv_def)
  then show thesis using that \<open>push_free b p k = Some b'\<close> r by blast
qed

lemma unlink_nodes:
  assumes inv: "pm_inv b fl" and k: "k \<le> 10" and l: "fl k = ys @ p # zs"
    and b1: "b1 = (if ys = [] then b\<lparr>pm_heads := hs\<rparr> else set_node b (final ys 0) ((node b (final ys 0))\<lparr>fn_next := first zs 0\<rparr>))"
    and b2: "b2 = (if zs = [] then b1 else set_node b1 (first zs 0) ((node b1 (first zs 0))\<lparr>fn_prev := final ys 0\<rparr>))"
    and q: "q < 2 ^ 64"
  shows "nxt_of b2 q = (if ys \<noteq> [] \<and> q = final ys 0 then first zs 0 else nxt_of b q)"
    and "prv_of b2 q = (if zs \<noteq> [] \<and> q = first zs 0 then final ys 0 else prv_of b q)"
proof -
  have m: "x < 2 ^ 64" if "x \<in> set ys \<union> set zs" for x using pm_inv_member(3) [OF inv k, of x] that l by auto
  have "distinct (fl k)" by (rule pm_inv_distinct [OF inv k])
  then have d: "ys \<noteq> [] \<Longrightarrow> zs \<noteq> [] \<Longrightarrow> final ys 0 \<noteq> first zs 0"
    using final_in [of ys 0] first_in [of zs 0] l by auto
  have m1: "ys \<noteq> [] \<Longrightarrow> final ys 0 < 2 ^ 64" "zs \<noteq> [] \<Longrightarrow> first zs 0 < 2 ^ 64"
    using m final_in [of ys 0] first_in [of zs 0] by blast+
  have n1: "node b1 x = (if ys \<noteq> [] \<and> x = final ys 0 then (node b x)\<lparr>fn_next := first zs 0\<rparr> else node b x)" if "x < 2 ^ 64" for x
    using that m1 by (auto simp: b1 node_set_node)
  have n2: "node b2 q = (if zs \<noteq> [] \<and> q = first zs 0 then (node b1 q)\<lparr>fn_prev := final ys 0\<rparr> else node b1 q)"
    using q m1 by (auto simp: b2 node_set_node)
  show "nxt_of b2 q = (if ys \<noteq> [] \<and> q = final ys 0 then first zs 0 else nxt_of b q)"
    using n1 [OF q] n2 d by (auto simp: nxt_of_def)
  show "prv_of b2 q = (if zs \<noteq> [] \<and> q = first zs 0 then final ys 0 else prv_of b q)"
    using n1 [OF q] n2 d by (auto simp: prv_of_def)
qed

lemma unlink_spec:
  assumes inv: "pm_inv b fl" and k: "k \<le> 10" and p: "p \<in> set (fl k)"
  obtains b' where "unlink b p k = Some b'" "pm_inv b' (fl(k := remove1 p (fl k)))" "same_runs b b'"
    "all_frames b fl = all_frames b' (fl(k := remove1 p (fl k))) + blk p k"
proof -
  obtain ys zs where l: "fl k = ys @ p # zs" using p by (auto simp: in_set_conv_decomp)
  let ?fl = "fl(k := remove1 p (fl k))"
  note L = pm_invD [OF inv] and D = pm_inv_distinct [OF inv k]
  note H = lists_okD [OF L(1)]
  have rm: "remove1 p (fl k) = ys @ zs" using D by (simp add: l remove1_append)
  have nz: "x \<noteq> 0" "x < 2 ^ 64" if "x \<in> set ys \<union> set zs" for x using pm_inv_member [OF inv k, of x] l that by auto
  have pn: "prv_of b p = final ys 0" "nxt_of b p = first zs 0" using H(1) [OF k] by (simp_all add: l)
  have e: "final ys 0 = 0 \<longleftrightarrow> ys = []" "first zs 0 = 0 \<longleftrightarrow> zs = []"
    by (rule final_eq_nil, use nz(1) in blast) (rule first_eq_nil, use nz(1) in blast)
  define b1 where "b1 = (if ys = [] then b\<lparr>pm_heads := (pm_heads b)[k := first zs 0]\<rparr> else set_node b (final ys 0) ((node b (final ys 0))\<lparr>fn_next := first zs 0\<rparr>))"
  define b2 where "b2 = (if zs = [] then b1 else set_node b1 (first zs 0) ((node b1 (first zs 0))\<lparr>fn_prev := final ys 0\<rparr>))"
  define b' where "b' = b2\<lparr>pm_counts := (pm_counts b)[k := pm_counts b ! k - 1], pm_free_frames := pm_free_frames b - 2 ^ k\<rparr>"
  have f2 [simp]: "pm_counts b2 = pm_counts b" "pm_total_frames b2 = pm_total_frames b"
    "pm_free_frames b2 = pm_free_frames b" "pm_span_lo b2 = pm_span_lo b" "pm_span_hi b2 = pm_span_hi b"
    "pm_runs b2 = pm_runs b" "pm_nruns b2 = pm_nruns b" "pm_hhdm_offset b2 = pm_hhdm_offset b"
    "pm_heads b2 = (if ys = [] then (pm_heads b)[k := first zs 0] else pm_heads b)"
    by (simp_all add: b2_def b1_def)
  have n: "nxt_of b' q = (if ys \<noteq> [] \<and> q = final ys 0 then first zs 0 else nxt_of b q)"
    "prv_of b' q = (if zs \<noteq> [] \<and> q = first zs 0 then final ys 0 else prv_of b q)" if "q < 2 ^ 64" for q
    using unlink_nodes [OF inv k l b1_def b2_def that] by (simp_all add: b'_def nxt_of_def prv_of_def)
  have r: "same_runs b b'" by (simp add: b'_def same_runs_def same_space_def)
  have F: "all_frames b fl = all_frames b' ?fl + blk p k"
    using list_frames_remove [of k p fl, OF k p] same_runs_live [OF r] by (simp add: all_frames_def)
  have "pm_counts b ! k = length (fl k) + (if k = 10 then run_blocks (live_runs b) else 0)"
    using L(3) k by (simp add: counts_ok_def)
  then have c: "0 < pm_counts b ! k" by (simp add: l)
  have cf: "pm_counts b' = (pm_counts b)[k := pm_counts b ! k - 1]" "pm_free_frames b' = pm_free_frames b - 2 ^ k"
    by (simp_all add: b'_def)
  have "count_down b2 k = Some b'"
    using count_down_spec [of b2 k] L(3) c k F by (simp add: b'_def counts_ok_def)
  moreover have "unlink b p k = count_down b2 k"
    using H(4) [of k] k pn e
    by (cases "ys = []"; cases "zs = []") (simp_all add: unlink_def Let_def b2_def b1_def NULL_def flip: nxt_of_def prv_of_def)
  ultimately have u: "unlink b p k = Some b'" by simp
  have "lists_ok b' ?fl"
    unfolding lists_ok_def
  proof (intro conjI allI impI)
    show "length (pm_heads b') = 11" using H(4) [of k] k by (simp add: b'_def)
    fix j :: nat assume j: "j \<le> 10"
    show "pm_heads b' ! j = first (?fl j) 0"
    proof (cases "j = k")
      case True
      then have "?fl j = ys @ zs" using rm by simp
      then show ?thesis using H(2,4) [OF k] True k by (cases ys) (simp_all add: b'_def l)
    qed (use H(2,4) [OF j] in \<open>simp add: b'_def\<close>)
    show "\<forall>q \<in> set (?fl j). block_size j dvd q" using H(3) [OF j] rm l by auto
    show "dll (nxt_of b') (prv_of b') 0 (?fl j) 0"
    proof (cases "j = k")
      case True
      have "dll (nxt_of b') (prv_of b') 0 (ys @ zs) 0"
        by (rule dll_unlink [OF H(1) [OF k, unfolded l] D [unfolded l]]) (use n nz pn in auto)
      then show ?thesis using True rm by simp
    next
      case False
      have "\<not> (q \<in> set ys \<union> set zs)" if "q \<in> set (fl j)" for q
        using pm_inv_apart [OF inv j k that] False l by auto
      then have "(ys = [] \<or> q \<noteq> final ys 0) \<and> (zs = [] \<or> q \<noteq> first zs 0)" if "q \<in> set (fl j)" for q
        using that final_in [of ys 0] first_in [of zs 0] by blast
      then show ?thesis
        using False by simp (rule dll_cong [OF H(1) [OF j]], use n pm_inv_member(3) [OF inv j] in auto)
    qed
  qed
  moreover have "counts_ok b' ?fl"
    using L(3) k F same_runs_live [OF r] c cf by (simp add: counts_ok_def nth_list_update rm [unfolded l] l)
  ultimately have "pm_inv b' ?fl"
    using L(2,4) r F same_runs_live [OF r] same_space_ok [OF same_runs_space [OF r]] space_ok_plus by (simp add: pm_inv_def)
  then show thesis using that u r F by blast
qed

lemma pop_head_unlink:
  assumes inv: "pm_inv b fl" and k: "k \<le> 10" and l: "fl k = p # xs"
  shows "pop_head b k = map_option (Pair p) (unlink b p k)"
proof -
  note H = lists_okD [OF pm_invD(1) [OF inv] k]
  have p: "pm_heads b ! k = p" "fn_prev (node b p) = NULL" "p \<noteq> NULL"
    using H l pm_inv_member(2) [OF inv k, of p] by (auto simp: prv_of_def NULL_def)
  then show ?thesis
    using H(4) k by (auto simp: pop_head_def unlink_def Let_def map_option_case split: option.splits)
qed

lemma pop_head_spec:
  assumes inv: "pm_inv b fl" and k: "k \<le> 10" and l: "fl k = p # xs"
  obtains b' where "pop_head b k = Some (p, b')" "pm_inv b' (fl(k := xs))" "same_runs b b'"
    "all_frames b fl = all_frames b' (fl(k := xs)) + blk p k"
  using unlink_spec [OF inv k, of p] pop_head_unlink [OF assms] l by auto

text \<open>A walk over a linked list returns, with its first element that satisfies the test.\<close>

lemma find_node_dll:
  assumes "dll (nxt_of b) pv p xs 0" "0 \<notin> set xs"
  shows "find_node b P (first xs 0) = Some (case find P xs of None \<Rightarrow> NULL | Some x \<Rightarrow> x)"
  using assms
proof (induction xs arbitrary: p)
  case Nil
  then show ?case by (simp add: find_node.simps NULL_def)
next
  case (Cons x xs)
  then show ?case by (subst find_node.simps) (auto simp: NULL_def nxt_of_def)
qed

lemma find_node_spec:
  assumes "pm_inv b fl" "k \<le> 10"
  shows "find_node b P (pm_heads b ! k) = Some (case find P (fl k) of None \<Rightarrow> NULL | Some x \<Rightarrow> x)"
proof -
  have "0 \<notin> set (fl k)" using pm_inv_member(2) [OF assms] by blast
  then show ?thesis
    using find_node_dll lists_okD [OF pm_invD(1) [OF assms(1)] assms(2)] by simp
qed

lemma in_free_list_spec:
  assumes "pm_inv b fl" "k \<le> 10"
  shows "in_free_list b p k = Some (p \<in> set (fl k))"
proof -
  have "(case find (\<lambda>q. q = p) (fl k) of None \<Rightarrow> NULL | Some x \<Rightarrow> x) \<noteq> NULL \<longleftrightarrow> p \<in> set (fl k)"
    using pm_inv_member(2) [OF assms] by (auto simp: find_None_iff find_Some_iff NULL_def split: option.splits)
  then show ?thesis
    using find_node_spec [OF assms] lists_okD(4) [OF pm_invD(1) [OF assms(1)] assms(2)] assms(2) by (simp add: in_free_list_def)
qed

section \<open>Splitting and merging\<close>

text \<open>The buddy of a block is the other half of the block of the next order.\<close>

lemma xor_block:
  assumes "block_size k dvd p"
  shows "p XOR block_size k = (if even (p div block_size k) then p + block_size k else p - block_size k)"
proof -
  have b: "block_size k = push_bit (12 + k) 1" by (simp add: block_size_eq push_bit_eq_mult power_add)
  have "bit p (12 + k) \<longleftrightarrow> odd (p div block_size k)" by (simp add: bit_iff_odd block_size_eq power_add)
  moreover have "p XOR block_size k = flip_bit (12 + k) p" by (simp add: b flip_bit_eq_xor)
  moreover have "unset_bit (12 + k) p = p - 2 ^ (12 + k)" if "bit p (12 + k)"
  proof -
    have "p = set_bit (12 + k) (unset_bit (12 + k) p)" by (rule bit_eqI) (use that in \<open>auto simp: bit_simps\<close>)
    also have "\<dots> = unset_bit (12 + k) p + 2 ^ (12 + k)" by (subst set_bit_eq) (simp add: bit_unset_bit_iff)
    finally show ?thesis by simp
  qed
  ultimately show ?thesis
    by (simp add: flip_bit_eq_if set_bit_eq block_size_eq power_add)
qed

lemma merged_block:
  assumes "block_size k dvd p"
  shows "block_size (Suc k) dvd min p (p XOR block_size k)"
    "blk (min p (p XOR block_size k)) (Suc k) = blk p k + blk (p XOR block_size k) k"
    "block_size k dvd p XOR block_size k" "(p XOR block_size k) XOR block_size k = p"
    "min p (p XOR block_size k) \<le> p" "p < min p (p XOR block_size k) + block_size (Suc k)"
proof -
  obtain q where q: "p = block_size k * q" using assms by auto
  have z: "0 < block_size k" by (simp add: block_size_eq)
  have S: "block_size (Suc k) = 2 * block_size k" by (simp add: block_size_eq)
  have *: "block_size (Suc k) dvd min p (p XOR block_size k) \<and>
    blk (min p (p XOR block_size k)) (Suc k) = blk p k + blk (p XOR block_size k) k \<and>
    block_size k dvd p XOR block_size k \<and> min p (p XOR block_size k) \<le> p \<and> p < min p (p XOR block_size k) + block_size (Suc k)"
  proof (cases "even q")
    case True
    then obtain r where r: "q = 2 * r" by auto
    have x: "p XOR block_size k = p + block_size k" using True q z xor_block [OF assms] by simp
    show ?thesis using z by (simp add: x blk_split S) (simp add: q r)
  next
    case False
    then obtain r where r: "q = 2 * r + 1" by (auto elim: oddE)
    have "p XOR block_size k = p - block_size k" using False q z xor_block [OF assms] by simp
    then obtain y where x: "p XOR block_size k = y" and y: "p = y + block_size k" "block_size (Suc k) dvd y"
      by (simp add: q r S)
    then have m: "min p (p XOR block_size k) = y" by simp
    have "block_size k dvd y" using y(2) unfolding S by (rule dvd_mult_right)
    then show ?thesis unfolding m unfolding x using z y by (simp add: blk_split S ac_simps)
  qed
  then show "block_size (Suc k) dvd min p (p XOR block_size k)"
    "blk (min p (p XOR block_size k)) (Suc k) = blk p k + blk (p XOR block_size k) k"
    "block_size k dvd p XOR block_size k" "min p (p XOR block_size k) \<le> p" "p < min p (p XOR block_size k) + block_size (Suc k)"
    by blast+
  show "(p XOR block_size k) XOR block_size k = p" by (simp add: xor.assoc)
qed

lemma split_down_spec:
  assumes "pm_inv b fl" "target + n \<le> 10" "block_size (target + n) dvd p" "space_ok b (all_frames b fl + blk p (target + n))"
  shows "\<exists>b' fl'. split_down b p target n = Some b' \<and> pm_inv b' fl' \<and> same_runs b b' \<and>
    all_frames b fl + blk p (target + n) = all_frames b' fl' + blk p target \<and>
    (\<forall>k. fl' k = (if target \<le> k \<and> k < target + n then (p + block_size k) # fl k else fl k))"
  using assms
proof (induction n arbitrary: b fl)
  case 0
  then show ?case by (auto simp: same_runs_def same_space_def)
next
  case (Suc n)
  let ?k = "target + n" and ?q = "p + block_size (target + n)"
  have F: "all_frames b fl + blk p (Suc ?k) = (all_frames b fl + blk ?q ?k) + blk p ?k" by (simp add: blk_split ac_simps)
  have d: "block_size ?k dvd p" using Suc.prems(3) by (auto simp: block_size_eq elim: dvd_mult_right)
  have sp: "space_ok b (all_frames b fl + blk ?q ?k)" using Suc.prems(4) F space_ok_plus by (simp del: in_blk count_blk)
  obtain b1 where b1: "push_free b ?q ?k = Some b1" "pm_inv b1 (fl(?k := ?q # fl ?k))" "same_runs b b1"
    using push_free_spec [OF Suc.prems(1) _ _ sp] d Suc.prems(2) by auto
  have F1: "all_frames b1 (fl(?k := ?q # fl ?k)) = all_frames b fl + blk ?q ?k"
    using list_frames_push [of ?k fl ?q] same_runs_live [OF b1(3)] Suc.prems(2) by (simp add: all_frames_def)
  have "space_ok b1 (all_frames b1 (fl(?k := ?q # fl ?k)) + blk p ?k)"
    using Suc.prems(4) F F1 same_space_ok [OF same_runs_space [OF b1(3)]] by simp
  then obtain b' fl' where *: "split_down b1 p target n = Some b'" "pm_inv b' fl'" "same_runs b1 b'"
    "all_frames b1 (fl(?k := ?q # fl ?k)) + blk p ?k = all_frames b' fl' + blk p target"
    "\<forall>k. fl' k = (if target \<le> k \<and> k < target + n then (p + block_size k) # (fl(?k := ?q # fl ?k)) k else (fl(?k := ?q # fl ?k)) k)"
    using Suc.IH [OF b1(2) _ d] Suc.prems(2) by (simp only: add_Suc_right Suc_le_eq less_imp_le) blast
  have "?q < 2 ^ 64" by (rule fresh_block(2) [OF Suc.prems(1) sp])
  then have "split_down b p target (Suc n) = Some b'" using b1 * by simp
  moreover have "same_runs b b'" using b1(3) *(3) by (simp add: same_runs_def same_space_def)
  moreover have "\<forall>k. fl' k = (if target \<le> k \<and> k < target + Suc n then (p + block_size k) # fl k else fl k)"
    using *(5) by (auto simp: less_Suc_eq)
  moreover have "all_frames b fl + blk p (target + Suc n) = all_frames b' fl' + blk p target" using *(4) F F1 by simp
  ultimately show ?case using *(2) by blast
qed

lemma merge_up_spec:
  assumes "pm_inv b fl" "k \<le> 10" "block_size k dvd p" "space_ok b (all_frames b fl + blk p k)"
  shows "\<exists>q j b' fl'. merge_up b p k = Some (q, j, b') \<and> pm_inv b' fl' \<and> same_runs b b' \<and> k \<le> j \<and> j \<le> 10 \<and>
    block_size j dvd q \<and> q \<le> p \<and> p < q + block_size j \<and> all_frames b' fl' + blk q j = all_frames b fl + blk p k \<and>
    (j < 10 \<longrightarrow> q XOR block_size j \<notin> set (fl' j)) \<and> (\<forall>i. set (fl' i) \<subseteq> set (fl i))"
  using assms
proof (induction "10 - k" arbitrary: b fl k p)
  case 0
  then show ?case by (subst merge_up.simps) (auto simp: MAX_ORDER_eq block_size_eq same_runs_def same_space_def)
next
  case (Suc n)
  let ?q = "p XOR block_size k"
  note M = merged_block [OF Suc.prems(3)]
  have k: "k < 10" and n: "n = 10 - Suc k" using Suc.hyps(2) by simp_all
  show ?case
  proof (cases "?q \<in> set (fl k)")
    case False
    then have "merge_up b p k = Some (p, k, b)"
      using k in_free_list_spec [OF Suc.prems(1,2)] by (subst merge_up.simps) (simp add: MAX_ORDER_eq Let_def)
    then show ?thesis using Suc.prems False by (auto simp: block_size_eq same_runs_def same_space_def)
  next
    case True
    let ?fl = "fl(k := remove1 ?q (fl k))"
    obtain b1 where b1: "unlink b ?q k = Some b1" "pm_inv b1 ?fl" "same_runs b b1" "all_frames b fl = all_frames b1 ?fl + blk ?q k"
      using unlink_spec [OF Suc.prems(1,2) True] .
    have F: "all_frames b1 ?fl + blk (min p ?q) (Suc k) = all_frames b fl + blk p k" by (simp add: M(2) b1(4) ac_simps)
    then have "space_ok b1 (all_frames b1 ?fl + blk (min p ?q) (Suc k))"
      using Suc.prems(4) same_space_ok [OF same_runs_space [OF b1(3)]] by simp
    then obtain q j b' fl' where *: "merge_up b1 (min p ?q) (Suc k) = Some (q, j, b')" "pm_inv b' fl'" "same_runs b1 b'"
      "Suc k \<le> j" "j \<le> 10" "block_size j dvd q" "q \<le> min p ?q" "min p ?q < q + block_size j"
      "all_frames b' fl' + blk q j = all_frames b1 ?fl + blk (min p ?q) (Suc k)"
      "j < 10 \<longrightarrow> q XOR block_size j \<notin> set (fl' j)" "\<forall>i. set (fl' i) \<subseteq> set (?fl i)"
      using Suc.hyps(1) [OF n b1(2) _ M(1)] k by (simp only: Suc_le_eq) blast
    have "merge_up b p k = Some (q, j, b')"
      using k True in_free_list_spec [OF Suc.prems(1,2)] b1(1) *(1) by (subst merge_up.simps) (simp add: MAX_ORDER_eq Let_def)
    moreover have "same_runs b b'" using b1(3) *(3) by (simp add: same_runs_def same_space_def)
    moreover have "\<forall>i. set (fl' i) \<subseteq> set (fl i)"
      using *(11) set_remove1_subset [of ?q "fl k"] by (fastforce split: if_splits)
    moreover have "p < q + block_size j"
    proof -
      obtain c d where "block_size j = block_size (Suc k) * c" "min p ?q = block_size (Suc k) * d"
        using M(1) \<open>Suc k \<le> j\<close> by (metis (no_types) block_size_eq dvd_def le_imp_power_dvd mult_dvd_mono dvd_refl)
      moreover obtain e where "q = block_size j * e" using *(6) by auto
      ultimately have dv: "block_size (Suc k) dvd (q + block_size j) - min p ?q" by (simp add: dvd_diff_nat)
      then have "block_size (Suc k) \<le> (q + block_size j) - min p ?q" using *(8) by (intro dvd_imp_le) auto
      then show ?thesis using M(6) by linarith
    qed
    ultimately show ?thesis using * F M(5) by (intro exI [of _ q] exI [of _ j] exI [of _ b'] exI [of _ fl']) simp
  qed
qed

end
