(* ===== verification/Pmm_Ops.thy ===== *)
theory Pmm_Ops
  imports Pmm_Inv
begin

text \<open>
  The operations of the buddy allocator over its invariant: the runs of top-order blocks, allocation, release and the
  insertion of a region, each as a change of the multiset of free frames.
\<close>

section \<open>Runs\<close>

lemma run_frames_append [simp]: "run_frames (xs @ ys) = run_frames xs + run_frames ys"
  by (simp add: run_frames_def)

lemma run_frames_Cons [simp]: "run_frames (r # rs) = seg (fst r) (snd r) + run_frames rs"
  by (simp add: run_frames_def)

lemma run_blocks_append [simp]: "run_blocks (xs @ ys) = run_blocks xs + run_blocks ys"
  by (simp add: run_blocks_def)

lemma run_blocks_Cons [simp]: "run_blocks (r # rs) = (snd r - fst r) div block_size 10 + run_blocks rs"
  by (simp add: run_blocks_def)

lemma run_simps_Nil [simp]: "run_frames [] = {#}" "run_blocks [] = 0"
  by (simp_all add: run_frames_def run_blocks_def)

lemma run_member: "r \<in> set rs \<Longrightarrow> f \<in># seg (fst r) (snd r) \<Longrightarrow> f \<in># run_frames rs"
  by (induction rs) auto

text \<open>Taking the block at either end of a run.\<close>

definition run_rest :: "nat \<Rightarrow> nat \<Rightarrow> nat \<Rightarrow> nat \<times> nat" where
  "run_rest s e p = (if p = s then (s + block_size 10, e) else (s, e - block_size 10))"

lemma run_rest_spec:
  assumes "s < e" "block_size 10 dvd s" "block_size 10 dvd e" "p = s \<or> p = e - block_size 10"
  shows "seg s e = seg (fst (run_rest s e p)) (snd (run_rest s e p)) + blk p 10"
    "(e - s) div block_size 10 = Suc ((snd (run_rest s e p) - fst (run_rest s e p)) div block_size 10)"
    "block_size 10 dvd fst (run_rest s e p)" "block_size 10 dvd snd (run_rest s e p)" "block_size 10 dvd p"
    "fst (run_rest s e p) \<le> snd (run_rest s e p)" "s + block_size 10 \<le> e"
proof -
  let ?t = "block_size 10"
  have t: "0 < ?t" by (simp add: block_size_eq)
  obtain x y where xy: "s = ?t * x" "e = ?t * y" using assms(2,3) by (elim dvdE) auto
  then have "x < y" using assms(1) by simp
  then have le: "s + ?t \<le> e" using mult_le_mono2 [of "Suc x" y ?t] by (simp add: xy)
  show "s + ?t \<le> e" by (rule le)
  show "seg s e = seg (fst (run_rest s e p)) (snd (run_rest s e p)) + blk p 10"
    using assms(4) le seg_split [of s "s + ?t" e] seg_split [of s "e - ?t" e] by (auto simp: run_rest_def blk_def)
  have "(e - s) div ?t = Suc ((e - s - ?t) div ?t)" using le t by (subst div_if) simp
  then show "(e - s) div ?t = Suc ((snd (run_rest s e p) - fst (run_rest s e p)) div ?t)"
    by (simp add: run_rest_def add.commute)
  show "?t dvd fst (run_rest s e p)" "?t dvd snd (run_rest s e p)" "?t dvd p" "fst (run_rest s e p) \<le> snd (run_rest s e p)"
    using assms le by (auto simp: run_rest_def)
qed

lemma live_runs_nth:
  assumes "runs_ok b" "i < pm_nruns b"
  shows "pm_runs b ! i \<in> set (live_runs b)" "live_runs b = take i (pm_runs b) @ pm_runs b ! i # drop (Suc i) (live_runs b)"
    "i < length (pm_runs b)"
proof -
  have l: "i < length (live_runs b)" "length (pm_runs b) = 16" "pm_nruns b \<le> 16"
    using assms by (auto simp: runs_ok_def live_runs_def)
  then show "pm_runs b ! i \<in> set (live_runs b)" "i < length (pm_runs b)"
    using nth_mem [OF l(1)] assms(2) by (simp_all add: live_runs_def)
  show "live_runs b = take i (pm_runs b) @ pm_runs b ! i # drop (Suc i) (live_runs b)"
    using id_take_nth_drop [OF l(1)] assms(2) l by (simp add: live_runs_def min_def)
qed

lemma take_from_run_live:
  assumes ok: "runs_ok b" and i: "i < pm_nruns b" "pm_runs b ! i = (s, e)" and p: "p = s \<or> p = e - block_size 10" and e: "e < 2 ^ 64"
  obtains b1 where "take_from_run b i s e p = count_down b1 MAX_ORDER"
    "b1 = b\<lparr>pm_runs := pm_runs b1, pm_nruns := pm_nruns b1\<rparr>" "runs_ok b1"
    "run_frames (live_runs b) = run_frames (live_runs b1) + blk p 10" "run_blocks (live_runs b) = Suc (run_blocks (live_runs b1))"
proof -
  let ?r = "run_rest s e p" and ?rest = "drop (Suc i) (live_runs b)"
  note N = live_runs_nth [OF ok i(1)]
  have m: "s < e" "block_size 10 dvd s" "block_size 10 dvd e" using N(1) i(2) ok by (auto simp: runs_ok_def)
  note R = run_rest_spec [OF m p]
  have len: "length (pm_runs b) = 16" "pm_nruns b \<le> 16" using ok by (simp_all add: runs_ok_def)
  have rest: "(if p = s then do { s \<leftarrow> add64 s (block_size MAX_ORDER); Some (s, e) }
      else do { e \<leftarrow> sub64 e (block_size MAX_ORDER); rassert (p = e); Some (s, e) }) = Some ?r"
    using R(7) e p by (auto simp: run_rest_def MAX_ORDER_eq)
  define b1 where "b1 = (if fst ?r < snd ?r then b\<lparr>pm_runs := (pm_runs b)[i := ?r]\<rparr>
    else b\<lparr>pm_runs := take i (pm_runs b) @ take (pm_nruns b - Suc i) (drop (Suc i) (pm_runs b)) @ drop (pm_nruns b - 1) (pm_runs b),
      pm_nruns := pm_nruns b - 1\<rparr>)"
  have live: "live_runs b1 = take i (pm_runs b) @ (if fst ?r < snd ?r then [?r] else []) @ ?rest"
  proof (cases "fst ?r < snd ?r")
    case True
    then show ?thesis using i(1) len by (simp add: b1_def live_runs_def take_update_swap upd_conv_take_nth_drop min_def drop_take take_Cons' Suc_diff_Suc)
  next
    case False
    then show ?thesis using i(1) len
      by (cases "i = pm_nruns b - 1") (auto simp: b1_def live_runs_def min_def drop_take)
  qed
  have "pm_nruns b - 1 \<le> 16" using len by simp
  then have "take_from_run b i s e p = count_down b1 MAX_ORDER"
    using i len N(3) by (simp add: take_from_run_def rest b1_def copy_within_def Suc_le_eq)
  moreover have "b1 = b\<lparr>pm_runs := pm_runs b1, pm_nruns := pm_nruns b1\<rparr>" by (simp add: b1_def)
  moreover have "runs_ok b1"
  proof -
    have "set (live_runs b) = set (take i (pm_runs b)) \<union> {(s, e)} \<union> set ?rest" by (subst N(2)) (simp add: i(2))
    then have "r = ?r \<and> fst ?r < snd ?r \<or> r \<in> set (live_runs b)" if "r \<in> set (live_runs b1)" for r
      using that by (auto simp: live split: if_splits)
    moreover have "length (pm_runs b1) = 16" "pm_nruns b1 \<le> 16" using len i(1) by (auto simp: b1_def)
    ultimately show ?thesis using ok R(3,4) unfolding runs_ok_def by metis
  qed
  moreover have z: "seg (fst ?r) (snd ?r) = {#}" "(snd ?r - fst ?r) div block_size 10 = 0" if "\<not> fst ?r < snd ?r"
    using that div_le_mono [of "snd ?r" "fst ?r" 4096] by (simp_all add: seg_def)
  have "run_frames (live_runs b) = run_frames (take i (pm_runs b)) + (seg s e + run_frames ?rest)"
    by (subst N(2)) (simp add: i(2))
  then have "run_frames (live_runs b) = run_frames (live_runs b1) + blk p 10"
    using z(1) R(1) by (simp add: live ac_simps)
  moreover have "run_blocks (live_runs b) = run_blocks (take i (pm_runs b)) + ((e - s) div block_size 10 + run_blocks ?rest)"
    by (subst N(2)) (simp add: i(2))
  then have "run_blocks (live_runs b) = Suc (run_blocks (live_runs b1))"
    using z(2) R(2) by (simp add: live)
  ultimately show thesis using that by blast
qed

lemma take_from_run_spec:
  assumes inv: "pm_inv b fl" and i: "i < pm_nruns b" "pm_runs b ! i = (s, e)" and p: "p = s \<or> p = e - block_size 10"
  obtains b' where "take_from_run b i s e p = Some b'" "pm_inv b' fl" "same_space b b'"
    "all_frames b fl = all_frames b' fl + blk p 10" "block_size 10 dvd p"
proof -
  note I = pm_invD [OF inv]
  have m: "(s, e) \<in> set (live_runs b)" using live_runs_nth(1) [OF I(2) i(1)] i(2) by simp
  then have se: "s < e" "block_size 10 dvd s" "block_size 10 dvd e" using I(2) by (auto simp: runs_ok_def)
  note R = run_rest_spec [OF se p]
  have "e div 4096 - 1 \<in># all_frames b fl"
  proof -
    have "s div 4096 < e div 4096" using R(7) div_le_mono [of "s + block_size 10" e 4096] by (simp add: block_size_eq)
    then have "e div 4096 - 1 \<in># seg (fst (s, e)) (snd (s, e))" by simp
    from run_member [OF m this] show ?thesis by (simp add: all_frames_def)
  qed
  then have "(e div 4096 - 1) * 4096 + 4096 < 2 ^ 64" using I(4) by (auto simp: space_ok_def)
  moreover have "4096 dvd e" using se(3) by (auto simp: block_size_eq)
  ultimately have e: "e < 2 ^ 64" by (elim dvdE) simp
  obtain b1 where b1: "take_from_run b i s e p = count_down b1 MAX_ORDER"
    "b1 = b\<lparr>pm_runs := pm_runs b1, pm_nruns := pm_nruns b1\<rparr>" "runs_ok b1"
    "run_frames (live_runs b) = run_frames (live_runs b1) + blk p 10" "run_blocks (live_runs b) = Suc (run_blocks (live_runs b1))"
    using take_from_run_live [OF I(2) i p e] .
  have f [simp]: "pm_counts b1 = pm_counts b" "pm_free_frames b1 = pm_free_frames b" "pm_heads b1 = pm_heads b" "node b1 = node b"
    by (subst b1(2), simp)+
  define b' where "b' = b1\<lparr>pm_counts := (pm_counts b)[10 := pm_counts b ! 10 - 1], pm_free_frames := pm_free_frames b - 2 ^ 10\<rparr>"
  have l: "live_runs b' = live_runs b1" "runs_ok b' = runs_ok b1" by (simp_all add: b'_def live_runs_def runs_ok_def)
  have F: "all_frames b fl = all_frames b' fl + blk p 10" by (simp add: all_frames_def b1(4) l ac_simps)
  have "same_space b b'" unfolding same_space_def b'_def by (subst (1 2 3 4) b1(2)) simp
  moreover have c: "length (pm_counts b) = 11" "pm_free_frames b = size (all_frames b' fl) + 1024"
    "\<forall>k \<le> 10. pm_counts b ! k = length (fl k) + (if k = 10 then Suc (run_blocks (live_runs b')) else 0)"
    using I(3) F b1(5) l by (simp_all add: counts_ok_def)
  have c10: "0 < pm_counts b ! 10" "2 ^ 10 \<le> pm_free_frames b" using c(2) c(3) [rule_format, of 10] by simp_all
  have "take_from_run b i s e p = Some b'"
    unfolding b1(1) MAX_ORDER_eq b'_def using count_down_spec [of b1 10] c(1) c10 by (simp only: f)
  moreover have cf: "pm_counts b' = (pm_counts b)[10 := pm_counts b ! 10 - 1]" "pm_free_frames b' = pm_free_frames b - 2 ^ 10"
    "nxt_of b' = nxt_of b" "prv_of b' = prv_of b" "pm_heads b' = pm_heads b"
    by (simp_all add: b'_def nxt_of_def prv_of_def fun_eq_iff)
  have "counts_ok b' fl"
    unfolding counts_ok_def cf using c by (auto simp: nth_list_update)
  moreover have "lists_ok b' fl"
    using I(1) unfolding lists_ok_def cf .
  ultimately have "pm_inv b' fl"
    using b1(3) l I(4) F space_ok_plus same_space_ok [of b b'] by (simp add: pm_inv_def)
  then show thesis using that \<open>take_from_run b i s e p = Some b'\<close> \<open>same_space b b'\<close> F R(5) by blast
qed

text \<open>
  \<open>take_run_block\<close> for a choice that names an end of the run or passes it over: it takes a block, or every run was
  passed over.
\<close>

lemma take_run_spec:
  assumes inv: "pm_inv b fl" and n: "n \<le> pm_nruns b"
    and pick: "\<And>s e. (s, e) \<in> set (live_runs b) \<Longrightarrow> \<exists>r. pick s e = Some r \<and> (r = None \<or> r = Some s \<or> r = Some (e - block_size 10))"
  shows "take_run b pick n = Some (None, b) \<and> (\<forall>i < n. pick (fst (pm_runs b ! i)) (snd (pm_runs b ! i)) = Some None) \<or>
    (\<exists>p b' s e. take_run b pick n = Some (Some p, b') \<and> pm_inv b' fl \<and> same_space b b' \<and>
      all_frames b fl = all_frames b' fl + blk p 10 \<and> block_size 10 dvd p \<and> (s, e) \<in> set (live_runs b) \<and> pick s e = Some (Some p))"
  using n
proof (induction n)
  case (Suc n)
  obtain s e where se: "pm_runs b ! n = (s, e)" by fastforce
  have n: "n < pm_nruns b" using Suc.prems by simp
  note N = live_runs_nth [OF pm_invD(2) [OF inv] n]
  obtain r where r: "pick s e = Some r" "r = None \<or> r = Some s \<or> r = Some (e - block_size 10)" using pick N(1) se by metis
  show ?case
  proof (cases r)
    case None
    then show ?thesis using Suc r se N by (auto simp: get_opt_def less_Suc_eq)
  next
    case (Some p)
    then have "p = s \<or> p = e - block_size 10" using r by simp
    from take_from_run_spec [OF inv n se this] obtain b' where b': "take_from_run b n s e p = Some b'" "pm_inv b' fl" "same_space b b'"
      "all_frames b fl = all_frames b' fl + blk p 10" "block_size 10 dvd p" .
    then have "take_run b pick (Suc n) = Some (Some p, b')" using Some r se N by (simp add: get_opt_def)
    then show ?thesis using b' r Some N(1) se by auto
  qed
qed simp

section \<open>Allocation\<close>

text \<open>Whether a block of order \<open>k\<close> or above is free.\<close>

definition has_block :: "buddy \<Rightarrow> (nat \<Rightarrow> nat list) \<Rightarrow> nat \<Rightarrow> bool" where
  "has_block b fl k \<longleftrightarrow> (\<exists>j. k \<le> j \<and> j \<le> 10 \<and> fl j \<noteq> []) \<or> live_runs b \<noteq> []"

lemma heads_null: "pm_inv b fl \<Longrightarrow> k \<le> 10 \<Longrightarrow> pm_heads b ! k = NULL \<longleftrightarrow> fl k = []"
  using lists_okD(2) [OF pm_invD(1), of b fl k] pm_inv_member(2) [of b fl k] first_eq_nil [of 0 "fl k"] by (auto simp: NULL_def)

lemma first_order_spec:
  assumes inv: "pm_inv b fl" and k: "k + n = 10"
  shows "\<exists>j. first_order b k n = Some j \<and> k \<le> j \<and> j \<le> 10 \<and> (fl j \<noteq> [] \<or> j = 10) \<and> (\<forall>i. k \<le> i \<and> i < j \<longrightarrow> fl i = [])"
  using k
proof (induction n arbitrary: k)
  case (Suc n)
  have l: "length (pm_heads b) = 11" using lists_okD(4) [OF pm_invD(1) [OF inv], of 0] by simp
  show ?case
  proof (cases "fl k = []")
    case True
    from Suc.IH [of "Suc k"] Suc.prems obtain j where j: "first_order b (Suc k) n = Some j" "Suc k \<le> j" "j \<le> 10"
      "fl j \<noteq> [] \<or> j = 10" "\<forall>i. Suc k \<le> i \<and> i < j \<longrightarrow> fl i = []" by auto
    have "first_order b k (Suc n) = Some j" using True l heads_null [OF inv, of k] j(1) Suc.prems by (simp add: MAX_ORDER_eq)
    moreover have "\<forall>i. k \<le> i \<and> i < j \<longrightarrow> fl i = []" using j(5) True by (metis Suc_leI le_neq_implies_less)
    ultimately show ?thesis using j by (intro exI [of _ j]) auto
  next
    case False
    then show ?thesis using l heads_null [OF inv, of k] Suc.prems by (intro exI [of _ k]) auto
  qed
qed auto

text \<open>What \<open>take_block\<close> does: nothing when no block is large enough, and otherwise the block leaves the free frames.\<close>

lemma split_taken:
  assumes inv: "pm_inv b1 fl1" and k: "target \<le> k" "k \<le> 10" "block_size k dvd p" and sp: "space_ok b (all_frames b fl)"
    and s: "same_space b b1" and F: "all_frames b fl = all_frames b1 fl1 + blk p k"
  obtains b' fl' where "split_down b1 p target (k - target) = Some b'" "pm_inv b' fl'" "same_space b b'"
    "all_frames b fl = all_frames b' fl' + blk p target" "block_size target dvd p"
    "\<forall>j. fl' j = (if target \<le> j \<and> j < k then (p + block_size j) # fl1 j else fl1 j)"
proof -
  have "space_ok b1 (all_frames b1 fl1 + blk p (target + (k - target)))"
    using sp F k(1) same_space_ok [OF s] by simp
  from split_down_spec [OF inv _ _ this] obtain b' fl' where *: "split_down b1 p target (k - target) = Some b'" "pm_inv b' fl'"
    "same_runs b1 b'" "all_frames b1 fl1 + blk p k = all_frames b' fl' + blk p target"
    "\<forall>j. fl' j = (if target \<le> j \<and> j < k then (p + block_size j) # fl1 j else fl1 j)"
    using k by auto
  have "block_size target dvd block_size k" using k(1) by (simp add: block_size_eq le_imp_power_dvd)
  then have "block_size target dvd p" using k(3) dvd_trans by blast
  then show thesis using that * F same_space_trans [OF s same_runs_space [OF *(3)]] by metis
qed

lemma live_runs_empty: "runs_ok b \<Longrightarrow> live_runs b = [] \<longleftrightarrow> pm_nruns b = 0"
  by (auto simp: runs_ok_def live_runs_def)

lemma take_block_spec:
  assumes inv: "pm_inv b fl" and t: "target \<le> 10"
  shows "take_block b target = Some (None, b) \<and> \<not> has_block b fl target \<or>
    (\<exists>p b' fl' k fl1. take_block b target = Some (Some p, b') \<and> has_block b fl target \<and> pm_inv b' fl' \<and> same_space b b' \<and>
      all_frames b fl = all_frames b' fl' + blk p target \<and> block_size target dvd p \<and>
      target \<le> k \<and> k \<le> 10 \<and> (\<forall>i. target \<le> i \<and> i < k \<longrightarrow> fl i = []) \<and> (\<forall>i. set (fl1 i) \<subseteq> set (fl i)) \<and>
      (\<forall>j. fl' j = (if target \<le> j \<and> j < k then (p + block_size j) # fl1 j else fl1 j)))"
proof -
  obtain k where k: "first_order b target (10 - target) = Some k" "target \<le> k" "k \<le> 10" "fl k \<noteq> [] \<or> k = 10"
    "\<forall>i. target \<le> i \<and> i < k \<longrightarrow> fl i = []" using first_order_spec [OF inv, of target "10 - target"] t by auto
  have l: "length (pm_heads b) = 11" using lists_okD(4) [OF pm_invD(1) [OF inv], of 0] by simp
  note sp = pm_invD(4) [OF inv] and N = heads_null [OF inv k(3)]
  show ?thesis
  proof (cases "fl k = []")
    case False
    then obtain p xs where p: "fl k = p # xs" by (cases "fl k") auto
    obtain b1 where b1: "pop_head b k = Some (p, b1)" "pm_inv b1 (fl(k := xs))" "same_runs b b1"
      "all_frames b fl = all_frames b1 (fl(k := xs)) + blk p k" using pop_head_spec [OF inv k(3) p] .
    have "block_size k dvd p" using pm_inv_member(4) [OF inv k(3), of p] p by simp
    from split_taken [OF b1(2) k(2,3) this sp same_runs_space [OF b1(3)] b1(4)]
    obtain b' fl' where *: "split_down b1 p target (k - target) = Some b'" "pm_inv b' fl'" "same_space b b'"
      "all_frames b fl = all_frames b' fl' + blk p target" "block_size target dvd p"
      "\<forall>j. fl' j = (if target \<le> j \<and> j < k then (p + block_size j) # (fl(k := xs)) j else (fl(k := xs)) j)" .
    have "take_block b target = Some (Some p, b')" using t k l N False b1(1) *(1) by (simp add: take_block_def MAX_ORDER_eq)
    moreover have "has_block b fl target" using False k(2,3) by (auto simp: has_block_def)
    moreover have "\<forall>i. set ((fl(k := xs)) i) \<subseteq> set (fl i)" using p by auto
    ultimately show ?thesis using * k(2,3,5) by blast
  next
    case True
    then have k10: "k = 10" using k(4) by simp
    let ?pick = "\<lambda>_ end. do { blk \<leftarrow> sub64 end (block_size 10); Some (Some blk) }"
    have pick: "\<exists>r. ?pick s e = Some r \<and> (r = None \<or> r = Some s \<or> r = Some (e - block_size 10))" if "(s, e) \<in> set (live_runs b)" for s e
    proof -
      have "s < e" "block_size 10 dvd s" "block_size 10 dvd e" using that pm_invD(2) [OF inv] by (auto simp: runs_ok_def)
      from run_rest_spec(7) [OF this, of s] show ?thesis by simp
    qed
    from take_run_spec [OF inv order_refl pick] consider
        (none) "take_run b ?pick (pm_nruns b) = Some (None, b)" "\<forall>i < pm_nruns b. ?pick (fst (pm_runs b ! i)) (snd (pm_runs b ! i)) = Some None"
      | (some) p b1 where "take_run b ?pick (pm_nruns b) = Some (Some p, b1)" "pm_inv b1 fl" "same_space b b1"
        "all_frames b fl = all_frames b1 fl + blk p 10" "block_size 10 dvd p" "live_runs b \<noteq> []"
      by (metis (no_types, lifting) empty_iff empty_set)
    then show ?thesis
    proof cases
      case none
      then have "pm_nruns b = 0" by (cases "pm_nruns b") (auto simp: rust_Some bind_eq_Some_conv dest: spec [of _ 0])
      then have "live_runs b = []" using live_runs_empty [OF pm_invD(2) [OF inv]] by simp
      moreover have "fl j = []" if "target \<le> j" "j \<le> 10" for j using that k(5) True k10 by (cases "j = 10") auto
      ultimately have "\<not> has_block b fl target" by (auto simp: has_block_def)
      moreover have "take_block b target = Some (None, b)"
        using t k l N True none(1) by (simp add: take_block_def MAX_ORDER_eq take_run_block_def)
      ultimately show ?thesis by simp
    next
      case some
      from split_taken [OF some(2) _ _ some(5) sp some(3,4), of target] t obtain b' fl' where *:
        "split_down b1 p target (10 - target) = Some b'" "pm_inv b' fl'" "same_space b b'"
        "all_frames b fl = all_frames b' fl' + blk p target" "block_size target dvd p"
        "\<forall>j. fl' j = (if target \<le> j \<and> j < 10 then (p + block_size j) # fl j else fl j)" by blast
      have "take_block b target = Some (Some p, b')"
        using t k l N True some(1) *(1) k10 by (simp add: take_block_def MAX_ORDER_eq take_run_block_def)
      moreover have "has_block b fl target" using some(6) by (simp add: has_block_def)
      ultimately show ?thesis using * k(2,3,5) k10 by blast
    qed
  qed
qed

lemma find_order_spec:
  assumes inv: "pm_inv b fl" and k: "k + n = 11"
  shows "find_order b P k n = Some (NULL, 11) \<and> (\<forall>i p. k \<le> i \<and> i \<le> 10 \<and> p \<in> set (fl i) \<longrightarrow> \<not> P p) \<or>
    (\<exists>p j. find_order b P k n = Some (p, j) \<and> k \<le> j \<and> j \<le> 10 \<and> p \<in> set (fl j) \<and> P p \<and> p \<noteq> NULL)"
  using k
proof (induction n arbitrary: k)
  case (Suc n)
  have l: "length (pm_heads b) = 11" using lists_okD(4) [OF pm_invD(1) [OF inv], of 0] by simp
  have k: "k \<le> 10" using Suc.prems by simp
  show ?case
  proof (cases "find P (fl k)")
    case None
    then have r: "find_order b P k (Suc n) = find_order b P (Suc k) n" using find_node_spec [OF inv k, of P] l k by simp
    have "\<not> P p" if "p \<in> set (fl k)" for p using None that by (auto simp: find_None_iff)
    then show ?thesis using Suc.IH [of "Suc k"] Suc.prems unfolding r by (metis Suc_leI Suc_leD add_Suc_shift le_neq_implies_less)
  next
    case (Some p)
    then have p: "p \<in> set (fl k)" "P p" by (auto simp: find_Some_iff)
    moreover have "p \<noteq> NULL" using pm_inv_member(2) [OF inv k p(1)] by (simp add: NULL_def)
    ultimately show ?thesis using find_node_spec [OF inv k, of P] l k Some by auto
  qed
qed auto

lemma pm_alloc_constrained_spec:
  assumes inv: "pm_inv b fl" and t: "target \<le> 10"
  shows "pm_alloc_constrained b target m = Some (None, b) \<or>
    (\<exists>p b' fl' k fl1. pm_alloc_constrained b target m = Some (Some (fr_new p target), b') \<and> pm_inv b' fl' \<and> same_space b b' \<and>
      all_frames b fl = all_frames b' fl' + blk p target \<and> block_size target dvd p \<and> p + block_size target \<le> m \<and>
      target \<le> k \<and> k \<le> 10 \<and> block_size k dvd p \<and> (\<forall>i. set (fl1 i) \<subseteq> set (fl i)) \<and>
      (\<forall>j. fl' j = (if target \<le> j \<and> j < k then (p + block_size j) # fl1 j else fl1 j)))"
proof -
  let ?P = "fits_below (block_size target) m"
  note sp = pm_invD(4) [OF inv]
  have fit: "p + block_size target \<le> m" if "?P p" for p using that by (auto simp: fits_below_def rust_Some split: option.splits)
  from find_order_spec [OF inv, of target "11 - target" ?P] t consider
      (none) "find_order b ?P target (11 - target) = Some (NULL, 11)"
    | (some) p k where "find_order b ?P target (11 - target) = Some (p, k)" "target \<le> k" "k \<le> 10" "p \<in> set (fl k)" "?P p" "p \<noteq> NULL"
    by auto
  then show ?thesis
  proof cases
    case none
    let ?pick = "\<lambda>start (_ :: nat). Some (if ?P start then Some start else None)"
    have pick: "\<exists>r. ?pick s e = Some r \<and> (r = None \<or> r = Some s \<or> r = Some (e - block_size 10))" for s e by simp
    have "?P p" if "?pick s e = Some (Some p)" for s e p using that by (simp split: if_splits)
    with take_run_spec [OF inv order_refl pick] consider
        (no) "take_run b ?pick (pm_nruns b) = Some (None, b)"
      | (yes) p b1 where "take_run b ?pick (pm_nruns b) = Some (Some p, b1)" "pm_inv b1 fl" "same_space b b1"
        "all_frames b fl = all_frames b1 fl + blk p 10" "block_size 10 dvd p" "?P p"
      by blast
    then show ?thesis
    proof cases
      case no
      then show ?thesis using none t by (simp add: pm_alloc_constrained_def MAX_ORDER_eq take_run_block_def)
    next
      case yes
      from split_taken [OF yes(2) _ _ yes(5) sp yes(3,4), of target] t obtain b' fl' where *:
        "split_down b1 p target (10 - target) = Some b'" "pm_inv b' fl'" "same_space b b'"
        "all_frames b fl = all_frames b' fl' + blk p target" "block_size target dvd p"
        "\<forall>j. fl' j = (if target \<le> j \<and> j < 10 then (p + block_size j) # fl j else fl j)" by blast
      have "pm_alloc_constrained b target m = Some (Some (fr_new p target), b')"
        using none t yes(1) *(1) by (simp add: pm_alloc_constrained_def MAX_ORDER_eq take_run_block_def)
      then show ?thesis using * fit [OF yes(6)] t yes(5) by blast
    qed
  next
    case some
    from unlink_spec [OF inv some(3,4)] obtain b1 where b1: "unlink b p k = Some b1" "pm_inv b1 (fl(k := remove1 p (fl k)))"
      "same_runs b b1" "all_frames b fl = all_frames b1 (fl(k := remove1 p (fl k))) + blk p k" .
    have d: "block_size k dvd p" by (rule pm_inv_member(4) [OF inv some(3,4)])
    from split_taken [OF b1(2) some(2,3) d sp same_runs_space [OF b1(3)] b1(4)] obtain b' fl' where *:
      "split_down b1 p target (k - target) = Some b'" "pm_inv b' fl'" "same_space b b'"
      "all_frames b fl = all_frames b' fl' + blk p target" "block_size target dvd p"
      "\<forall>j. fl' j = (if target \<le> j \<and> j < k then (p + block_size j) # (fl(k := remove1 p (fl k))) j else (fl(k := remove1 p (fl k))) j)" .
    have "pm_alloc_constrained b target m = Some (Some (fr_new p target), b')"
      using some(1,6) t b1(1) *(1) by (simp add: pm_alloc_constrained_def MAX_ORDER_eq)
    moreover have "\<forall>i. set ((fl(k := remove1 p (fl k))) i) \<subseteq> set (fl i)" using set_remove1_subset [of p "fl k"] by auto
    ultimately show ?thesis using * fit [OF some(5)] some(2,3) d by blast
  qed
qed

section \<open>Release\<close>

definition covered :: "buddy \<Rightarrow> (nat \<Rightarrow> nat list) \<Rightarrow> nat \<Rightarrow> nat \<Rightarrow> bool" where
  "covered b fl p k \<longleftrightarrow> (\<exists>r \<in> set (live_runs b). fst r \<le> p \<and> p < snd r) \<or>
     (\<exists>j q. k \<le> j \<and> j \<le> 10 \<and> q \<in> set (fl j) \<and> q \<le> p \<and> p < q + block_size j)"

lemma in_run_iff: "runs_ok b \<Longrightarrow> in_run b p \<longleftrightarrow> (\<exists>r \<in> set (live_runs b). fst r \<le> p \<and> p < snd r)"
proof -
  assume *: "runs_ok b"
  then have "set (live_runs b) = (!) (pm_runs b) ` {0..<pm_nruns b}" by (simp add: live_runs_def runs_ok_def nth_image)
  then have "(\<exists>r \<in> set (live_runs b). fst r \<le> p \<and> p < snd r) \<longleftrightarrow>
    (\<exists>i < pm_nruns b. fst (pm_runs b ! i) \<le> p \<and> p < snd (pm_runs b ! i))" by (simp only: bex_simps(7) atLeast0LessThan) (auto simp: Bex_def)
  moreover have "i < length (pm_runs b)" if "i < pm_nruns b" for i using * that by (simp add: runs_ok_def)
  ultimately show ?thesis by (auto simp: in_run_def list_ex_iff get_opt_def split_beta)
qed

lemma block_start:
  assumes "p < 2 ^ 64" "j \<le> 10" "block_size j dvd q"
  shows "and_not64 p (block_size j - 1) = q \<longleftrightarrow> q \<le> p \<and> p < q + block_size j"
proof -
  let ?m = "block_size j"
  have b: "?m = 2 ^ (12 + j)" by (simp add: block_size_eq power_add)
  then have z: "0 < ?m" by simp
  have "and_not64 p (?m - 1) = p div ?m * ?m" using and_not64_mask [of p "12 + j"] assms b by simp
  moreover obtain c where c: "q = ?m * c" using assms(3) by auto
  moreover have "p div ?m = c \<longleftrightarrow> ?m * c \<le> p \<and> p < ?m * c + ?m"
    using z div_nat_eqI [of ?m c p] by (auto simp: algebra_simps dividend_less_times_div)
  ultimately show ?thesis using z by (auto simp: mult.commute)
qed

lemma ex_from: "(\<exists>j q. k \<le> j \<and> R j q) \<longleftrightarrow> (\<exists>q. R k q) \<or> (\<exists>j q. Suc k \<le> j \<and> R j q)" for k :: nat
  by (metis Suc_leD Suc_leI le_neq_implies_less order_refl)

lemma covered_from_spec:
  assumes inv: "pm_inv b fl" and p: "p < 2 ^ 64" and k: "k + n = 11"
  shows "covered_from b p k n = Some (\<exists>j q. k \<le> j \<and> j \<le> 10 \<and> q \<in> set (fl j) \<and> q \<le> p \<and> p < q + block_size j)"
  using k
proof (induction n arbitrary: k)
  case (Suc n)
  have k: "k \<le> 10" using Suc.prems by simp
  let ?R = "\<lambda>j q. j \<le> 10 \<and> q \<in> set (fl j) \<and> q \<le> p \<and> p < q + block_size j"
  have h: "and_not64 p (block_size k - 1) \<in> set (fl k) \<longleftrightarrow> (\<exists>q. ?R k q)"
    using block_start [OF p k] pm_inv_member(4) [OF inv k] k by metis
  have "(\<exists>j q. k \<le> j \<and> ?R j q) \<longleftrightarrow> (\<exists>q. ?R k q) \<or> (\<exists>j q. Suc k \<le> j \<and> ?R j q)" by (rule ex_from)
  moreover have "covered_from b p (Suc k) n = Some (\<exists>j q. Suc k \<le> j \<and> ?R j q)" using Suc.IH [of "Suc k"] Suc.prems by simp
  moreover have "covered_from b p k (Suc n) = (if \<exists>q. ?R k q then Some True else covered_from b p (Suc k) n)"
    by (simp only: covered_from.simps in_free_list_spec [OF inv k] h bind.bind_lunit)
  ultimately show ?case by (cases "\<exists>q. ?R k q") (simp_all only: if_True if_False simp_thms)
qed auto

lemma covered_spec:
  assumes inv: "pm_inv b fl" and p: "p < 2 ^ 64" and k: "k \<le> 10"
  shows "covered_by_free_block b p k = Some (covered b fl p k)"
  using covered_from_spec [OF inv p, of k "11 - k"] in_run_iff [OF pm_invD(2) [OF inv], of p] k
  by (auto simp: covered_by_free_block_def covered_def MAX_ORDER_eq Suc_diff_le)

lemma covered_free:
  assumes inv: "pm_inv b fl" and c: "covered b fl p k"
  shows "p div 4096 \<in># all_frames b fl"
  using c unfolding covered_def
proof
  assume "\<exists>r \<in> set (live_runs b). fst r \<le> p \<and> p < snd r"
  then obtain r where r: "r \<in> set (live_runs b)" "fst r \<le> p" "p < snd r" by auto
  have "block_size 10 dvd snd r" using r(1) pm_invD(2) [OF inv] by (simp add: runs_ok_def)
  then have "4096 dvd snd r" unfolding block_size_eq by (rule dvd_mult_left)
  then have "p div 4096 < snd r div 4096" using r(3) by (elim dvdE) (simp add: div_less_iff_less_mult mult.commute)
  then have "p div 4096 \<in># seg (fst r) (snd r)" using div_le_mono [OF r(2), of 4096] by simp
  then show ?thesis using run_member [OF r(1)] by (simp add: all_frames_def)
next
  assume "\<exists>j q. k \<le> j \<and> j \<le> 10 \<and> q \<in> set (fl j) \<and> q \<le> p \<and> p < q + block_size j"
  then obtain j q where q: "j \<le> 10" "q \<in> set (fl j)" "q \<le> p" "p < q + block_size j" by auto
  have "4096 dvd q" using pm_inv_member(4) [OF inv q(1,2)] unfolding block_size_eq by (rule dvd_mult_left)
  then obtain c where c: "q = 4096 * c" by (elim dvdE)
  then have "p < (c + 2 ^ j) * 4096" using q(4) by (simp add: block_size_eq algebra_simps)
  then have "p div 4096 < c + 2 ^ j" by (simp add: div_less_iff_less_mult)
  then have "p div 4096 \<in># blk q j" using div_le_mono [OF q(3), of 4096] c by simp
  then show ?thesis using list_frames_in [of j q fl, OF q(1,2)] by (simp add: all_frames_def del: in_blk)
qed

text \<open>Releasing a block that is not free: it goes back to the free frames, merged as far as it can be.\<close>

lemma deallocate_spec:
  assumes inv: "pm_inv b fl" and k: "k \<le> 10" "block_size k dvd p" and sp: "space_ok b (all_frames b fl + blk p k)"
  obtains b' fl' where "deallocate b p k = Some b'" "pm_inv b' fl'" "same_runs b b'"
    "all_frames b' fl' = all_frames b fl + blk p k" "covered b' fl' p k"
    "\<exists>q j fl1. fl' = fl1(j := q # fl1 j) \<and> j \<le> 10 \<and> (j < 10 \<longrightarrow> q XOR block_size j \<notin> set (fl1 j)) \<and> (\<forall>i. set (fl1 i) \<subseteq> set (fl i)) \<and> block_size j dvd q"
proof -
  note p = fresh_block [OF inv sp]
  have "p AND (block_size k - 1) = 0"
  proof -
    have "block_size k = 2 ^ (12 + k)" by (simp add: block_size_eq power_add)
    then have "p AND (block_size k - 1) = take_bit (12 + k) p" by (simp only: mask_eq_exp_minus_1 [symmetric] take_bit_eq_mask)
    then show ?thesis using k(2) by (simp add: take_bit_eq_mod block_size_eq power_add mod_eq_0_iff_dvd)
  qed
  moreover have "\<not> covered b fl p k"
    using covered_free [OF inv] space_ok_disjoint [OF sp, of "p div 4096"] by auto
  moreover obtain q j b1 fl1 where m: "merge_up b p k = Some (q, j, b1)" "pm_inv b1 fl1" "same_runs b b1" "k \<le> j" "j \<le> 10"
    "block_size j dvd q" "q \<le> p" "p < q + block_size j" "all_frames b1 fl1 + blk q j = all_frames b fl + blk p k"
    "j < 10 \<longrightarrow> q XOR block_size j \<notin> set (fl1 j)" "\<forall>i. set (fl1 i) \<subseteq> set (fl i)"
    using merge_up_spec [OF inv k sp] by blast
  moreover have "space_ok b1 (all_frames b1 fl1 + blk q j)"
    using m(9) sp same_space_ok [OF same_runs_space [OF m(3)]] by simp
  from push_free_spec [OF m(2,5,6) this] obtain b' where b': "push_free b1 q j = Some b'" "pm_inv b' (fl1(j := q # fl1 j))" "same_runs b1 b'" .
  ultimately have "deallocate b p k = Some b'"
    using k covered_spec [OF inv p(2) k(1)] by (simp add: deallocate_def MAX_ORDER_eq)
  moreover have "all_frames b' (fl1(j := q # fl1 j)) = all_frames b fl + blk p k"
    using list_frames_push [OF m(5), of fl1 q] same_runs_live [OF b'(3)] m(9) by (simp add: all_frames_def ac_simps)
  moreover have "covered b' (fl1(j := q # fl1 j)) p k" using m(4,5,7,8) by (auto simp: covered_def)
  moreover have "same_runs b b'" using m(3) b'(3) by (simp add: same_runs_def same_space_def)
  ultimately show thesis using that b'(2) m(5,6,10,11) by blast
qed

end
