(* ===== verification/Pmm_Sys.thy ===== *)
theory Pmm_Sys
  imports Pmm_Ops
begin

text \<open>
  Giving the buddy allocator its memory, and the allocator with its clients: regions are inserted, blocks are handed out
  and given back, and the owner of a block writes what it likes into it.
\<close>

section \<open>Inserting a region\<close>

lemma trailing_zeros_dvd: "0 < n \<Longrightarrow> 2 ^ ctz64 n dvd n"
proof (induction n rule: ctz64.induct)
  case (1 n)
  show ?case
  proof (cases "odd n")
    case False
    then obtain m where m: "n = 2 * m" by auto
    then have "2 ^ ctz64 m dvd m" using 1 False by simp
    then show ?thesis using m False 1 by (subst ctz64.simps) simp
  qed (simp add: ctz64.simps)
qed

lemma trailing_zeros_le: "0 < n \<Longrightarrow> 2 ^ k dvd n \<Longrightarrow> k \<le> ctz64 n"
proof (induction n arbitrary: k rule: ctz64.induct)
  case (1 n)
  show ?case
  proof (cases k)
    case (Suc j)
    then have "2 * 2 ^ j dvd n" using 1 by simp
    then obtain m where m: "n = 2 * m" "2 ^ j dvd m" by (auto elim!: dvdE)
    then have "j \<le> ctz64 m" using 1 by simp
    then show ?thesis using m 1 Suc by (subst ctz64.simps) simp
  qed simp
qed

lemma region_order_dvd:
  assumes "0 < a" "4096 dvd a"
  shows "block_size (region_order a e) dvd a" "PAGE_BITS \<le> ctz64 a" "region_order a e \<le> 10"
proof -
  show t: "PAGE_BITS \<le> ctz64 a" using trailing_zeros_le [OF assms(1), of 12] assms(2) by (simp add: PAGE_BITS_def)
  have "12 + region_order a e \<le> ctz64 a" using t by (simp add: region_order_def PAGE_BITS_def)
  then have "2 ^ (12 + region_order a e) dvd a" using trailing_zeros_dvd [OF assms(1)] le_imp_power_dvd dvd_trans by blast
  then show "block_size (region_order a e) dvd a" by (simp add: block_size_eq power_add)
  show "region_order a e \<le> 10" by (simp add: region_order_def MAX_ORDER_eq)
qed

lemma add_run_spec:
  assumes ok: "runs_ok b" and a: "a < e" "block_size 10 dvd a" "block_size 10 dvd e"
  shows "add_run b a e = Some (False, b) \<or>
    (\<exists>b'. add_run b a e = Some (True, b') \<and> b' = b\<lparr>pm_runs := pm_runs b', pm_nruns := pm_nruns b'\<rparr> \<and> runs_ok b' \<and>
      run_frames (live_runs b') = run_frames (live_runs b) + seg a e \<and>
      run_blocks (live_runs b') = run_blocks (live_runs b) + (e - a) div block_size 10)"
proof -
  let ?i = "pm_nruns b - 1"
  have len: "length (pm_runs b) = 16" "pm_nruns b \<le> 16" using ok by (simp_all add: runs_ok_def)
  show ?thesis
  proof (cases "0 < pm_nruns b \<and> snd (pm_runs b ! ?i) = a")
    case True
    define s where "s = fst (pm_runs b ! ?i)"
    have sa: "pm_runs b ! ?i = (s, a)" using True by (simp add: s_def prod_eq_iff)
    define b' where "b' = b\<lparr>pm_runs := (pm_runs b)[?i := (s, e)]\<rparr>"
    have i: "?i < pm_nruns b" using True by simp
    note N = live_runs_nth [OF ok i]
    have nil: "drop (Suc ?i) (live_runs b) = []" using True by (simp add: live_runs_def)
    have live: "live_runs b = take ?i (pm_runs b) @ [(s, a)]" using N(2) unfolding nil sa .
    have live': "live_runs b' = take ?i (pm_runs b) @ [(s, e)]"
      using True N(3) take_Suc_list_update [of ?i "pm_runs b" "(s, e)"] by (simp add: b'_def live_runs_def)
    have m: "s < a" "block_size 10 dvd s" using N(1) sa ok by (auto simp: runs_ok_def)
    have "add_run b a e = Some (True, b')" using True a len by (simp add: add_run_def b'_def s_def not_le)
    moreover have "runs_ok b'"
      unfolding runs_ok_def
    proof (intro conjI ballI)
      fix r assume "r \<in> set (live_runs b')"
      then have "r = (s, e) \<or> r \<in> set (live_runs b)" by (auto simp: live live')
      then show "fst r < snd r" "block_size 10 dvd fst r" "block_size 10 dvd snd r" using m a ok by (auto simp: runs_ok_def)
    qed (use len in \<open>simp_all add: b'_def\<close>)
    moreover have "run_frames (live_runs b') = run_frames (live_runs b) + seg a e"
      using m(1) a(1) seg_split [of s a e] by (simp add: live live' ac_simps)
    moreover have "(e - s) div block_size 10 = (a - s) div block_size 10 + (e - a) div block_size 10"
    proof -
      have "e - s = (a - s) + (e - a)" using m(1) a(1) by simp
      moreover have "block_size 10 dvd a - s" using m a by (simp add: dvd_diff_nat)
      ultimately show ?thesis using div_plus_div_distrib_dvd_left by metis
    qed
    then have "run_blocks (live_runs b') = run_blocks (live_runs b) + (e - a) div block_size 10" by (simp add: live live')
    moreover have "b' = b\<lparr>pm_runs := pm_runs b', pm_nruns := pm_nruns b'\<rparr>" by (simp add: b'_def)
    ultimately show ?thesis by blast
  next
    case False
    then have c: "\<not> e \<le> a" "\<not> (0 < pm_nruns b \<and> pm_nruns b - 1 < length (pm_runs b) \<and> snd (pm_runs b ! (pm_nruns b - 1)) = a)"
      using a(1) by auto
    have add: "add_run b a e = (if pm_nruns b < length (pm_runs b) then do {
        n \<leftarrow> add64 (pm_nruns b) 1;
        Some (True, b\<lparr>pm_runs := (pm_runs b)[pm_nruns b := (a, e)], pm_nruns := n\<rparr>) } else Some (False, b))"
      unfolding add_run_def if_not_P [OF c(1)] if_not_P [OF c(2)] ..
    show ?thesis
    proof (cases "pm_nruns b < 16")
      case True
      define b' where "b' = b\<lparr>pm_runs := (pm_runs b)[pm_nruns b := (a, e)], pm_nruns := pm_nruns b + 1\<rparr>"
      have live': "live_runs b' = live_runs b @ [(a, e)]"
        using True len by (simp add: b'_def live_runs_def)
      from add len True have "add_run b a e = Some (True, b')" by (simp add: b'_def)
      moreover have "length (pm_runs b') = 16" "pm_nruns b' \<le> 16" using len True by (simp_all add: b'_def)
      then have "runs_ok b'" using ok a by (auto simp: runs_ok_def live')
      moreover have "b' = b\<lparr>pm_runs := pm_runs b', pm_nruns := pm_nruns b'\<rparr>" by (simp add: b'_def)
      moreover have "run_frames (live_runs b') = run_frames (live_runs b) + seg a e" by (simp add: live')
      moreover have "run_blocks (live_runs b') = run_blocks (live_runs b) + (e - a) div block_size 10" by (simp add: live')
      ultimately show ?thesis by blast
    next
      case f: False
      then show ?thesis using add len by simp
    qed
  qed
qed

lemma insert_run_spec:
  assumes inv: "pm_inv b fl" and a: "a < e" "block_size 10 dvd a" "block_size 10 dvd e"
    and sp: "space_ok b (all_frames b fl + seg a e)" and t: "pm_total_frames b + size (seg a e) < 2 ^ 64"
    and n: "n = (e - a) div block_size 10" and ar: "add_run b a e = Some (True, b1)"
  obtains b2 where "b2 = b1\<lparr>pm_total_frames := pm_total_frames b1 + push_bit 10 n, pm_counts := (pm_counts b1)[10 := pm_counts b1 ! 10 + n],
      pm_free_frames := pm_free_frames b1 + push_bit 10 n\<rparr>"
    "pm_total_frames b1 + push_bit 10 n < 2 ^ 64" "pm_counts b1 ! 10 + n < 2 ^ 64" "length (pm_counts b1) = 11"
    "pm_free_frames b1 + push_bit 10 n < 2 ^ 64" "pm_inv b2 fl" "all_frames b2 fl = all_frames b fl + seg a e"
    "pm_total_frames b2 = pm_total_frames b + size (seg a e)" "pm_span_lo b2 = pm_span_lo b" "pm_span_hi b2 = pm_span_hi b"
    "pm_hhdm_offset b2 = pm_hhdm_offset b"
proof -
  note I = pm_invD [OF inv]
  obtain b1: "b1 = b\<lparr>pm_runs := pm_runs b1, pm_nruns := pm_nruns b1\<rparr>" and r1: "runs_ok b1"
    "run_frames (live_runs b1) = run_frames (live_runs b) + seg a e"
    "run_blocks (live_runs b1) = run_blocks (live_runs b) + n"
    using add_run_spec [OF I(2) a] ar n by auto
  define b2 where "b2 = b1\<lparr>pm_total_frames := pm_total_frames b1 + push_bit 10 n, pm_counts := (pm_counts b1)[10 := pm_counts b1 ! 10 + n],
      pm_free_frames := pm_free_frames b1 + push_bit 10 n\<rparr>"
  have f1: "pm_counts b1 = pm_counts b" "pm_free_frames b1 = pm_free_frames b" "pm_heads b1 = pm_heads b" "node b1 = node b"
    "pm_total_frames b1 = pm_total_frames b" "pm_span_lo b1 = pm_span_lo b" "pm_span_hi b1 = pm_span_hi b"
    "pm_hhdm_offset b1 = pm_hhdm_offset b" by (subst b1, simp)+
  have f2: "nxt_of b2 = nxt_of b" "prv_of b2 = prv_of b" "pm_heads b2 = pm_heads b" "pm_span_lo b2 = pm_span_lo b"
    "pm_span_hi b2 = pm_span_hi b" "pm_hhdm_offset b2 = pm_hhdm_offset b"
    using f1 by (simp_all add: b2_def nxt_of_def prv_of_def fun_eq_iff node_def node_ptr_def)
  have l: "live_runs b2 = live_runs b1" "runs_ok b2 = runs_ok b1" by (simp_all add: b2_def live_runs_def runs_ok_def)
  have sz: "push_bit 10 n = size (seg a e)"
  proof -
    obtain x y where xy: "a = block_size 10 * x" "e = block_size 10 * y" using a(2,3) by (elim dvdE) auto
    then have "n = y - x" by (simp add: n block_size_eq flip: diff_mult_distrib2)
    moreover have "a div 4096 = 1024 * x" "e div 4096 = 1024 * y" by (simp_all add: xy block_size_eq)
    ultimately show ?thesis by (simp add: push_bit_eq_mult diff_mult_distrib2)
  qed
  have F: "all_frames b2 fl = all_frames b fl + seg a e" by (simp add: all_frames_def l r1(2) ac_simps)
  have c: "length (pm_counts b) = 11" "pm_free_frames b = size (all_frames b fl)"
    "\<forall>k \<le> 10. pm_counts b ! k = length (fl k) + (if k = 10 then run_blocks (live_runs b) else 0)"
    using I(3) by (simp_all add: counts_ok_def)
  have fr: "pm_free_frames b + push_bit 10 n \<le> 2 ^ 52" using space_ok_size [OF sp] c(2) sz by simp
  have "n \<le> push_bit 10 n" by (simp add: push_bit_eq_mult)
  then have cn: "pm_counts b ! 10 + n \<le> 2 ^ 52" using counts_le [OF inv, of 10] fr c(2) by linarith
  have cf: "pm_counts b2 = (pm_counts b)[10 := pm_counts b ! 10 + n]" "pm_free_frames b2 = pm_free_frames b + push_bit 10 n"
    by (simp_all add: b2_def f1)
  have "counts_ok b2 fl" unfolding counts_ok_def cf using c F sz l r1(3) by (auto simp: nth_list_update)
  moreover have "lists_ok b2 fl" using I(1) unfolding lists_ok_def f2 .
  moreover have "space_ok b2 (all_frames b2 fl)" using sp F f2 by (simp add: space_ok_def)
  ultimately have "pm_inv b2 fl" using l r1(1) by (simp add: pm_inv_def)
  moreover have "pm_total_frames b2 = pm_total_frames b + size (seg a e)" by (simp only: b2_def f1 sz) simp
  moreover have "pm_total_frames b1 + push_bit 10 n < 2 ^ 64" using t by (simp only: f1 sz)
  moreover have "pm_counts b1 ! 10 + n < 2 ^ 64" "length (pm_counts b1) = 11" "pm_free_frames b1 + push_bit 10 n < 2 ^ 64"
    unfolding f1 using cn fr c(1) by simp_all
  ultimately show thesis using F f2(4-6) by (intro that [OF b2_def])
qed

lemma insert_push_spec:
  assumes inv: "pm_inv b fl" and k: "k \<le> 10" "block_size k dvd a" and sp: "space_ok b (all_frames b fl + blk a k)"
    and t: "pm_total_frames b + 2 ^ k < 2 ^ 64"
  obtains b' where "push_free (b\<lparr>pm_total_frames := pm_total_frames b + 2 ^ k\<rparr>) a k = Some b'" "pm_inv b' (fl(k := a # fl k))"
    "all_frames b' (fl(k := a # fl k)) = all_frames b fl + blk a k" "pm_total_frames b' = pm_total_frames b + 2 ^ k"
    "pm_span_lo b' = pm_span_lo b" "pm_span_hi b' = pm_span_hi b" "pm_hhdm_offset b' = pm_hhdm_offset b"
proof -
  let ?b = "b\<lparr>pm_total_frames := pm_total_frames b + 2 ^ k\<rparr>"
  have l: "live_runs ?b = live_runs b" by (simp add: live_runs_def)
  have F: "all_frames ?b fl = all_frames b fl" by (simp add: all_frames_def l)
  have S: "space_ok ?b G = space_ok b G" for G by (simp add: space_ok_def)
  have n: "nxt_of ?b = nxt_of b" "prv_of ?b = prv_of b" by (simp_all add: fun_eq_iff nxt_of_def prv_of_def)
  have "pm_inv ?b fl" using inv unfolding pm_inv_def F S lists_ok_def runs_ok_def counts_ok_def l n by simp
  from push_free_spec [OF this k] sp obtain b' where b': "push_free ?b a k = Some b'" "pm_inv b' (fl(k := a # fl k))" "same_runs ?b b'"
    unfolding F S by blast
  have "all_frames b' (fl(k := a # fl k)) = all_frames b fl + blk a k"
    using list_frames_push [OF k(1), of fl a] same_runs_live [OF b'(3)] l by (simp add: all_frames_def)
  then show thesis using that b' by (simp add: same_runs_def same_space_def)
qed

text \<open>What the loop of \<open>insert_region\<close> does: it ends, and the whole range is free.\<close>

lemma insert_loop_spec:
  assumes "pm_inv b fl" "0 < a" "a \<le> e" "4096 dvd a" "4096 dvd e" "space_ok b (all_frames b fl + seg a e)"
    "pm_total_frames b + size (seg a e) < 2 ^ 64"
  shows "\<exists>b' fl'. insert_loop a e b = Some b' \<and> pm_inv b' fl' \<and> all_frames b' fl' = all_frames b fl + seg a e \<and>
    pm_total_frames b' = pm_total_frames b + size (seg a e) \<and> pm_span_lo b' = pm_span_lo b \<and> pm_span_hi b' = pm_span_hi b \<and>
    pm_hhdm_offset b' = pm_hhdm_offset b"
  using assms
proof (induction "e - a" arbitrary: a b fl rule: less_induct)
  case less
  note inv = less.prems(1) and sp = less.prems(6) and tot = less.prems(7)
  show ?case
  proof (cases "a < e")
    case False
    then have "insert_loop a e b = Some b" "seg a e = {#}" using less.prems(3) by (simp_all add: insert_loop.simps seg_def)
    then show ?thesis using inv by auto
  next
    case ae: True
    let ?k = "region_order a e"
    define n where "n = (e - a) div block_size 10"
    let ?m = "a + n * block_size 10"
    have R: "block_size ?k dvd a" "PAGE_BITS \<le> ctz64 a" "?k \<le> 10" using region_order_dvd [OF less.prems(2,4)] by auto
    have fit: "a + block_size ?k \<le> e" by (rule region_order_fits [OF ae less.prems(4,5)])
    have "1 \<le> (2 :: nat) ^ ?k" by simp
    then have "4096 \<le> e - a" using fit unfolding block_size_eq by linarith
    then have pg: "(e - a) div FRAME_SIZE \<noteq> 0" by (simp add: FRAME_SIZE_eq div_eq_0_iff)
    have step: "\<exists>b' fl'. insert_loop m e b1 = Some b' \<and> pm_inv b' fl' \<and> all_frames b' fl' = all_frames b fl + seg a e \<and>
      pm_total_frames b' = pm_total_frames b + size (seg a e) \<and> pm_span_lo b' = pm_span_lo b \<and> pm_span_hi b' = pm_span_hi b \<and>
      pm_hhdm_offset b' = pm_hhdm_offset b"
      if m: "a < m" "m \<le> e" "4096 dvd m" and b1: "pm_inv b1 fl1" "all_frames b1 fl1 = all_frames b fl + seg a m"
        "pm_total_frames b1 = pm_total_frames b + size (seg a m)" "pm_span_lo b1 = pm_span_lo b" "pm_span_hi b1 = pm_span_hi b"
        "pm_hhdm_offset b1 = pm_hhdm_offset b" for m b1 fl1
    proof -
      have F: "all_frames b1 fl1 + seg m e = all_frames b fl + seg a e" using seg_split [of a m e] m b1(2) by simp
      moreover have T: "pm_total_frames b1 + size (seg m e) = pm_total_frames b + size (seg a e)"
        using seg_split [of a m e] m b1(3) by simp
      moreover have "space_ok b1 (all_frames b1 fl1 + seg m e)" using sp F b1(4,5) by (simp add: space_ok_def)
      ultimately show ?thesis
        using less.hyps [OF _ b1(1) _ m(2,3) less.prems(5)] m ae tot b1(4-6) less.prems(2) by (simp add: diff_less_mono2 del: size_seg)
    qed
    have push: "\<exists>b1. push_free (b\<lparr>pm_total_frames := pm_total_frames b + 2 ^ ?k\<rparr>) a ?k = Some b1 \<and> pm_total_frames b + 2 ^ ?k < 2 ^ 64 \<and>
      (\<exists>b' fl'. insert_loop (a + block_size ?k) e b1 = Some b' \<and> pm_inv b' fl' \<and> all_frames b' fl' = all_frames b fl + seg a e \<and>
        pm_total_frames b' = pm_total_frames b + size (seg a e) \<and> pm_span_lo b' = pm_span_lo b \<and> pm_span_hi b' = pm_span_hi b \<and>
        pm_hhdm_offset b' = pm_hhdm_offset b)"
    proof -
      have sg: "seg a e = blk a ?k + seg (a + block_size ?k) e" using fit seg_split [of a "a + block_size ?k" e] by (simp add: blk_def)
      have s1: "space_ok b (all_frames b fl + blk a ?k)"
        using sp space_ok_plus unfolding sg by (metis add.assoc)
      have t1: "pm_total_frames b + 2 ^ ?k < 2 ^ 64" using tot unfolding sg by simp
      obtain b1 where b1: "push_free (b\<lparr>pm_total_frames := pm_total_frames b + 2 ^ ?k\<rparr>) a ?k = Some b1" "pm_inv b1 (fl(?k := a # fl ?k))"
        "all_frames b1 (fl(?k := a # fl ?k)) = all_frames b fl + blk a ?k" "pm_total_frames b1 = pm_total_frames b + 2 ^ ?k"
        "pm_span_lo b1 = pm_span_lo b" "pm_span_hi b1 = pm_span_hi b" "pm_hhdm_offset b1 = pm_hhdm_offset b"
        using insert_push_spec [OF inv R(3,1) s1 t1] .
      have "4096 dvd a + block_size ?k" using less.prems(4) by (simp add: block_size_eq)
      from step [OF _ fit this b1(2)] b1 t1 show ?thesis by (simp add: blk_def block_size_eq)
    qed
    have run_end: "a < ?m" "?m \<le> e" "block_size 10 dvd ?m" "4096 dvd ?m" "0 < n" if "block_size 10 dvd a" "a + block_size 10 \<le> e"
    proof -
      show n: "0 < n" using that(2) by (simp add: n_def div_greater_zero_iff block_size_eq)
      show "a < ?m" "block_size 10 dvd ?m" "4096 dvd ?m" using n that(1) less.prems(4) by (simp_all add: block_size_eq)
      show "?m \<le> e" using ae by (simp add: n_def) (metis add_le_cancel_left div_times_less_eq_dividend le_add_diff_inverse less_imp_le)
    qed
    have L: "insert_loop a e b = (do {
        (added, bd) \<leftarrow> (if ?k = 10 then add_run b a ?m else Some (False, b));
        if added then do {
          t \<leftarrow> add64 (pm_total_frames bd) (push_bit 10 n);
          c \<leftarrow> idx (pm_counts bd) 10;
          c \<leftarrow> add64 c n;
          cs \<leftarrow> upd (pm_counts bd) 10 c;
          f \<leftarrow> add64 (pm_free_frames bd) (push_bit 10 n);
          if n = 0 then None
          else insert_loop ?m e (bd\<lparr>pm_total_frames := t, pm_counts := cs, pm_free_frames := f\<rparr>) }
        else do {
          t \<leftarrow> add64 (pm_total_frames bd) (2 ^ ?k);
          bd \<leftarrow> push_free (bd\<lparr>pm_total_frames := t\<rparr>) a ?k;
          insert_loop (a + block_size ?k) e bd } })"
      unfolding insert_loop.simps [of a e b] Let_def MAX_ORDER_eq n_def [symmetric] using ae R(2) pg by (simp add: not_less)
    show ?thesis
    proof (cases "?k = 10 \<and> (\<exists>b1. add_run b a ?m = Some (True, b1))")
      case True
      then obtain b1 where ar: "add_run b a ?m = Some (True, b1)" and k: "?k = 10" by blast
      have top: "block_size 10 dvd a" "a + block_size 10 \<le> e" using R(1) fit k by simp_all
      note m = run_end [OF top]
      have nE: "n = (?m - a) div block_size 10" by (simp add: block_size_eq)
      have sg: "seg a e = seg a ?m + seg ?m e" by (rule seg_split) (use m(1,2) in simp_all)
      have s1: "space_ok b (all_frames b fl + seg a ?m)" using sp space_ok_plus unfolding sg by (metis add.assoc)
      have t1: "pm_total_frames b + size (seg a ?m) < 2 ^ 64" using tot unfolding sg by simp
      from insert_run_spec [OF inv m(1) top(1) m(3) s1 t1 nE ar] obtain b2 where b2: "b2 = b1\<lparr>pm_total_frames := pm_total_frames b1 + push_bit 10 n, pm_counts := (pm_counts b1)[10 := pm_counts b1 ! 10 + n],
          pm_free_frames := pm_free_frames b1 + push_bit 10 n\<rparr>" "pm_total_frames b1 + push_bit 10 n < 2 ^ 64" "pm_counts b1 ! 10 + n < 2 ^ 64"
        "length (pm_counts b1) = 11" "pm_free_frames b1 + push_bit 10 n < 2 ^ 64" "pm_inv b2 fl" "all_frames b2 fl = all_frames b fl + seg a ?m"
        "pm_total_frames b2 = pm_total_frames b + size (seg a ?m)" "pm_span_lo b2 = pm_span_lo b" "pm_span_hi b2 = pm_span_hi b"
        "pm_hhdm_offset b2 = pm_hhdm_offset b" .
      have i: "idx (pm_counts b1) 10 = Some (pm_counts b1 ! 10)" "upd (pm_counts b1) 10 v = Some ((pm_counts b1)[10 := v])" for v
        using b2(4) by simp_all
      have "(if ?k = 10 then add_run b a ?m else Some (False, b)) = Some (True, b1)" "n \<noteq> 0" using k ar m(5) by simp_all
      then have "insert_loop a e b = insert_loop ?m e b2"
        by (simp only: L b2(1) bind.bind_lunit prod.case if_True if_False add64_Some [OF b2(2)] add64_Some [OF b2(3)] add64_Some [OF b2(5)] i)
      then show ?thesis using step [OF m(1,2,4) b2(6-11)] by simp
    next
      case False
      moreover have "add_run b a ?m = Some (False, b)" if "?k = 10"
      proof -
        have top: "block_size 10 dvd a" "a + block_size 10 \<le> e" using R(1) fit that by simp_all
        note m = run_end [OF top]
        show ?thesis using add_run_spec [OF pm_invD(2) [OF inv] m(1) top(1) m(3)] False that by blast
      qed
      ultimately have "(if ?k = 10 then add_run b a ?m else Some (False, b)) = Some (False, b)" by simp
      then show ?thesis unfolding L using push by auto
    qed
  qed
qed

text \<open>The frames of a region, rounded inward to pages and without frame 0.\<close>

definition region_frames :: "nat \<Rightarrow> nat \<Rightarrow> nat multiset" where
  "region_frames start end = seg (max 1 ((start + 4095) div 4096) * 4096) end"

lemma pm_align_up_eq: "x + 4096 < 2 ^ 64 \<Longrightarrow> pm_align_up x FRAME_SIZE = Some ((x + 4095) div 4096 * 4096)"
  using and_not64_mask [of "x + 4095" 12] by (simp add: pm_align_up_def FRAME_SIZE_eq add.commute)

lemma pm_align_down_eq: "x < 2 ^ 64 \<Longrightarrow> pm_align_down x FRAME_SIZE = x div 4096 * 4096"
  using and_not64_mask [of x 12] by (simp add: pm_align_down_def FRAME_SIZE_eq)

lemma insert_region_spec:
  assumes inv: "pm_inv b fl" and r: "start + 4096 < 2 ^ 64" "end < 2 ^ 64"
    and free: "\<forall>f. count (all_frames b fl + region_frames start end) f \<le> 1"
    and tot: "pm_total_frames b + size (region_frames start end) < 2 ^ 64"
  shows "\<exists>b' fl'. insert_region b start end = Some b' \<and> pm_inv b' fl' \<and> all_frames b' fl' = all_frames b fl + region_frames start end \<and>
    pm_total_frames b' = pm_total_frames b + size (region_frames start end) \<and> pm_hhdm_offset b' = pm_hhdm_offset b \<and>
    pm_span_lo b' \<le> pm_span_lo b \<and> pm_span_hi b \<le> pm_span_hi b'"
proof -
  define a where "a = (max start 4096 + 4095) div 4096 * 4096"
  define e where "e = end div 4096 * 4096"
  have m: "(max start 4096 + 4095) div 4096 = max 1 ((start + 4095) div 4096)"
    by (auto simp: max_def div_le_mono not_le Suc_leI)
  have R: "region_frames start end = seg a e" by (simp add: region_frames_def a_def e_def m seg_def)
  have ae: "0 < a" "4096 dvd a" "4096 dvd e" "4096 \<le> a" "e < 2 ^ 64"
    using r(2) by (simp_all add: a_def e_def m le_less_trans [OF div_times_less_eq_dividend])
  have I: "insert_region b start end = insert_loop a e
      (if a < e then b\<lparr>pm_span_lo := min (pm_span_lo b) a, pm_span_hi := max (pm_span_hi b) e\<rparr> else b)"
    using r pm_align_up_eq [of "max start 4096"] pm_align_down_eq [of "end"]
    by (simp add: insert_region_def FRAME_SIZE_eq Let_def a_def e_def)
  show ?thesis
  proof (cases "a < e")
    case False
    then have "region_frames start end = {#}" using ae(2,3) by (auto simp: R seg_def elim!: dvdE)
    moreover have "insert_region b start end = Some b" using I False by (simp add: insert_loop.simps)
    ultimately show ?thesis using inv by auto
  next
    case True
    let ?b = "b\<lparr>pm_span_lo := min (pm_span_lo b) a, pm_span_hi := max (pm_span_hi b) e\<rparr>"
    have l: "live_runs ?b = live_runs b" by (simp add: live_runs_def)
    have F: "all_frames ?b fl = all_frames b fl" by (simp add: all_frames_def l)
    have n: "nxt_of ?b = nxt_of b" "prv_of ?b = prv_of b" by (simp_all add: fun_eq_iff nxt_of_def prv_of_def node_def node_ptr_def)
    note S = pm_invD(4) [OF inv, unfolded space_ok_def]
    have sp: "space_ok ?b (all_frames b fl + seg a e)"
    proof -
      have "a \<le> f * 4096 \<and> f * 4096 + 4096 \<le> e" if "f \<in># seg a e" for f
        using that ae(2,3) by (auto elim!: dvdE)
      then have "min (pm_span_lo b) a \<le> f * 4096 \<and> f * 4096 + 4096 \<le> max (pm_span_hi b) e" if "f \<in># all_frames b fl + seg a e" for f
        using that S by (auto simp: min_le_iff_disj le_max_iff_disj simp del: in_seg)
      then show ?thesis using S ae free R by (simp add: space_ok_def del: in_seg count_seg)
    qed
    have "pm_inv ?b fl"
      using inv space_ok_plus [OF sp] unfolding pm_inv_def F lists_ok_def runs_ok_def counts_ok_def l n by simp
    from insert_loop_spec [OF this ae(1) less_imp_le [OF True] ae(2,3)] sp tot show ?thesis
      unfolding I F R using True by (simp del: size_seg) (metis min.cobounded1 max.cobounded1)
  qed
qed

section \<open>Tokens\<close>

lemma fr_new_roundtrip:
  assumes "p < 2 ^ 64" "4096 dvd p" "k \<le> 10"
  shows "fr_base (fr_new p k) = p" "fr_order (fr_new p k) = k"
proof -
  have k: "drop_bit 12 k = 0" "take_bit 12 k = k" using assms(3) by (simp_all add: drop_bit_eq_div take_bit_eq_mod)
  have p: "drop_bit 12 p * 4096 = p" "take_bit 12 p = 0" using assms(2) by (simp_all add: drop_bit_eq_div take_bit_eq_mod)
  have "fr_new p k < 2 ^ 64"
  proof -
    have "k < 2 ^ 64" using assms(3) by simp
    then have "take_bit 64 (p OR k) = p OR k" using assms(1) by (simp add: take_bit_or take_bit_nat_eq_self)
    then show ?thesis unfolding fr_new_def by (metis take_bit_nat_less_exp)
  qed
  then have "fr_base (fr_new p k) = drop_bit 12 (p OR k) * 4096"
    using and_not64_mask [of "fr_new p k" 12] by (simp add: fr_base_def ORDER_MASK_def FRAME_SIZE_eq fr_new_def drop_bit_eq_div)
  then show "fr_base (fr_new p k) = p" by (simp add: k p)
  have "fr_new p k AND ORDER_MASK = take_bit 12 (p OR k)"
    by (simp add: fr_new_def ORDER_MASK_def FRAME_SIZE_eq take_bit_eq_mask mask_eq_exp_minus_1)
  then show "fr_order (fr_new p k) = k" using assms(3) by (simp add: fr_order_def k p)
qed

section \<open>The allocator and its clients\<close>

lemma block_page: "block_size k dvd p \<Longrightarrow> 4096 dvd p"
  unfolding block_size_eq by (rule dvd_mult_left)

text \<open>Whether a frame is free, as the allocator's own test answers it.\<close>

definition is_free :: "buddy \<Rightarrow> nat \<Rightarrow> bool" where
  "is_free b f \<longleftrightarrow> covered_by_free_block b (f * 4096) 0 = Some True"

lemma is_free_iff:
  assumes inv: "pm_inv b fl" and f: "f < 2 ^ 52"
  shows "is_free b f \<longleftrightarrow> f \<in># all_frames b fl"
proof -
  have "f \<in># all_frames b fl \<Longrightarrow> covered b fl (f * 4096) 0"
  proof -
    assume "f \<in># all_frames b fl"
    then consider (list) "f \<in># list_frames fl" | (run) "f \<in># run_frames (live_runs b)" by (auto simp: all_frames_def)
    then show "covered b fl (f * 4096) 0"
    proof cases
      case list
      then obtain k p where kp: "k \<le> 10" "p \<in> set (fl k)" "f \<in># blk p k" by (rule list_frames_elim)
      have "4096 dvd p" using pm_inv_member(4) [OF inv kp(1,2)] unfolding block_size_eq by (rule dvd_mult_left)
      then have "p \<le> f * 4096 \<and> f * 4096 < p + block_size k" using kp(3) by (elim dvdE) (simp add: block_size_eq)
      then show ?thesis using kp(1,2) by (auto simp: covered_def)
    next
      case run
      have "f \<in># run_frames rs \<Longrightarrow> \<exists>r \<in> set rs. f \<in># seg (fst r) (snd r)" for rs by (induction rs) auto
      with run obtain r where r: "r \<in> set (live_runs b)" "f \<in># seg (fst r) (snd r)" by blast
      then have "4096 dvd fst r" "4096 dvd snd r"
        using pm_invD(2) [OF inv] block_page by (auto simp: runs_ok_def)
      then have "fst r \<le> f * 4096 \<and> f * 4096 < snd r" using r(2) by (elim dvdE) simp
      then show ?thesis using r(1) by (auto simp: covered_def)
    qed
  qed
  moreover have "covered b fl (f * 4096) 0 \<Longrightarrow> f \<in># all_frames b fl" using covered_free [OF inv, of "f * 4096" 0] by simp
  ultimately show ?thesis using covered_spec [OF inv, of "f * 4096" 0] f by (auto simp: is_free_def)
qed

text \<open>The frames of the blocks handed out.\<close>

definition live_frames :: "(nat \<times> nat) list \<Rightarrow> nat multiset" where
  "live_frames live = (\<Sum>(p, k)\<leftarrow>live. blk p k)"

lemma live_frames_simps [simp]: "live_frames [] = {#}" "live_frames ((p, k) # live) = blk p k + live_frames live"
  by (simp_all add: live_frames_def)

lemma live_frames_remove: "(p, k) \<in> set live \<Longrightarrow> live_frames live = live_frames (remove1 (p, k) live) + blk p k"
  by (induction live) (auto simp: ac_simps)

lemma live_frames_in: "(p, k) \<in> set live \<Longrightarrow> f \<in># blk p k \<Longrightarrow> f \<in># live_frames live"
  by (induction live) auto

text \<open>
  One step of the system: a region is inserted, as the caller of \<open>insert_region\<close> vouches for it, an allocation of either
  kind returns, a block is given back, or the owners of the blocks write into them.
\<close>

inductive pmm_step :: "buddy \<times> (nat \<times> nat) list \<Rightarrow> buddy \<times> (nat \<times> nat) list \<Rightarrow> bool" where
  insert: "start + 4096 < 2 ^ 64 \<Longrightarrow> end < 2 ^ 64 \<Longrightarrow>
    \<forall>f \<in># region_frames start end. \<not> is_free b f \<and> f \<notin># live_frames live \<Longrightarrow>
    insert_region b start end = Some b' \<Longrightarrow> pmm_step (b, live) (b', live)"
| alloc: "pm_alloc b order = Some (Some f, b') \<Longrightarrow> pmm_step (b, live) (b', (fr_base f, fr_order f) # live)"
| alloc_none: "pm_alloc b order = Some (None, b') \<Longrightarrow> pmm_step (b, live) (b', live)"
| below: "pm_alloc_constrained b order m = Some (Some f, b') \<Longrightarrow> pmm_step (b, live) (b', (fr_base f, fr_order f) # live)"
| below_none: "pm_alloc_constrained b order m = Some (None, b') \<Longrightarrow> pmm_step (b, live) (b', live)"
| free: "(p, k) \<in> set live \<Longrightarrow> pm_free b (fr_new p k) = Some b' \<Longrightarrow> pmm_step (b, live) (b', remove1 (p, k) live)"
| owner: "\<forall>f. f \<notin># live_frames live \<longrightarrow> mem (node_ptr b (f * 4096)) = pm_mem b (node_ptr b (f * 4096)) \<Longrightarrow>
    pmm_step (b, live) (b\<lparr>pm_mem := mem\<rparr>, live)"

definition sys_inv :: "buddy \<Rightarrow> (nat \<Rightarrow> nat list) \<Rightarrow> (nat \<times> nat) list \<Rightarrow> bool" where
  "sys_inv b fl live \<longleftrightarrow> pm_inv b fl \<and> (\<forall>(p, k) \<in> set live. k \<le> 10 \<and> block_size k dvd p) \<and>
     space_ok b (all_frames b fl + live_frames live) \<and> pm_total_frames b = size (all_frames b fl + live_frames live)"

lemma sys_invD:
  assumes "sys_inv b fl live"
  shows "pm_inv b fl" "space_ok b (all_frames b fl + live_frames live)" "pm_total_frames b = size (all_frames b fl + live_frames live)"
    "\<And>p k. (p, k) \<in> set live \<Longrightarrow> k \<le> 10 \<and> block_size k dvd p"
  using assms by (auto simp: sys_inv_def)

lemma sys_init: "sys_inv (pm_new h mem) (\<lambda>_. []) []"
  by (simp add: sys_inv_def pm_inv_def lists_ok_def runs_ok_def counts_ok_def space_ok_def all_frames_def list_frames_def
      live_runs_def pm_new_def MAX_ORDER_def TOP_RUNS_def NULL_def del: replicate_Suc)

lemma sys_insert:
  assumes s: "sys_inv b fl live" and r: "start + 4096 < 2 ^ 64" "end < 2 ^ 64"
    and new: "\<forall>f \<in># region_frames start end. \<not> is_free b f \<and> f \<notin># live_frames live"
  obtains b' fl' where "insert_region b start end = Some b'" "sys_inv b' fl' live"
proof -
  note S = sys_invD [OF s]
  let ?R = "region_frames start end" and ?F = "all_frames b fl + live_frames live"
  have small: "f < 2 ^ 52" if "f \<in># ?R" for f
  proof -
    have "f < end div 4096" using that by (simp add: region_frames_def)
    then show ?thesis using r(2) by (simp add: less_eq_div_iff_mult_less_eq Suc_le_eq [symmetric])
  qed
  have once: "count ?R f \<le> 1" for f by (simp add: region_frames_def)
  have apart: "f \<notin># ?F" if "f \<in># ?R" for f using new that is_free_iff [OF S(1) small [OF that]] by auto
  have all: "count (?F + ?R) f \<le> 1" for f
  proof (cases "f \<in># ?R")
    case True
    then show ?thesis using apart once [of f] by (simp add: not_in_iff)
  next
    case False
    then show ?thesis using S(2) by (simp add: not_in_iff space_ok_def)
  qed
  have "count (all_frames b fl + ?R) f \<le> 1" for f using all [of f] by simp
  moreover have "pm_total_frames b + size ?R < 2 ^ 64"
  proof -
    have "size ?R \<le> 2 ^ 52" using r(2) by (simp add: region_frames_def)
    then show ?thesis using S(3) space_ok_size [OF S(2)] by simp
  qed
  ultimately obtain b' fl' where b': "insert_region b start end = Some b'" "pm_inv b' fl'" "all_frames b' fl' = all_frames b fl + ?R"
    "pm_total_frames b' = pm_total_frames b + size ?R" "pm_span_lo b' \<le> pm_span_lo b" "pm_span_hi b \<le> pm_span_hi b'"
    using insert_region_spec [OF S(1) r] by blast
  have "space_ok b' (all_frames b' fl' + live_frames live)"
  proof -
    have "count (all_frames b' fl' + live_frames live) f \<le> 1" for f using all [of f] by (simp add: b'(3))
    moreover have "pm_span_lo b' \<le> f * 4096 \<and> f * 4096 + 4096 \<le> pm_span_hi b'" if "f \<in># all_frames b' fl' + live_frames live" for f
    proof (cases "f \<in># all_frames b' fl'")
      case True
      then show ?thesis using pm_invD(4) [OF b'(2)] by (simp add: space_ok_def)
    next
      case False
      then have "f \<in># live_frames live" using that by simp
      then show ?thesis using S(2) b'(5,6) by (auto simp: space_ok_def intro: order_trans)
    qed
    ultimately show ?thesis using pm_invD(4) [OF b'(2)] by (simp add: space_ok_def)
  qed
  then have "sys_inv b' fl' live" using s b' S(3) by (simp add: sys_inv_def)
  then show thesis using that b'(1) by blast
qed

text \<open>A block that leaves the free frames for the blocks handed out, and back.\<close>

lemma sys_hand_out:
  assumes s: "sys_inv b fl live" and b': "pm_inv b' fl'" "same_space b b'" "all_frames b fl = all_frames b' fl' + blk p k"
    "block_size k dvd p" "k \<le> 10"
  shows "sys_inv b' fl' ((p, k) # live)" "p < 2 ^ 64" "fr_base (fr_new p k) = p" "fr_order (fr_new p k) = k"
proof -
  note S = sys_invD [OF s]
  have F: "all_frames b' fl' + live_frames ((p, k) # live) = all_frames b fl + live_frames live" by (simp add: b'(3) ac_simps)
  show "sys_inv b' fl' ((p, k) # live)"
    unfolding sys_inv_def F using s b' same_space_ok [OF b'(2)] by (auto simp: sys_inv_def same_space_def)
  have "p div 4096 \<in># all_frames b fl" by (simp add: b'(3))
  from space_ok_bound [OF pm_invD(4) [OF S(1)] this] show "p < 2 ^ 64" by (simp add: div_less_iff_less_mult)
  then show "fr_base (fr_new p k) = p" "fr_order (fr_new p k) = k" using fr_new_roundtrip block_page b'(4,5) by blast+
qed

lemma sys_alloc:
  assumes s: "sys_inv b fl live"
  shows "pm_alloc b k = Some (None, b) \<and> (k \<le> 10 \<longrightarrow> \<not> has_block b fl k) \<or>
    (\<exists>p b' fl'. pm_alloc b k = Some (Some (fr_new p k), b') \<and> sys_inv b' fl' ((p, k) # live) \<and> k \<le> 10 \<and> has_block b fl k \<and>
      fr_base (fr_new p k) = p \<and> fr_order (fr_new p k) = k)"
proof (cases "k \<le> 10")
  case True
  from take_block_spec [OF sys_invD(1) [OF s] True] show ?thesis
  proof (elim disjE exE conjE, goal_cases)
    case 1
    then show ?case by (simp add: pm_alloc_def)
  next
    case (2 p b' fl')
    note * = sys_hand_out [OF s 2(3-6) True]
    show ?case using 2(1,2) * True by (auto simp: pm_alloc_def)
  qed
next
  case False
  then show ?thesis by (simp add: pm_alloc_def take_block_def MAX_ORDER_eq)
qed

lemma sys_alloc_below:
  assumes s: "sys_inv b fl live"
  shows "pm_alloc_constrained b k m = Some (None, b) \<or>
    (\<exists>p b' fl'. pm_alloc_constrained b k m = Some (Some (fr_new p k), b') \<and> sys_inv b' fl' ((p, k) # live) \<and> k \<le> 10 \<and>
      p + block_size k \<le> m \<and> fr_base (fr_new p k) = p \<and> fr_order (fr_new p k) = k)"
proof (cases "k \<le> 10")
  case True
  from pm_alloc_constrained_spec [OF sys_invD(1) [OF s] True, of m] show ?thesis
  proof (elim disjE exE conjE, goal_cases)
    case (2 p b' fl')
    note * = sys_hand_out [OF s 2(2-5) True]
    show ?case using 2(1,6) * True by auto
  qed simp
next
  case False
  then show ?thesis by (simp add: pm_alloc_constrained_def MAX_ORDER_eq)
qed

lemma sys_free:
  assumes s: "sys_inv b fl live" and p: "(p, k) \<in> set live"
  obtains b' fl' where "pm_free b (fr_new p k) = Some b'" "sys_inv b' fl' (remove1 (p, k) live)" "covered b' fl' p k"
    "\<exists>q j fl1. fl' = fl1(j := q # fl1 j) \<and> j \<le> 10 \<and> (j < 10 \<longrightarrow> q XOR block_size j \<notin> set (fl1 j)) \<and> (\<forall>i. set (fl1 i) \<subseteq> set (fl i)) \<and> block_size j dvd q"
proof -
  note S = sys_invD [OF s]
  have k: "k \<le> 10" "block_size k dvd p" using S(4) [OF p] by simp_all
  have L: "live_frames live = live_frames (remove1 (p, k) live) + blk p k" by (rule live_frames_remove [OF p])
  have sp: "space_ok b (all_frames b fl + blk p k)"
  proof -
    have "space_ok b ((all_frames b fl + blk p k) + live_frames (remove1 (p, k) live))" using S(2) by (simp add: L ac_simps)
    then show ?thesis by (rule space_ok_plus)
  qed
  obtain b' fl' where b': "deallocate b p k = Some b'" "pm_inv b' fl'" "same_runs b b'" "all_frames b' fl' = all_frames b fl + blk p k"
    "covered b' fl' p k"
    "\<exists>q j fl1. fl' = fl1(j := q # fl1 j) \<and> j \<le> 10 \<and> (j < 10 \<longrightarrow> q XOR block_size j \<notin> set (fl1 j)) \<and> (\<forall>i. set (fl1 i) \<subseteq> set (fl i)) \<and> block_size j dvd q"
    using deallocate_spec [OF S(1) k sp] .
  have p64: "p < 2 ^ 64" by (rule fresh_block(2) [OF S(1) sp])
  have pg: "4096 dvd p" by (rule block_page [OF k(2)])
  then obtain c where c: "p = 4096 * c" by (elim dvdE)
  obtain d where d: "(2 :: nat) ^ k = Suc d" by (metis not0_implies_Suc power_not_zero zero_neq_numeral)
  have "c \<in># all_frames b fl + blk p k" "c + d \<in># all_frames b fl + blk p k" by (simp_all add: c d)
  then have "pm_span_lo b \<le> c * 4096" "(c + d) * 4096 + 4096 \<le> pm_span_hi b" "pm_span_hi b < 2 ^ 64"
    using sp unfolding space_ok_def by blast+
  then have "pm_span_lo b \<le> p \<and> p + block_size k \<le> pm_span_hi b \<and> pm_span_hi b < 2 ^ 64"
    by (simp add: c block_size_eq d)
  moreover have "shl64 FRAME_SIZE k = Some (block_size k)"
  proof -
    have "(2 :: nat) ^ k \<le> 2 ^ 10" using k(1) by (rule power_increasing) simp
    then show ?thesis using k(1) by (simp add: shl64_def block_size_def FRAME_SIZE_eq push_bit_eq_mult)
  qed
  ultimately have "pm_free b (fr_new p k) = Some b'"
    using b'(1) fr_new_roundtrip [OF p64 pg k(1)] by (simp add: pm_free_def Let_def)
  moreover have F: "all_frames b' fl' + live_frames (remove1 (p, k) live) = all_frames b fl + live_frames live"
    by (simp add: b'(4) L ac_simps)
  have "sys_inv b' fl' (remove1 (p, k) live)"
    unfolding sys_inv_def F using S(2-4) b'(2,3) same_space_ok [OF same_runs_space [OF b'(3)]]
    by (auto simp: same_runs_def same_space_def dest!: set_mp [OF set_remove1_subset])
  ultimately show thesis using that b'(5,6) by blast
qed

lemma sys_owner:
  assumes s: "sys_inv b fl live"
    and m: "\<forall>f. f \<notin># live_frames live \<longrightarrow> mem (node_ptr b (f * 4096)) = pm_mem b (node_ptr b (f * 4096))"
  shows "sys_inv (b\<lparr>pm_mem := mem\<rparr>) fl live"
proof -
  let ?b = "b\<lparr>pm_mem := mem\<rparr>"
  note S = sys_invD [OF s]
  note I = pm_invD [OF S(1)]
  have l: "live_runs ?b = live_runs b" by (simp add: live_runs_def)
  have F: "all_frames ?b fl = all_frames b fl" by (simp add: all_frames_def l)
  have "nxt_of ?b p = nxt_of b p \<and> prv_of ?b p = prv_of b p" if "j \<le> 10" "p \<in> set (fl j)" for j p
  proof -
    have "p div 4096 \<notin># live_frames live"
      using space_ok_disjoint [OF S(2) pm_inv_member(1) [OF S(1) that]] .
    moreover have "p div 4096 * 4096 = p" using block_page [OF pm_inv_member(4) [OF S(1) that]] by simp
    ultimately have "mem (node_ptr b p) = pm_mem b (node_ptr b p)" using m by metis
    then show ?thesis by (simp add: nxt_of_def prv_of_def node_def node_ptr_def)
  qed
  then have "lists_ok ?b fl" using I(1) by (auto simp: lists_ok_def intro: dll_cong)
  moreover have "runs_ok ?b" "counts_ok ?b fl" "space_ok ?b G = space_ok b G" for G
    using I(2,3) by (simp_all add: runs_ok_def counts_ok_def space_ok_def l F)
  ultimately show ?thesis using s by (simp add: sys_inv_def pm_inv_def F)
qed

inductive_cases pmm_stepE: "pmm_step (b, live) s'"

lemma sys_step:
  assumes s: "sys_inv b fl live" and st: "pmm_step (b, live) (b', live')"
  shows "\<exists>fl'. sys_inv b' fl' live'"
  using st
proof (cases rule: pmm_step.cases)
  case (insert start "end")
  then show ?thesis using sys_insert [OF s, of start "end"] by (metis option.inject)
next
  case (alloc order f)
  then show ?thesis using sys_alloc [OF s, of order] by auto
next
  case (alloc_none order)
  then show ?thesis using sys_alloc [OF s, of order] s by auto
next
  case (below order m f)
  then show ?thesis using sys_alloc_below [OF s, of order m] by auto
next
  case (below_none order m)
  then show ?thesis using sys_alloc_below [OF s, of order m] s by auto
next
  case (free p k)
  then show ?thesis using sys_free [OF s, of p k] by (metis option.inject)
next
  case (owner mem)
  then show ?thesis using sys_owner [OF s] by blast
qed

lemma sys_reach:
  assumes "pmm_step\<^sup>*\<^sup>* (pm_new h mem, []) (b, live)"
  shows "\<exists>fl. sys_inv b fl live"
  using assms
proof (induction "(b, live)" arbitrary: b live rule: rtranclp_induct)
  case base
  then show ?case using sys_init by blast
next
  case (step s)
  then show ?case using sys_step by (cases s) blast
qed

end
