(* ===== verification/Pmm_Ranges.thy ===== *)
theory Pmm_Ranges
  imports Pmm_Sys
begin

text \<open>
  The arithmetic of block orders, the ranges the boot code takes out of the memory map, and the merging of free buddies.
\<close>

section \<open>Orders\<close>

lemma next_power_of_two_spec:
  assumes "2 \<le> n"
  shows "\<exists>c. next_power_of_two n = 2 ^ c \<and> (\<forall>j. n \<le> 2 ^ j \<longleftrightarrow> c \<le> j)"
proof -
  let ?m = "n - 1"
  have m: "0 < ?m" using assms by simp
  have lo: "2 ^ ilog2 ?m \<le> ?m" by (rule ilog2_le [OF m])
  have hi: "?m < 2 ^ Suc (ilog2 ?m)" by (rule ilog2_less)
  have "n \<le> 2 ^ j \<longleftrightarrow> Suc (ilog2 ?m) \<le> j" for j
  proof
    assume "n \<le> 2 ^ j"
    then have "2 ^ ilog2 ?m < (2 :: nat) ^ j" using lo m by linarith
    then show "Suc (ilog2 ?m) \<le> j" by simp
  next
    assume "Suc (ilog2 ?m) \<le> j"
    then have "(2 :: nat) ^ Suc (ilog2 ?m) \<le> 2 ^ j" by (rule power_increasing) simp
    then show "n \<le> 2 ^ j" using hi by linarith
  qed
  moreover have "next_power_of_two n = 2 ^ Suc (ilog2 ?m)" using assms by (simp add: next_power_of_two_def)
  ultimately show ?thesis by blast
qed

lemma trailing_zeros_exp: "ctz64 (2 ^ k) = k"
proof (induction k)
  case (Suc k)
  then show ?case by (subst ctz64.simps) simp
qed (simp add: ctz64.simps)

lemma and_pred_exp: "(2 :: nat) ^ k AND (2 ^ k - 1) = 0"
proof -
  have "(2 :: nat) ^ k AND mask k = take_bit k (2 ^ k)" by (simp only: take_bit_eq_mask)
  then show ?thesis by (simp add: mask_eq_exp_minus_1)
qed

lemma is_power_of_two_2exp:
  assumes "k < 64"
  shows "is_power_of_two (2 ^ k)"
proof -
  have "{i. i < length [0..<64] \<and> bit (2 ^ k :: nat) ([0..<64] ! i)} = {k}" using assms by (auto simp: bit_exp_iff)
  then show ?thesis by (simp only: is_power_of_two_def length_filter_conv_card) simp
qed

definition order_fits :: "nat \<Rightarrow> nat \<Rightarrow> nat \<Rightarrow> bool" where
  "order_fits bytes align k \<longleftrightarrow> bytes \<le> block_size k \<and> (if align = 0 then FRAME_SIZE else align) dvd block_size k"

lemma order_for_calc:
  assumes "\<not> (bytes = 0 \<or> bytes > block_size MAX_ORDER)" "\<not> \<not> is_power_of_two (if align = 0 then FRAME_SIZE else align)"
    and pages: "max (next_power_of_two (max bytes FRAME_SIZE)) (max (if align = 0 then FRAME_SIZE else align) FRAME_SIZE) div FRAME_SIZE = 2 ^ k"
  shows "order_for bytes align = (if k > MAX_ORDER then None else Some k)"
proof -
  have "order_for bytes align = (let pages = (2 :: nat) ^ k in if pages = 0 \<or> pages AND (pages - 1) \<noteq> 0 then None
      else let order = ctz64 pages in if order > MAX_ORDER then None else Some order)"
    unfolding order_for_def if_not_P [OF assms(1)] unfolding Let_def unfolding if_not_P [OF assms(2)] pages ..
  then show ?thesis by (simp only: Let_def trailing_zeros_exp and_pred_exp) simp
qed

lemma order_for_spec:
  assumes "align < 2 ^ 64"
  shows "order_for bytes align = Some k \<longleftrightarrow> 0 < bytes \<and> (align = 0 \<or> is_power_of_two align) \<and> k \<le> MAX_ORDER \<and>
    order_fits bytes align k \<and> (\<forall>j < k. \<not> order_fits bytes align j)"
proof -
  let ?A = "if align = 0 then FRAME_SIZE else align"
  have pf: "is_power_of_two FRAME_SIZE" using is_power_of_two_2exp [of 12] by (simp add: FRAME_SIZE_eq)
  show ?thesis
  proof (cases "bytes = 0 \<or> bytes > block_size MAX_ORDER \<or> \<not> is_power_of_two ?A")
    case True
    have "block_size k \<le> block_size MAX_ORDER" if "k \<le> MAX_ORDER" using that by (simp add: block_size_eq)
    then have "\<not> (0 < bytes \<and> (align = 0 \<or> is_power_of_two align) \<and> k \<le> MAX_ORDER \<and> order_fits bytes align k)"
      using True pf unfolding order_fits_def by (auto split: if_splits)
    moreover have "order_for bytes align = None"
    proof (cases "bytes = 0 \<or> bytes > block_size MAX_ORDER")
      case t: True
      show ?thesis unfolding order_for_def if_P [OF t] ..
    next
      case f: False
      then have p: "\<not> is_power_of_two ?A" using True by blast
      show ?thesis unfolding order_for_def if_not_P [OF f] Let_def if_P [OF p] ..
    qed
    ultimately show ?thesis by auto
  next
    case False
    then have A: "is_power_of_two ?A" "0 < bytes" "bytes \<le> block_size MAX_ORDER" by auto
    moreover have "?A < 2 ^ 64" using assms by (simp add: FRAME_SIZE_eq)
    ultimately obtain t where t: "?A = 2 ^ t" using is_power_of_two_exp by blast
    have two: "2 \<le> max bytes FRAME_SIZE" by (simp add: FRAME_SIZE_eq le_max_iff_disj)
    obtain c where c: "next_power_of_two (max bytes FRAME_SIZE) = 2 ^ c" "\<forall>j. max bytes FRAME_SIZE \<le> 2 ^ j \<longleftrightarrow> c \<le> j"
      using next_power_of_two_spec [OF two] by blast
    have F: "FRAME_SIZE = 2 ^ 12" by (simp add: FRAME_SIZE_eq)
    have c12: "12 \<le> c"
    proof (rule ccontr)
      assume "\<not> 12 \<le> c"
      then have "(2 :: nat) ^ c < 2 ^ 12" by (intro power_strict_increasing) simp_all
      moreover have "FRAME_SIZE \<le> 2 ^ c" using c(2) by (metis max.bounded_iff order_refl)
      ultimately show False by (simp add: F)
    qed
    define k0 where "k0 = max (c - 12) (t - 12)"
    have pm: "max ((2 :: nat) ^ a) (2 ^ b) = 2 ^ max a b" for a b by (simp add: max_def)
    have "max c (max t 12) = 12 + k0" using c12 by (auto simp: k0_def max_def)
    then have "max (2 ^ c) (max ?A FRAME_SIZE) = 2 ^ (12 + k0)" unfolding t unfolding F pm by (rule arg_cong)
    then have pg: "max (2 ^ c) (max ?A FRAME_SIZE) div FRAME_SIZE = 2 ^ k0" by (simp add: FRAME_SIZE_eq power_add)
    have fit: "order_fits bytes align j \<longleftrightarrow> k0 \<le> j" for j
    proof -
      have b: "block_size j = 2 ^ (12 + j)" and le: "(4096 :: nat) \<le> 2 ^ (12 + j)" by (simp_all add: block_size_eq power_add)
      have "bytes \<le> block_size j \<longleftrightarrow> c \<le> 12 + j" using c(2) [rule_format, of "12 + j"] le by (simp add: b F)
      moreover have "?A dvd block_size j \<longleftrightarrow> t \<le> 12 + j" unfolding t b by (rule dvd_power_iff_le) simp
      ultimately show ?thesis unfolding order_fits_def k0_def by auto
    qed
    have f: "\<not> (bytes = 0 \<or> bytes > block_size MAX_ORDER)" and p: "\<not> \<not> is_power_of_two ?A" using A by auto
    have "order_for bytes align = (if k0 > MAX_ORDER then None else Some k0)"
      by (rule order_for_calc [OF f p]) (simp only: c(1) pg)
    moreover have "align = 0 \<or> is_power_of_two align" using A(1) by (auto split: if_splits)
    moreover have "(k0 \<le> k \<and> (\<forall>j < k. \<not> k0 \<le> j)) \<longleftrightarrow> k = k0" by (metis le_neq_implies_less not_le order_refl)
    ultimately show ?thesis unfolding fit using A(2) by (cases "k = k0") (simp_all add: not_less)
  qed
qed

section \<open>Clipping a usable range\<close>

definition excluded :: "(nat \<times> nat) list \<Rightarrow> nat \<Rightarrow> bool" where
  "excluded es x \<longleftrightarrow> (\<exists>e \<in> set es. fst e < snd e \<and> fst e div 4096 * 4096 \<le> x \<and> x < (snd e + 4095) div 4096 * 4096)"

definition excl_hi :: "nat \<Rightarrow> nat" where
  "excl_hi y = (case add64 y (FRAME_SIZE - 1) of Some x \<Rightarrow> pm_align_down x FRAME_SIZE | None \<Rightarrow> 2 ^ 64 - 1)"

lemma excl_hi_iff:
  assumes "y < 2 ^ 64" "x < 2 ^ 64 - 1"
  shows "x < excl_hi y \<longleftrightarrow> x < (y + 4095) div 4096 * 4096"
proof (cases "y + 4095 < 2 ^ 64")
  case True
  then show ?thesis using pm_align_down_eq [of "y + 4095"] by (simp add: excl_hi_def FRAME_SIZE_eq)
next
  case False
  then have "2 ^ 52 \<le> (y + 4095) div 4096" by (simp add: less_eq_div_iff_mult_less_eq)
  then have "2 ^ 52 * 4096 \<le> (y + 4095) div 4096 * 4096" by (rule mult_le_mono1)
  then show ?thesis using False assms(2) by (simp add: excl_hi_def FRAME_SIZE_eq add64_def)
qed

lemma clip_step_eq:
  assumes "fst e < 2 ^ 64"
  shows "clip_step cur e (skip, nxt) = (if fst e \<ge> snd e then (skip, nxt)
    else if fst e div 4096 * 4096 \<le> cur \<and> cur < excl_hi (snd e) then (Some (case skip of None \<Rightarrow> excl_hi (snd e) | Some s \<Rightarrow> max s (excl_hi (snd e))), nxt)
    else if fst e div 4096 * 4096 > cur \<and> fst e div 4096 * 4096 < nxt then (skip, fst e div 4096 * 4096)
    else (skip, nxt))"
  unfolding clip_step_def Let_def excl_hi_def [symmetric] pm_align_down_eq [OF assms] by simp

text \<open>A pass over the exclusions: what it skips is excluded, and what it does not skip is free up to the next one.\<close>

abbreviation excl_lo :: "nat \<times> nat \<Rightarrow> nat" where
  "excl_lo e \<equiv> fst e div 4096 * 4096"

lemma clip_fold_inv:
  assumes "\<forall>e \<in> set es. fst e < 2 ^ 64" "cur < end" "fold (clip_step cur) es (None, end) = (skip, nxt)"
  shows "(\<forall>h. skip = Some h \<longrightarrow> (\<exists>e \<in> set es. fst e < snd e \<and> excl_lo e \<le> cur \<and> cur < excl_hi (snd e) \<and> h = excl_hi (snd e))) \<and>
    (skip = None \<longrightarrow> (\<forall>e \<in> set es. fst e < snd e \<longrightarrow> \<not> (excl_lo e \<le> cur \<and> cur < excl_hi (snd e)))) \<and>
    cur < nxt \<and> nxt \<le> end \<and> (\<forall>e \<in> set es. fst e < snd e \<and> cur < excl_lo e \<longrightarrow> nxt \<le> excl_lo e)"
  using assms
proof (induction es arbitrary: skip nxt rule: rev_induct)
  case (snoc e es)
  obtain s n where sn: "fold (clip_step cur) es (None, end) = (s, n)" by fastforce
  have e: "fst e < 2 ^ 64" and es: "\<forall>e \<in> set es. fst e < 2 ^ 64" using snoc.prems(1) by auto
  note IH = snoc.IH [OF es snoc.prems(2) sn]
  have st: "(skip, nxt) = clip_step cur e (s, n)" using snoc.prems(3) sn by simp
  show ?case
  proof (cases "fst e < snd e")
    case False
    then have "skip = s" "nxt = n" using st by (simp_all add: clip_step_eq [OF e])
    then show ?thesis using IH False by auto
  next
    case lt: True
    show ?thesis
    proof (cases "excl_lo e \<le> cur \<and> cur < excl_hi (snd e)")
      case True
      then have *: "skip = Some (case s of None \<Rightarrow> excl_hi (snd e) | Some x \<Rightarrow> max x (excl_hi (snd e)))" "nxt = n"
        using st lt by (simp_all add: clip_step_eq [OF e])
      have "\<exists>e' \<in> set (es @ [e]). fst e' < snd e' \<and> excl_lo e' \<le> cur \<and> cur < excl_hi (snd e') \<and> h = excl_hi (snd e')" if sk: "skip = Some h" for h
      proof (cases "h = excl_hi (snd e)")
        case h: True
        then show ?thesis using True lt by (intro bexI [of _ e]) simp_all
      next
        case h: False
        then obtain x where "s = Some x" "h = x" using sk *(1) by (cases s) (auto simp: max_def split: if_splits)
        then show ?thesis using IH by auto
      qed
      then show ?thesis using IH *(2) True * by (auto simp del: Bex_set)
    next
      case False
      show ?thesis
      proof (cases "cur < excl_lo e \<and> excl_lo e < n")
        case True
        then have *: "skip = s" "nxt = excl_lo e" using st lt False by (simp_all add: clip_step_eq [OF e])
        have "nxt \<le> excl_lo e'" if "e' \<in> set (es @ [e])" "fst e' < snd e' \<and> cur < excl_lo e'" for e'
        proof (cases "e' = e")
          case False
          then have "n \<le> excl_lo e'" using IH that by auto
          then show ?thesis using True *(2) by linarith
        qed (simp add: *(2))
        moreover have "nxt \<le> end" using IH True *(2) by linarith
        moreover have "\<forall>h. skip = Some h \<longrightarrow> (\<exists>e' \<in> set (es @ [e]). fst e' < snd e' \<and> excl_lo e' \<le> cur \<and> cur < excl_hi (snd e') \<and> h = excl_hi (snd e'))"
          using IH *(1) by auto
        moreover have "skip = None \<longrightarrow> (\<forall>e' \<in> set (es @ [e]). fst e' < snd e' \<longrightarrow> \<not> (excl_lo e' \<le> cur \<and> cur < excl_hi (snd e')))"
          using IH *(1) False by auto
        ultimately show ?thesis using True *(2) by blast
      next
        case f: False
        then have *: "skip = s" "nxt = n" using st lt False by (auto simp: clip_step_eq [OF e] split: if_splits)
        have "nxt \<le> excl_lo e'" if "e' \<in> set (es @ [e])" "fst e' < snd e' \<and> cur < excl_lo e'" for e'
        proof (cases "e' = e")
          case True
          then show ?thesis using f that(2) *(2) by simp
        next
          case False
          then show ?thesis using IH that *(2) by auto
        qed
        moreover have "\<forall>h. skip = Some h \<longrightarrow> (\<exists>e' \<in> set (es @ [e]). fst e' < snd e' \<and> excl_lo e' \<le> cur \<and> cur < excl_hi (snd e') \<and> h = excl_hi (snd e'))"
          using IH *(1) by auto
        moreover have "skip = None \<longrightarrow> (\<forall>e' \<in> set (es @ [e]). fst e' < snd e' \<longrightarrow> \<not> (excl_lo e' \<le> cur \<and> cur < excl_hi (snd e')))"
          using IH *(1) False by auto
        ultimately show ?thesis using IH *(2) by blast
      qed
    qed
  qed
qed simp

lemma clip_fold:
  assumes "\<forall>e \<in> set es. fst e < 2 ^ 64 \<and> snd e < 2 ^ 64" "cur < end" "end < 2 ^ 64"
    "fold (clip_step cur) es (None, end) = (skip, nxt)"
  shows "skip = Some h \<Longrightarrow> cur < h \<and> (\<forall>x. cur \<le> x \<and> x < h \<and> x < end \<longrightarrow> excluded es x)"
    and "skip = None \<Longrightarrow> cur < nxt \<and> nxt \<le> end \<and> (\<forall>x. cur \<le> x \<and> x < nxt \<longrightarrow> \<not> excluded es x)"
proof -
  have "\<forall>e \<in> set es. fst e < 2 ^ 64" using assms(1) by auto
  note I = clip_fold_inv [OF this assms(2,4)]
  have hi: "x < excl_hi (snd e) \<longleftrightarrow> x < (snd e + 4095) div 4096 * 4096" if "e \<in> set es" "x < end" for e x
    using excl_hi_iff [of "snd e" x] assms(1,3) that by auto
  show "cur < h \<and> (\<forall>x. cur \<le> x \<and> x < h \<and> x < end \<longrightarrow> excluded es x)" if "skip = Some h"
  proof -
    obtain e where e: "e \<in> set es" "fst e < snd e" "excl_lo e \<le> cur" "cur < excl_hi (snd e)" "h = excl_hi (snd e)"
      using I \<open>skip = Some h\<close> by blast
    then show ?thesis using hi [OF e(1)] by (fastforce simp: excluded_def)
  qed
  show "cur < nxt \<and> nxt \<le> end \<and> (\<forall>x. cur \<le> x \<and> x < nxt \<longrightarrow> \<not> excluded es x)" if none: "skip = None"
  proof (intro conjI allI impI notI)
    show "cur < nxt" "nxt \<le> end" using I by blast+
    fix x assume x: "cur \<le> x \<and> x < nxt" "excluded es x"
    then obtain e where e: "e \<in> set es" "fst e < snd e" "excl_lo e \<le> x" "x < (snd e + 4095) div 4096 * 4096"
      by (auto simp: excluded_def)
    have xe: "x < end" using x(1) I by linarith
    then have "cur < excl_hi (snd e)" using hi [OF e(1) xe] e(4) x(1) by linarith
    then have "cur < excl_lo e" using I none e(1,2) by (metis not_le)
    then have "nxt \<le> excl_lo e" using I e(1,2) by blast
    then show False using e(3) x(1) by linarith
  qed
qed

text \<open>The pieces \<open>clip_loop\<close> emits are ascending and cover exactly what is not excluded.\<close>

lemma clip_loop_spec:
  assumes "\<forall>e \<in> set es. fst e < 2 ^ 64 \<and> snd e < 2 ^ 64" "end < 2 ^ 64"
  shows "(\<forall>r \<in> set (clip_loop es end cur). cur \<le> fst r \<and> fst r < snd r) \<and> sorted_wrt (\<lambda>r s. snd r \<le> fst s) (clip_loop es end cur) \<and>
    (\<forall>x. (\<exists>r \<in> set (clip_loop es end cur). fst r \<le> x \<and> x < snd r) \<longleftrightarrow> cur \<le> x \<and> x < end \<and> \<not> excluded es x)"
  using assms
proof (induction es "end" cur rule: clip_loop.induct)
  case (1 es e cur)
  show ?case
  proof (cases "cur < e")
    case False
    then show ?thesis by (subst (1 2 3) clip_loop.simps) auto
  next
    case True
    obtain skip nxt where f: "fold (clip_step cur) es (None, e) = (skip, nxt)" by fastforce
    note C = clip_fold [OF "1.prems"(1) True "1.prems"(2) f]
    show ?thesis
    proof (cases skip)
      case None
      note C2 = C(2) [OF None]
      have L: "clip_loop es e cur = (cur, nxt) # clip_loop es e nxt" using True f None by (subst clip_loop.simps) simp
      note IH = "1.IH"(1) [OF True f [symmetric] None "1.prems"]
      have "(\<exists>r \<in> set (clip_loop es e cur). fst r \<le> x \<and> x < snd r) \<longleftrightarrow> cur \<le> x \<and> x < e \<and> \<not> excluded es x" for x
      proof (cases "x < nxt")
        case True
        then have "\<not> (\<exists>r \<in> set (clip_loop es e nxt). fst r \<le> x \<and> x < snd r)" using IH by auto
        then show ?thesis using C2 True by (auto simp: L)
      next
        case False
        then have "(\<exists>r \<in> set (clip_loop es e cur). fst r \<le> x \<and> x < snd r) \<longleftrightarrow> (\<exists>r \<in> set (clip_loop es e nxt). fst r \<le> x \<and> x < snd r)"
          by (auto simp: L)
        then show ?thesis using IH False C2 by auto
      qed
      moreover have "\<forall>r \<in> set (clip_loop es e cur). cur \<le> fst r \<and> fst r < snd r" using IH C2 by (auto simp: L)
      moreover have "sorted_wrt (\<lambda>r s. snd r \<le> fst s) (clip_loop es e cur)" using IH by (simp add: L)
      ultimately show ?thesis by blast
    next
      case (Some h)
      note C1 = C(1) [OF Some]
      have L: "clip_loop es e cur = clip_loop es e h" using True f Some by (subst clip_loop.simps) simp
      note IH = "1.IH"(2) [OF True f [symmetric] Some "1.prems"]
      have X: "cur \<le> x \<and> x < e \<and> \<not> excluded es x \<longleftrightarrow> h \<le> x \<and> x < e \<and> \<not> excluded es x" for x
        using C1 by (cases "x < h") auto
      have "(\<exists>r \<in> set (clip_loop es e h). fst r \<le> x \<and> x < snd r) \<longleftrightarrow> cur \<le> x \<and> x < e \<and> \<not> excluded es x" for x
        using IH unfolding X by blast
      moreover have "cur \<le> fst r \<and> fst r < snd r" if "r \<in> set (clip_loop es e h)" for r
        using conjunct1 [OF IH] C1 that by force
      ultimately show ?thesis using IH unfolding L by blast
    qed
  qed
qed

section \<open>The trampoline page\<close>

definition trampoline_page :: "(nat \<times> nat) list \<Rightarrow> nat \<Rightarrow> bool" where
  "trampoline_page rs p \<longleftrightarrow> 4096 dvd p \<and> 4096 \<le> p \<and> p + 4096 \<le> TRAMPOLINE_LIMIT \<and> (\<exists>r \<in> set rs. fst r \<le> p \<and> p + 4096 \<le> snd r)"

lemma trampoline_step_spec:
  assumes "snd r < 2 ^ 64" "fst r < 2 ^ 64"
  shows "trampoline_step r best = (let lo = max 1 ((fst r + 4095) div 4096) * 4096 in
    if lo + 4096 \<le> snd r \<and> lo + 4096 \<le> TRAMPOLINE_LIMIT \<and> (case best of None \<Rightarrow> True | Some b \<Rightarrow> lo < b) then Some lo else best)"
proof (cases "fst r + 4095 < 2 ^ 64")
  case True
  define lo where "lo = max 1 ((fst r + 4095) div 4096) * 4096"
  have l: "max (pm_align_down (fst r + 4095) FRAME_SIZE) FRAME_SIZE = lo"
    using pm_align_down_eq [OF True] by (simp add: lo_def FRAME_SIZE_eq max_def)
  have d: "4096 dvd lo" by (simp add: lo_def)
  have fit: "lo + 4096 \<le> snd r div 4096 * 4096 \<longleftrightarrow> lo + 4096 \<le> snd r"
  proof -
    obtain k where k: "lo = 4096 * k" using d by (elim dvdE)
    have "Suc k \<le> snd r div 4096 \<longleftrightarrow> Suc k * 4096 \<le> snd r" by (rule less_eq_div_iff_mult_less_eq) simp
    then show ?thesis unfolding k by linarith
  qed
  have lim: "TRAMPOLINE_LIMIT < 2 ^ 64" by (simp add: TRAMPOLINE_LIMIT_def)
  show ?thesis
  proof (cases "lo + 4096 < 2 ^ 64")
    case t: True
    then show ?thesis unfolding Let_def lo_def [symmetric] using True pm_align_down_eq [OF assms(1)] l fit
      by (simp add: trampoline_step_def Let_def FRAME_SIZE_eq)
  next
    case f: False
    then have "add64 lo FRAME_SIZE = None" "\<not> lo + 4096 \<le> TRAMPOLINE_LIMIT" using lim by (simp_all add: add64_def FRAME_SIZE_eq)
    then show ?thesis unfolding Let_def lo_def [symmetric] using True l by (simp add: trampoline_step_def Let_def FRAME_SIZE_eq)
  qed
next
  case False
  then have "TRAMPOLINE_LIMIT \<le> (fst r + 4095) div 4096 * 4096" by (simp add: TRAMPOLINE_LIMIT_def less_eq_div_iff_mult_less_eq)
  then show ?thesis using False by (simp add: trampoline_step_def add64_def FRAME_SIZE_eq Let_def max_def)
qed

lemma page_above: "4096 dvd p \<Longrightarrow> 4096 \<le> p \<Longrightarrow> s \<le> p \<longleftrightarrow> max 1 ((s + 4095) div 4096) * 4096 \<le> p" for s p :: nat
proof -
  assume "4096 dvd p" "4096 \<le> p"
  then obtain c where c: "p = 4096 * c" "1 \<le> c" by (auto elim!: dvdE)
  have "s \<le> 4096 * c \<longleftrightarrow> (s + 4095) div 4096 \<le> c"
    using div_less_iff_less_mult [of 4096 "s + 4095" "Suc c"] by (simp add: less_Suc_eq_le) linarith
  then show ?thesis using c by simp
qed

lemma choose_trampoline_spec:
  assumes "\<forall>r \<in> set rs. fst r < 2 ^ 64 \<and> snd r < 2 ^ 64"
  shows "case choose_trampoline_page rs of
      Some p \<Rightarrow> trampoline_page rs p \<and> (\<forall>q. trampoline_page rs q \<longrightarrow> p \<le> q)
    | None \<Rightarrow> \<forall>q. \<not> trampoline_page rs q"
  using assms unfolding choose_trampoline_page_def
proof (induction rs rule: rev_induct)
  case (snoc r rs)
  define lo where "lo = max 1 ((fst r + 4095) div 4096) * 4096"
  let ?best = "fold trampoline_step rs None"
  have T: "trampoline_page (rs @ [r]) q \<longleftrightarrow> trampoline_page rs q \<or>
    4096 dvd q \<and> 4096 \<le> q \<and> q + 4096 \<le> TRAMPOLINE_LIMIT \<and> lo \<le> q \<and> q + 4096 \<le> snd r" for q
    unfolding lo_def using page_above [of q "fst r"] by (auto simp: trampoline_page_def)
  have lo: "4096 dvd lo" "4096 \<le> lo" by (simp_all add: lo_def)
  have r: "snd r < 2 ^ 64" "fst r < 2 ^ 64" using snoc.prems by simp_all
  have st: "fold trampoline_step (rs @ [r]) None =
    (if lo + 4096 \<le> snd r \<and> lo + 4096 \<le> TRAMPOLINE_LIMIT \<and> (case ?best of None \<Rightarrow> True | Some b \<Rightarrow> lo < b) then Some lo else ?best)"
    using trampoline_step_spec [OF r, of ?best] unfolding Let_def lo_def [symmetric] by simp
  have IH: "case ?best of Some p \<Rightarrow> trampoline_page rs p \<and> (\<forall>q. trampoline_page rs q \<longrightarrow> p \<le> q) | None \<Rightarrow> \<forall>q. \<not> trampoline_page rs q"
    using snoc by simp
  show ?case unfolding st T using IH lo by (cases ?best) (auto split: if_splits)
qed (simp add: trampoline_page_def)

end
