(* ===== verification/Pmm_Props.thy ===== *)
theory Pmm_Props
  imports Pmm_Sys
begin

text \<open>
  The properties of the physical memory manager, over every history of the allocator and its clients that starts from
  \<open>Buddy::new\<close>: regions inserted, blocks allocated and freed, and owners writing into the blocks they hold.
\<close>

abbreviation pmm_reach :: "nat \<Rightarrow> (nat \<Rightarrow> free_node) \<Rightarrow> buddy \<Rightarrow> (nat \<times> nat) list \<Rightarrow> bool" where
  "pmm_reach h mem b live \<equiv> pmm_step\<^sup>*\<^sup>* (pm_new h mem, []) (b, live)"

lemma live_twice:
  assumes "i < j" "j < length live" "f \<in># blk (fst (live ! i)) (snd (live ! i))" "f \<in># blk (fst (live ! j)) (snd (live ! j))"
  shows "2 \<le> count (live_frames live) f"
  using assms
proof (induction live arbitrary: i j)
  case (Cons x live)
  obtain p k where x: "x = (p, k)" by fastforce
  show ?case
  proof (cases i)
    case 0
    then obtain j' where j: "j = Suc j'" "j' < length live" using Cons.prems by (cases j) auto
    have "live ! j' \<in> set live" using j(2) by simp
    then have "(fst (live ! j'), snd (live ! j')) \<in> set live" by simp
    then have "f \<in># live_frames live" using live_frames_in Cons.prems(4) j by fastforce
    then have "0 < count (live_frames live) f" by simp
    moreover have "count (blk p k) f = 1" using Cons.prems(3) 0 x by simp
    ultimately show ?thesis by (simp add: x del: count_blk)
  next
    case (Suc i')
    then obtain j' where "j = Suc j'" using Cons.prems by (cases j) auto
    then have "2 \<le> count (live_frames live) f" using Cons.IH [of i' j'] Cons.prems Suc by simp
    then show ?thesis by (simp add: x del: count_blk)
  qed
qed simp

lemma block_span:
  assumes sp: "space_ok b (F + blk p k + G)" and d: "4096 dvd p"
  shows "pm_span_lo b \<le> p" "p + block_size k \<le> pm_span_hi b" "0 < p"
proof -
  obtain c where c: "p = 4096 * c" using d by (elim dvdE)
  obtain d where d: "(2 :: nat) ^ k = Suc d" by (metis not0_implies_Suc power_not_zero zero_neq_numeral)
  have "c \<in># F + blk p k + G" "c + d \<in># F + blk p k + G" by (simp_all add: c d)
  then have "pm_span_lo b \<le> c * 4096" "(c + d) * 4096 + 4096 \<le> pm_span_hi b" "4096 \<le> pm_span_lo b"
    using sp unfolding space_ok_def by blast+
  then show "pm_span_lo b \<le> p" "p + block_size k \<le> pm_span_hi b" "0 < p" by (simp_all add: c block_size_eq d)
qed

lemma size_live: "size (live_frames live) = (\<Sum>(p, k)\<leftarrow>live. 2 ^ k)"
  by (induction live) (auto simp: live_frames_def)

lemma live_block:
  assumes s: "sys_inv b fl live" and p: "(p, k) \<in> set live"
  shows "k \<le> MAX_ORDER \<and> block_size k dvd p \<and> 0 < p \<and> pm_span_lo b \<le> p \<and> p + block_size k \<le> pm_span_hi b"
    "f \<in># blk p k \<Longrightarrow> \<not> is_free b f"
proof -
  note S = sys_invD [OF s]
  have k: "k \<le> 10" "block_size k dvd p" using S(4) [OF p] by simp_all
  have "space_ok b (all_frames b fl + blk p k + live_frames (remove1 (p, k) live))"
    using S(2) live_frames_remove [OF p] by (simp add: ac_simps)
  from block_span [OF this block_page [OF k(2)]] k show "k \<le> MAX_ORDER \<and> block_size k dvd p \<and> 0 < p \<and> pm_span_lo b \<le> p \<and> p + block_size k \<le> pm_span_hi b"
    by (simp add: MAX_ORDER_eq)
  show "\<not> is_free b f" if "f \<in># blk p k"
  proof -
    have l: "f \<in># live_frames live" by (rule live_frames_in [OF p that])
    then have "f < 2 ^ 52" using space_ok_bound [OF S(2)] by simp
    moreover have "f \<notin># all_frames b fl" using space_ok_disjoint [OF S(2)] l by blast
    ultimately show ?thesis using is_free_iff [OF S(1)] by blast
  qed
qed

lemma live_apart:
  assumes s: "sys_inv b fl live" and ij: "i < j" "j < length live"
    and x: "fst (live ! i) \<le> x \<and> x < fst (live ! i) + block_size (snd (live ! i))" "fst (live ! j) \<le> x \<and> x < fst (live ! j) + block_size (snd (live ! j))"
  shows False
proof -
  have f: "x div 4096 \<in># blk p k" if "(p, k) \<in> set live" "p \<le> x" "x < p + block_size k" for p k
  proof -
    have "4096 dvd p" using block_page sys_invD(4) [OF s \<open>(p, k) \<in> set live\<close>] by blast
    then obtain c where c: "p = 4096 * c" by (elim dvdE)
    have "x < (c + 2 ^ k) * 4096" using that(3) by (simp add: c block_size_eq algebra_simps)
    then have "x div 4096 < c + 2 ^ k" by (simp add: div_less_iff_less_mult)
    then show ?thesis using div_le_mono [OF that(2), of 4096] c by simp
  qed
  have "2 \<le> count (live_frames live) (x div 4096)"
    by (rule live_twice [OF ij]; rule f) (use ij x in auto)
  moreover have "count (all_frames b fl + live_frames live) (x div 4096) \<le> 1" using sys_invD(2) [OF s] by (simp only: space_ok_def)
  ultimately show False by simp
qed

text \<open>A history: 64 KiB of memory at 64 KiB, one frame of it allocated.\<close>

definition demo_mem :: "nat \<Rightarrow> free_node" where
  "demo_mem = (\<lambda>_. \<lparr>fn_next = 0, fn_prev = 0\<rparr>)"

lemma demo_insert:
  obtains b fl where "pmm_reach 0 demo_mem b []" "sys_inv b fl []" "has_block b fl 0"
proof -
  have s: "sys_inv (pm_new 0 demo_mem) (\<lambda>_. []) []" by (rule sys_init)
  have r: "region_frames 0x10000 0x20000 = seg 0x10000 0x20000" by (simp add: region_frames_def)
  have "\<not> is_free (pm_new 0 demo_mem) f" if "f \<in># region_frames 0x10000 0x20000" for f
    using is_free_iff [OF sys_invD(1) [OF s], of f] that
    by (simp add: r all_frames_def list_frames_def live_runs_def pm_new_def)
  then have new: "\<forall>f \<in># region_frames 0x10000 0x20000. \<not> is_free (pm_new 0 demo_mem) f \<and> f \<notin># live_frames []" by simp
  obtain b fl where b: "insert_region (pm_new 0 demo_mem) 0x10000 0x20000 = Some b" "sys_inv b fl []"
    using sys_insert [OF s _ _ new] by auto
  have "pmm_step (pm_new 0 demo_mem, []) (b, [])"
    by (rule pmm_step.insert [OF _ _ new b(1)]) simp_all
  moreover have "has_block b fl 0"
  proof (rule ccontr)
    assume "\<not> has_block b fl 0"
    then have "all_frames b fl = {#}" by (auto simp: has_block_def all_frames_def list_frames_def intro!: sum.neutral)
    moreover have "pm_total_frames b = 16"
    proof -
      have "pm_total_frames (pm_new 0 demo_mem) = 0" "all_frames (pm_new 0 demo_mem) (\<lambda>_. []) = {#}"
        by (simp_all add: pm_new_def all_frames_def list_frames_def live_runs_def)
      then show ?thesis
        using insert_region_spec [OF sys_invD(1) [OF s], of "0x10000" "0x20000"] b(1) r by (force simp: split_def)
    qed
    ultimately show False using sys_invD(3) [OF b(2)] by simp
  qed
  ultimately show thesis using that b(2) by blast
qed

lemma demo_reach:
  obtains b fl p where "pmm_reach 0 demo_mem b [(p, 0)]" "sys_inv b fl [(p, 0)]"
proof -
  obtain b fl where b: "pmm_reach 0 demo_mem b []" "sys_inv b fl []" "has_block b fl 0" by (rule demo_insert)
  obtain p b' fl' where p: "pm_alloc b 0 = Some (Some (fr_new p 0), b')" "sys_inv b' fl' [(p, 0)]"
    "fr_base (fr_new p 0) = p" "fr_order (fr_new p 0) = 0" using sys_alloc [OF b(2), of 0] b(3) by auto
  have "pmm_step (b, []) (b', [(p, 0)])" using pmm_step.alloc [OF p(1), of "[]"] p(3,4) by simp
  then show thesis using that b(1) p(2) by (meson rtranclp.rtrancl_into_rtrancl)
qed

text \<open>
  C1: Over every history, the blocks handed out are aligned to their size, within the span of the memory inserted, never
  at frame 0 and pairwise disjoint, none of their frames is free, and the frame counts add up: every frame inserted is
  free or in a block handed out.
\<close>

theorem pmm_blocks_disjoint:
  assumes "pmm_reach h mem b live"
  shows "(\<forall>(p, k) \<in> set live. k \<le> MAX_ORDER \<and> block_size k dvd p \<and> 0 < p \<and> pm_span_lo b \<le> p \<and> p + block_size k \<le> pm_span_hi b \<and>
      (\<forall>f. p div 4096 \<le> f \<and> f < p div 4096 + 2 ^ k \<longrightarrow> \<not> is_free b f)) \<and>
    (\<forall>i j. i < j \<and> j < length live \<longrightarrow>
      {fst (live ! i)..<fst (live ! i) + block_size (snd (live ! i))} \<inter> {fst (live ! j)..<fst (live ! j) + block_size (snd (live ! j))} = {}) \<and>
    pm_total_frames b = pm_free_frames b + (\<Sum>(p, k)\<leftarrow>live. 2 ^ k)"
proof -
  obtain fl where s: "sys_inv b fl live" using sys_reach [OF assms] by blast
  have "pm_free_frames b = size (all_frames b fl)"
    using pm_invD(3) [OF sys_invD(1) [OF s]] by (simp add: counts_ok_def)
  then have "pm_total_frames b = pm_free_frames b + (\<Sum>(p, k)\<leftarrow>live. 2 ^ k)"
    using sys_invD(3) [OF s] by (simp add: size_live)
  moreover have "\<forall>(p, k) \<in> set live. k \<le> MAX_ORDER \<and> block_size k dvd p \<and> 0 < p \<and> pm_span_lo b \<le> p \<and> p + block_size k \<le> pm_span_hi b \<and>
      (\<forall>f. p div 4096 \<le> f \<and> f < p div 4096 + 2 ^ k \<longrightarrow> \<not> is_free b f)"
    using live_block [OF s] by auto
  moreover have "{fst (live ! i)..<fst (live ! i) + block_size (snd (live ! i))} \<inter> {fst (live ! j)..<fst (live ! j) + block_size (snd (live ! j))} = {}"
    if "i < j \<and> j < length live" for i j
    using live_apart [OF s] that unfolding disjoint_iff atLeastLessThan_iff by blast
  ultimately show ?thesis by blast
qed

theorem pmm_blocks_disjoint_witness:
  "\<exists>b p. pmm_reach 0 demo_mem b [(p, 0)] \<and> FRAME_SIZE dvd p \<and> 0 < p \<and> pm_total_frames b = pm_free_frames b + 1"
proof -
  obtain b p where r: "pmm_reach 0 demo_mem b [(p, 0)]" by (metis demo_reach)
  then show ?thesis using pmm_blocks_disjoint [OF r] by (intro exI [of _ b] exI [of _ p]) (simp add: FRAME_SIZE_eq block_size_eq)
qed



text \<open>
  C4: An allocation succeeds exactly when a block of the order or a larger one is free, as the counters of the allocator
  say, and then it is of that order.
\<close>

theorem pmm_alloc_complete:
  assumes "pmm_reach h mem b live"
  shows "((\<exists>f b'. pm_alloc b order = Some (Some f, b')) \<longleftrightarrow> (\<exists>k. order \<le> k \<and> k \<le> MAX_ORDER \<and> 0 < pm_counts b ! k)) \<and>
    (\<forall>f b'. pm_alloc b order = Some (Some f, b') \<longrightarrow> fr_order f = order)"
proof -
  obtain fl where s: "sys_inv b fl live" using sys_reach [OF assms] by blast
  note I = pm_invD [OF sys_invD(1) [OF s]]
  have rb: "run_blocks (live_runs b) = 0 \<longleftrightarrow> live_runs b = []"
  proof -
    have "0 < (snd r - fst r) div block_size 10" if "r \<in> set (live_runs b)" for r
    proof -
      have "fst r < snd r" "block_size 10 dvd fst r" "block_size 10 dvd snd r" using I(2) that by (auto simp: runs_ok_def)
      from run_rest_spec(2) [OF this, of "fst r"] show ?thesis by simp
    qed
    then show ?thesis by (cases "live_runs b") auto
  qed
  have c: "pm_counts b ! k = length (fl k) + (if k = 10 then run_blocks (live_runs b) else 0)" if "k \<le> 10" for k
    using I(3) that by (simp add: counts_ok_def)
  have hb: "has_block b fl order \<longleftrightarrow> (\<exists>k. order \<le> k \<and> k \<le> 10 \<and> 0 < pm_counts b ! k)" if o: "order \<le> 10"
  proof
    assume "has_block b fl order"
    then consider (list) j where "order \<le> j" "j \<le> 10" "fl j \<noteq> []" | (run) "live_runs b \<noteq> []" by (auto simp: has_block_def)
    then show "\<exists>k. order \<le> k \<and> k \<le> 10 \<and> 0 < pm_counts b ! k"
    proof cases
      case list
      then show ?thesis using c [of j] by auto
    next
      case run
      then show ?thesis using c [of 10] rb o by auto
    qed
  next
    assume "\<exists>k. order \<le> k \<and> k \<le> 10 \<and> 0 < pm_counts b ! k"
    then obtain k where "order \<le> k" "k \<le> 10" "0 < pm_counts b ! k" by blast
    then show "has_block b fl order" using c [of k] rb by (cases "fl k = []") (auto simp: has_block_def split: if_splits)
  qed
  have "(\<exists>f b'. pm_alloc b order = Some (Some f, b')) \<longleftrightarrow> order \<le> 10 \<and> has_block b fl order"
    using sys_alloc [OF s, of order] by (elim disjE exE conjE) simp_all
  then have "(\<exists>f b'. pm_alloc b order = Some (Some f, b')) \<longleftrightarrow> (\<exists>k. order \<le> k \<and> k \<le> MAX_ORDER \<and> 0 < pm_counts b ! k)"
    unfolding MAX_ORDER_eq using hb le_trans by blast
  moreover have "fr_order f = order" if "pm_alloc b order = Some (Some f, b')" for f b' using sys_alloc [OF s, of order] that by auto
  ultimately show ?thesis by blast
qed

theorem pmm_alloc_complete_witness:
  "\<exists>b k f b'. pmm_reach 0 demo_mem b [] \<and> pm_alloc b 0 = Some (Some f, b') \<and> fr_order f = 0 \<and> k \<le> MAX_ORDER \<and> 0 < pm_counts b ! k"
proof -
  obtain b fl where b: "pmm_reach 0 demo_mem b []" "sys_inv b fl []" "has_block b fl 0" by (rule demo_insert)
  moreover obtain f b' where "pm_alloc b 0 = Some (Some f, b')" using sys_alloc [OF b(2), of 0] b(3) by auto
  ultimately show ?thesis using pmm_alloc_complete [OF b(1), of 0] by blast
qed

text \<open>
  C3: Freeing a block a second time panics: after the release of a block that was handed out, the same token is refused
  with an assertion failure, though the block may by then be part of a larger one.
\<close>

theorem pmm_double_free_panics:
  assumes "pmm_reach h mem b live" "(p, k) \<in> set live" "pm_free b (fr_new p k) = Some b'"
  shows "pm_free b' (fr_new p k) = None"
proof -
  obtain fl where s: "sys_inv b fl live" using sys_reach [OF assms(1)] by blast
  obtain fl' where s': "sys_inv b' fl' (remove1 (p, k) live)" "covered b' fl' p k"
    using sys_free [OF s assms(2)] assms(3) by (metis option.inject)
  have k: "k \<le> 10" "block_size k dvd p" using sys_invD(4) [OF s assms(2)] by simp_all
  have "p div 4096 \<in># all_frames b fl + live_frames live" using live_frames_in [OF assms(2), of "p div 4096"] by simp
  from space_ok_bound [OF sys_invD(2) [OF s] this] have p: "p < 2 ^ 64" by (simp add: div_less_iff_less_mult)
  have "deallocate b' p k = None"
    using covered_spec [OF sys_invD(1) [OF s'(1)] p k(1)] s'(2) by (simp add: deallocate_def)
  then show ?thesis
    using fr_new_roundtrip [OF p block_page [OF k(2)] k(1)] by (simp add: pm_free_def Let_def bind_eq_None_conv)
qed

theorem pmm_double_free_panics_witness:
  "\<exists>b p b'. pmm_reach 0 demo_mem b [(p, 0)] \<and> pm_free b (fr_new p 0) = Some b' \<and> pm_free b' (fr_new p 0) = None"
proof -
  obtain b fl p where r: "pmm_reach 0 demo_mem b [(p, 0)]" "sys_inv b fl [(p, 0)]" by (rule demo_reach)
  moreover obtain b' where f: "pm_free b (fr_new p 0) = Some b'" using sys_free [OF r(2), of p 0] by (metis list.set_intros(1))
  ultimately show ?thesis using pmm_double_free_panics [OF r(1) _ f] by auto
qed

end
