(* ===== verification/Pmm_Range_Props.thy ===== *)
theory Pmm_Range_Props
  imports Pmm_Ranges Pmm_Props
begin

text \<open>
  Further properties of \<open>crates/core/src/mm/pmm.rs\<close>: free buddies are merged, and what the helpers for orders, the
  trampoline page and the memory map compute.
\<close>

section \<open>Merging\<close>

definition merged :: "(nat \<Rightarrow> nat list) \<Rightarrow> bool" where
  "merged fl \<longleftrightarrow> (\<forall>k < 10. \<forall>x \<in> set (fl k). x XOR block_size k \<notin> set (fl k))"

text \<open>Two buddies that are both free, each a block of its own.\<close>

definition buddies_free :: "buddy \<Rightarrow> nat \<Rightarrow> nat \<Rightarrow> bool" where
  "buddies_free b p k \<longleftrightarrow> k < MAX_ORDER \<and> in_free_list b p k = Some True \<and> in_free_list b (p XOR block_size k) k = Some True"

lemma merged_iff: "pm_inv b fl \<Longrightarrow> (\<forall>p k. \<not> buddies_free b p k) \<longleftrightarrow> merged fl"
  by (auto simp: buddies_free_def merged_def MAX_ORDER_eq in_free_list_spec)

lemma merged_subset: "merged fl \<Longrightarrow> \<forall>i. set (fl' i) \<subseteq> set (fl i) \<Longrightarrow> merged fl'"
  unfolding merged_def by blast

lemma xor_block_neq: "x XOR block_size k \<noteq> (x :: nat)"
proof
  assume "x XOR block_size k = x"
  then have "x XOR (x XOR block_size k) = 0" by simp
  then have "block_size k = 0" by (simp flip: xor.assoc)
  then show False by (simp add: block_size_eq)
qed

lemma xor_block_twice: "(x XOR block_size k) XOR block_size k = (x :: nat)"
  by (simp add: xor.assoc)

lemma merged_pushes:
  assumes m: "merged fl1" and fl': "\<forall>j. fl' j = (if t \<le> j \<and> j < k then (q j) # fl1 j else fl1 j)"
    and q: "\<And>j. t \<le> j \<Longrightarrow> j < k \<Longrightarrow> q j XOR block_size j \<notin> set (fl1 j)"
  shows "merged fl'"
  unfolding merged_def
proof (intro allI impI ballI)
  fix i x assume i: "i < 10" and x: "x \<in> set (fl' i)"
  show "x XOR block_size i \<notin> set (fl' i)"
  proof (cases "t \<le> i \<and> i < k")
    case False
    then have "fl' i = fl1 i" using fl' by auto
    then show ?thesis using m i x by (simp add: merged_def)
  next
    case True
    then have f: "fl' i = q i # fl1 i" using fl' by simp
    have "x XOR block_size i \<noteq> q i"
    proof
      assume e: "x XOR block_size i = q i"
      then have "x = q i XOR block_size i" using xor_block_twice [of x i] by simp
      then show False using x f q True e xor_block_neq by auto
    qed
    moreover have "x XOR block_size i \<notin> set (fl1 i)" using x f q True m i by (auto simp: merged_def)
    ultimately show ?thesis using f by simp
  qed
qed

lemma merged_alloc:
  assumes inv: "pm_inv b fl" and m: "merged fl" and a: "pm_alloc b t = Some (r, b')"
  obtains fl' where "pm_inv b' fl'" "merged fl'"
proof (cases "t \<le> 10")
  case False
  then have "b' = b" using a by (simp add: pm_alloc_def take_block_def MAX_ORDER_eq)
  then show thesis using that inv m by blast
next
  case True
  from take_block_spec [OF inv True] show thesis
  proof (elim disjE exE conjE, goal_cases)
    case 1
    then have "b' = b" using a by (simp add: pm_alloc_def)
    then show thesis using that inv m by blast
  next
    case (2 p b1 fl' k fl1)
    then have "b' = b1" using a by (simp add: pm_alloc_def)
    moreover have "merged fl1" using merged_subset [OF m] 2(10) by blast
    moreover have "fl1 j = []" if "t \<le> j" "j < k" for j using 2(9,10) that by (metis empty_set set_empty subset_empty)
    ultimately show thesis using that merged_pushes [of fl1 fl' t k "\<lambda>j. p + block_size j"] 2(3,11) by simp
  qed
qed

lemma merged_alloc_below:
  assumes inv: "pm_inv b fl" and m: "merged fl" and a: "pm_alloc_constrained b t lim = Some (r, b')"
  obtains fl' where "pm_inv b' fl'" "merged fl'"
proof (cases "t \<le> 10")
  case False
  then have "b' = b" using a by (simp add: pm_alloc_constrained_def MAX_ORDER_eq)
  then show thesis using that inv m by blast
next
  case True
  from pm_alloc_constrained_spec [OF inv True, of lim] show thesis
  proof (elim disjE exE conjE, goal_cases)
    case 1
    then have "b' = b" using a by simp
    then show thesis using that inv m by blast
  next
    case (2 p b1 fl' k fl1)
    then have b1: "b' = b1" using a by simp
    have "(p + block_size j) XOR block_size j \<notin> set (fl1 j)" if "t \<le> j" "j < k" for j
    proof -
      have "block_size (Suc j) dvd block_size k" using that(2) by (simp add: block_size_eq le_imp_power_dvd del: power_Suc)
      then have "block_size (Suc j) dvd p" using 2(9) dvd_trans by blast
      then obtain c where c: "p = block_size j * (2 * c)" by (elim dvdE) (simp add: block_size_eq)
      have "p XOR block_size j = p + block_size j" using xor_block [of j p] by (simp add: c block_size_eq)
      then have x: "(p + block_size j) XOR block_size j = p" using xor_block_twice [of p j] by simp
      have "p \<notin> set (fl' j)"
      proof
        assume "p \<in> set (fl' j)"
        moreover have "j \<le> 10" using that(2) 2(8) by simp
        ultimately have "p div 4096 \<in># all_frames b1 fl'" using pm_inv_member(1) [OF 2(2)] by blast
        moreover have "space_ok b (all_frames b1 fl' + blk p t)" using pm_invD(4) [OF inv] 2(4) by simp
        ultimately show False using space_ok_disjoint member_frame by blast
      qed
      then show ?thesis using 2(11) that x by simp
    qed
    moreover have "merged fl1" using merged_subset [OF m] 2(10) by blast
    ultimately show thesis using that b1 merged_pushes [of fl1 fl' t k "\<lambda>j. p + block_size j"] 2(2,11) by blast
  qed
qed

text \<open>
  C5: Free buddies stay merged: when no two free blocks are buddies of each other, neither allocation nor release leaves two
  that are, so a block given back is merged as far as it can be.
\<close>

theorem pmm_stays_coalesced:
  assumes "pmm_reach h mem b live" "\<forall>p k. \<not> buddies_free b p k"
    "(\<exists>order f. pm_alloc b order = Some (f, b')) \<or> (\<exists>order m f. pm_alloc_constrained b order m = Some (f, b')) \<or>
     (\<exists>p k. (p, k) \<in> set live \<and> pm_free b (fr_new p k) = Some b')"
  shows "\<not> buddies_free b' p k"
proof -
  obtain fl where s: "sys_inv b fl live" using sys_reach [OF assms(1)] by blast
  note inv = sys_invD(1) [OF s]
  have m: "merged fl" using merged_iff [OF inv] assms(2) by blast
  have "\<exists>fl'. pm_inv b' fl' \<and> merged fl'"
    using assms(3)
  proof (elim disjE exE conjE, goal_cases)
    case (1 order f)
    then show ?case using merged_alloc [OF inv m] by metis
  next
    case (2 order lim f)
    then show ?case using merged_alloc_below [OF inv m] by metis
  next
    case (3 p k)
    obtain fl' q j fl1 where f: "sys_inv b' fl' (remove1 (p, k) live)" "fl' = fl1(j := q # fl1 j)" "j \<le> 10"
      "j < 10 \<longrightarrow> q XOR block_size j \<notin> set (fl1 j)" "\<forall>i. set (fl1 i) \<subseteq> set (fl i)"
      using sys_free [OF s 3(1)] 3(2) by (metis option.inject)
    have "merged fl'"
    proof (cases "j = 10")
      case True
      then show ?thesis using merged_subset [OF m f(5)] f(2) by (simp add: merged_def)
    next
      case False
      then show ?thesis using merged_pushes [OF merged_subset [OF m f(5)], of fl' j "Suc j" "\<lambda>_. q"] f(2-4) by (auto simp: less_Suc_eq)
    qed
    then show ?case using sys_invD(1) [OF f(1)] by blast
  qed
  then show ?thesis using merged_iff by blast
qed

theorem pmm_stays_coalesced_witness:
  "(\<forall>p k. \<not> buddies_free (pm_new 0 demo_mem) p k) \<and> (\<exists>b'. pm_alloc (pm_new 0 demo_mem) 0 = Some (None, b') \<and> \<not> buddies_free b' 0 0)"
proof -
  have s: "sys_inv (pm_new 0 demo_mem) (\<lambda>_. []) []" by (rule sys_init)
  have n: "\<not> buddies_free (pm_new 0 demo_mem) p k" for p k
    using merged_iff [OF sys_invD(1) [OF s]] by (simp add: merged_def)
  have "\<not> has_block (pm_new 0 demo_mem) (\<lambda>_. []) 0" by (simp add: has_block_def live_runs_def pm_new_def)
  then obtain b' where a: "pm_alloc (pm_new 0 demo_mem) 0 = Some (None, b')" using sys_alloc [OF s, of 0] by auto
  then have "\<not> buddies_free b' 0 0" using pmm_stays_coalesced [of 0 demo_mem "pm_new 0 demo_mem" "[]" b' 0 0] n by blast
  then show ?thesis using n a by blast
qed

text \<open>
  C20: \<open>order_for\<close> gives the least order whose block holds the bytes and is a multiple of the alignment, and nothing for an
  empty size, an alignment that is not a power of two, or a request above the largest block.
\<close>

theorem order_for_least:
  assumes "align < 2 ^ 64"
  shows "order_for bytes align = Some k \<longleftrightarrow> 0 < bytes \<and> (align = 0 \<or> is_power_of_two align) \<and> k \<le> MAX_ORDER \<and>
    order_fits bytes align k \<and> (\<forall>j < k. \<not> order_fits bytes align j)"
  using assms by (rule order_for_spec)

theorem order_for_least_witness: "order_for 5000 0 = Some 1"
  using order_for_least [of 0 5000 1] by (simp add: order_fits_def block_size_eq FRAME_SIZE_eq MAX_ORDER_eq)

text \<open>
  C19: \<open>clip_usable\<close> emits non-empty pieces in ascending order that cover exactly the addresses of the range outside every
  exclusion, each exclusion rounded outward to pages.
\<close>

theorem clip_usable_exact:
  assumes "\<forall>e \<in> set excl. fst e < 2 ^ 64 \<and> snd e < 2 ^ 64" "snd r < 2 ^ 64"
  shows "(\<forall>s \<in> set (clip_usable r excl). fst s < snd s) \<and> sorted_wrt (\<lambda>s t. snd s \<le> fst t) (clip_usable r excl) \<and>
    (\<forall>x. (\<exists>s \<in> set (clip_usable r excl). fst s \<le> x \<and> x < snd s) \<longleftrightarrow> fst r \<le> x \<and> x < snd r \<and> \<not> excluded excl x)"
  unfolding clip_usable_def using clip_loop_spec [OF assms, of "fst r"] by blast

theorem clip_usable_exact_witness:
  "\<exists>s \<in> set (clip_usable (0, 0x4000) [(0x1800, 0x1900)]). fst s \<le> 0x2000 \<and> 0x2000 < snd s"
  using clip_usable_exact [of "[(0x1800, 0x1900)]" "(0, 0x4000)"] by (simp add: excluded_def)

text \<open>
  C21: \<open>choose_trampoline_page\<close> gives the lowest page below 1 MiB, other than page 0, that lies within one of the usable
  ranges, and nothing when there is none.
\<close>

theorem trampoline_page_lowest:
  assumes "\<forall>r \<in> set rs. fst r < 2 ^ 64 \<and> snd r < 2 ^ 64"
  shows "case choose_trampoline_page rs of
      Some p \<Rightarrow> trampoline_page rs p \<and> (\<forall>q. trampoline_page rs q \<longrightarrow> p \<le> q)
    | None \<Rightarrow> \<forall>q. \<not> trampoline_page rs q"
  using assms by (rule choose_trampoline_spec)

theorem trampoline_page_lowest_witness:
  "\<exists>p. choose_trampoline_page [(0x8800, 0x20000), (0, 0x500)] = Some p \<and> p \<le> 0x9000"
proof -
  have "trampoline_page [(0x8800, 0x20000), (0, 0x500)] 0x9000" by (simp add: trampoline_page_def TRAMPOLINE_LIMIT_def)
  then show ?thesis using trampoline_page_lowest [of "[(0x8800, 0x20000), (0, 0x500)]"] by (auto split: option.splits)
qed

text \<open>
  C22: A token for a page-aligned block other than frame 0 is never zero, as its type \<open>NonZeroU64\<close> demands, and keeps what it
  was made from: its base, its order and its number of frames read back, and a token moved into a page-table entry and
  taken out again at its order is the same token.
\<close>

theorem frames_token_well_formed:
  assumes "0 < base" "base < 2 ^ 64" "FRAME_SIZE dvd base" "order \<le> MAX_ORDER"
  shows "fr_new base order \<noteq> 0 \<and> fr_base (fr_new base order) = base \<and> fr_order (fr_new base order) = order \<and>
    fr_count (fr_new base order) = Some (2 ^ order) \<and> fr_from_entry (fr_into_entry (fr_new base order)) order = fr_new base order"
proof -
  have R: "fr_base (fr_new base order) = base" "fr_order (fr_new base order) = order"
    using fr_new_roundtrip [of base order] assms by (simp_all add: FRAME_SIZE_eq MAX_ORDER_eq)
  have "fr_base 0 = 0" by (simp add: fr_base_def and_not64_def)
  then have "fr_new base order \<noteq> 0" using R(1) assms(1) by (metis less_irrefl)
  moreover have "fr_count (fr_new base order) = Some (2 ^ order)"
  proof -
    have "order < 64" using assms(4) by (simp add: MAX_ORDER_eq)
    then have "(2 :: nat) ^ order < 2 ^ 64" by (rule power_strict_increasing) simp
    then show ?thesis using \<open>order < 64\<close> by (simp add: fr_count_def R shl64_def push_bit_eq_mult)
  qed
  ultimately show ?thesis by (simp add: R fr_from_entry_def fr_into_entry_def)
qed

theorem frames_token_well_formed_witness: "fr_base (fr_new 0x400000 10) = 0x400000 \<and> fr_count (fr_new 0x400000 10) = Some 1024"
  using frames_token_well_formed [of "0x400000" 10] by (simp add: FRAME_SIZE_eq MAX_ORDER_eq)

end
