(* ===== verification/Spec2Isabelle.thy ===== *)
theory Spec2Isabelle
  imports Sched_Props Wait_Props Pid_Props Id_Index_Props Kva_Props Elf_Props Part_Props Pmm_Range_Props
begin

text \<open>
  A verification development of the portable core of the vibeOS kernel, \<open>src/crates/core/src\<close>.

  \<^bold>\<open>The program.\<close> vibeOS is split in two. The crate \<open>core\<close> holds the portable half: data structures, parsers and
  policies that touch no hardware and run on the host. The crate in \<open>src/src\<close> holds the locks, the devices and the
  assembly, and calls the portable half. The parts of the portable half that this development models, and how they meet:

  \<^item> memory: the buddy allocator hands out physical frames (\<open>mm/pmm.rs\<close>), and the range allocator the kernel virtual
    addresses they are mapped at (\<open>mm/kva.rs\<close>);
  \<^item> scheduling: the ready queue and the timeout queue (\<open>sched/mod.rs\<close>, \<open>sched/thread.rs\<close>) and the wait queues, reader-writer
    lock and channel that block a thread and make it ready again (\<open>sched/wait.rs\<close>);
  \<^item> processes: the ids of processes and threads and the index from an id to its table slot (\<open>proc/pid.rs\<close>), and loading
    a program, from the ELF file to its mapping and its first stack (\<open>proc/elf.rs\<close>, \<open>proc/elf/stack.rs\<close>);
  \<^item> storage: the partition tables of a disk (\<open>block/part.rs\<close>).

  \<^bold>\<open>How Rust is written.\<close> The kernel is built with overflow checks, so arithmetic overflow, an index out of range and a
  failed assertion panic: such a computation has type \<open>'a option\<close>, with \<open>None\<close> for the panic (theory \<open>Prelude\<close>). A Rust
  \<open>Result\<close> is a sum with the error on the left (theory \<open>Bytes\<close>). A \<open>u64\<close> is a natural number below \<open>2 ^ 64\<close> with checked,
  saturating and wrapping operations, or a word where the code works bitwise. A mutable structure is a record that each
  operation returns updated. \<open>Prelude\<close>, \<open>Queues\<close> (sequences and the interface \<open>fifo_queue\<close>), \<open>Linked\<close> (doubly linked lists
  threaded through their elements), \<open>Bytes\<close> (slices and little-endian integers), \<open>Va\<close> (the user half of the address
  space) and \<open>Crc32\<close> hold what the components share.

  \<^bold>\<open>Which theory models what.\<close>

  \<^item> \<open>Sched_Queues\<close>: \<open>ReadyQueue\<close> as \<open>rq_*\<close>, \<open>TimeoutQueue\<close> as \<open>tq_*\<close>, \<open>wake_expired\<close> and the overdue sweep \<open>find_overdue\<close>.
    \<open>Sched_Props\<close> shows that the ring is a queue across its wrap, that removal keeps the order, that the sleep queue
    refines a map from threads to deadlines, and which threads a sweep reports.
  \<^item> \<open>Wait_Queues\<close>: \<open>WaitQueue\<close> as \<open>wq_*\<close> over the link table the queues share, \<open>begin_wait\<close>, \<open>wake_one\<close>, \<open>wake_all\<close>, the
    reader-writer lock state and the bounded channel. \<open>Wait_Props\<close> shows that queues which share the table do not disturb
    each other, that blocking and waking keep the wait, ready and timeout queues consistent, lock exclusion and the
    order of the channel. The ready queue, the wait queue and the channel are instances of \<open>fifo_queue\<close>.
  \<^item> \<open>Pid_Alloc\<close>, \<open>Id_Index\<close>: \<open>PidAlloc\<close> as \<open>pa_*\<close> and \<open>IdIndex\<close> as \<open>ix_*\<close>, the instance of the interface \<open>id_table\<close>.
    \<open>Pid_Props\<close> and \<open>Id_Index_Props\<close> show which id is handed out, that counts are the uses not yet freed, and that the
    open-addressed index is a map under insertion and removal by backward shift.
  \<^item> \<open>Kva_Sort\<close>, \<open>Kva\<close>: the in-place heapsort and \<open>Kva\<close> as \<open>kv_*\<close>. \<open>Kva_Props\<close> shows that the ranges handed out and the
    free list tile the window, that allocation is first fit, and that a release always finds a node.
  \<^item> \<open>Pmm\<close>: \<open>Buddy\<close> as the record \<open>buddy\<close>, with the memory that holds the list nodes as its last field, \<open>Frames\<close> as
    \<open>fr_*\<close>, and the boot-time helpers. \<open>Pmm_Inv\<close> has the invariant, \<open>pm_inv\<close>: the free lists and the runs of top-order
    blocks are together a multiset of frames, each at most once. \<open>Pmm_Ops\<close> proves the operations against it, \<open>Pmm_Sys\<close>
    adds the clients as the step relation \<open>pmm_step\<close>, in which the owner of a block may write into it, and \<open>Pmm_Ranges\<close>
    the helpers. \<open>Pmm_Props\<close> and \<open>Pmm_Range_Props\<close> have the properties.
  \<^item> \<open>Elf\<close>, \<open>Elf_Plan\<close>, \<open>Exec_Stack\<close>: \<open>parse\<close> with its header and segment checks, \<open>load_plan\<close> and \<open>load_segments\<close>, and the
    argument block and initial stack. \<open>Elf_Props\<close> shows what an accepted file satisfies whatever its bytes, that the plan
    agrees with the reference of the last covering segment, and that the stack reads back.
  \<^item> \<open>Part\<close>, \<open>Part_Pack\<close>: the MBR, EBR and GPT parsers and packers. The device is the argument \<open>read\<close>, any function from
    a sector number to bytes or an error. \<open>Part_Props\<close> shows that an accepted table is within the disk, the round
    trips, and the fall back to the backup header.

  \<^bold>\<open>Fuel and bounds.\<close> Loops are structural recursion where the source counts, and \<open>function\<close> with a measure otherwise
  (\<open>insert_loop\<close>, \<open>merge_up\<close>, \<open>clip_loop\<close>). A list walk that need not end is either a \<open>partial_function\<close> (\<open>find_node\<close>) or has
  the number of nodes as fuel (\<open>kv_chain\<close>, \<open>kv_walk\<close>), which is enough since a list visits a node once; running out is
  \<open>None\<close>, and the theorems say the result is \<open>Some\<close>. The walk of extended boot records has the source's own bound.
  Properties of partition tables assume a disk of fewer than \<open>2 ^ 64 - 1\<close> sectors, which holds of any disk.

  \<^bold>\<open>Not modelled.\<close> The page tables, address spaces and user copies, which work through hardware tables and raw pointers;
  the file systems, the block cache and the drivers; clocks, console, logging, tracing and crash dumps; locks and
  atomics, whose behaviour is that of a memory model this sequential development does not have; and all of \<open>src/src\<close>,
  which is hardware access. The thread table and the context switch are left out of the scheduler.
\<close>

end
